(* ===== verification/Prelude.thy ===== *)
theory Prelude
  imports Main "HOL-Library.Word"
begin

unbundle bit_operations_syntax

text \<open>
  Shared base of the development: names for the machine types of
  \<^verbatim>\<open>kernel/az_types.h\<close>, the C conversions the kernel relies on, the error numbers of
  \<^verbatim>\<open>kernel/errno.h\<close> it returns, and generic lemmas on words, bits, list search and blocks of
  pages that the component theories use.

  Conventions. \<^verbatim>\<open>QWORD\<close>, \<^verbatim>\<open>size_t\<close> and pointers are 64-bit words, \<^verbatim>\<open>DWORD\<close> and
  \<^verbatim>\<open>unsigned int\<close> 32-bit words, \<^verbatim>\<open>BYTE\<close> an 8-bit word. A C \<^verbatim>\<open>int\<close> that is only ever an index or a
  counter of an array is a natural number; where it can be negative or is truncated from a
  wider value, the conversion is written out with the functions below. A C array that is
  indexed without a bounds check is a total function from its indices.
\<close>

section \<open>Machine types\<close>

type_synonym byte = "8 word"
type_synonym dword = "32 word"
type_synonym qword = "64 word"

type_synonym 'a carray = "nat \<Rightarrow> 'a"

named_theorems azalea_simps \<open>unfolding of the small C-level helpers\<close>
named_theorems frame_simps \<open>fields an operation leaves alone\<close>

section \<open>C conversions\<close>

text \<open>A 64-bit value stored into an \<^verbatim>\<open>int\<close>: the low 32 bits, read as two's complement.\<close>

definition int_of_qword :: "qword \<Rightarrow> int" where
  "int_of_qword w = sint (ucast w :: 32 word)"

text \<open>An \<^verbatim>\<open>int\<close> result widened to a \<^verbatim>\<open>QWORD\<close> (sign extension).\<close>

definition qword_of_int :: "int \<Rightarrow> qword" where
  "qword_of_int i = word_of_int i"

text \<open>C's \<^verbatim>\<open>/\<close> and \<^verbatim>\<open>%\<close> on signed operands truncate towards zero.\<close>

definition c_div :: "int \<Rightarrow> int \<Rightarrow> int" where
  "c_div a b = sgn a * sgn b * (\<bar>a\<bar> div \<bar>b\<bar>)"

definition c_mod :: "int \<Rightarrow> int \<Rightarrow> int" where
  "c_mod a b = sgn a * (\<bar>a\<bar> mod \<bar>b\<bar>)"

text \<open>The little-endian \<^verbatim>\<open>QWORD\<close> stored in the eight bytes from index \<open>k\<close> on.\<close>

definition load64 :: "byte carray \<Rightarrow> nat \<Rightarrow> qword" where
  "load64 f k = foldr (\<lambda>j acc. ucast (f (k + j)) OR push_bit 8 acc) [0..<8] 0"

section \<open>Error numbers\<close>

definition EINVAL :: int where "EINVAL = 22"
definition ENOENT :: int where "ENOENT = 2"
definition ENOMEM :: int where "ENOMEM = 12"
definition ENOSPC :: int where "ENOSPC = 28"
definition ENOSYS :: int where "ENOSYS = 38"
definition EOVERFLOW :: int where "EOVERFLOW = 75"
definition ECANCELED :: int where "ECANCELED = 125"

lemmas errno_defs = EINVAL_def ENOENT_def ENOMEM_def ENOSPC_def ENOSYS_def EOVERFLOW_def
  ECANCELED_def

section \<open>Words and bits\<close>

declare push_bit_of_1 [simp del]

lemma and_push_bit_one_iff:
  "(w AND push_bit n 1 \<noteq> 0) \<longleftrightarrow> bit w n" for w :: "'a::len word"
proof
  assume "w AND push_bit n 1 \<noteq> 0"
  then obtain m where "bit (w AND push_bit n 1) m"
    by (auto simp: bit_eq_iff)
  then show "bit w n"
    by (auto simp: bit_simps)
next
  assume "bit w n"
  then have "bit (w AND push_bit n 1) n"
    by (auto simp: bit_simps bit_imp_le_length)
  then show "w AND push_bit n 1 \<noteq> 0"
    by (intro notI) simp
qed

lemma and_push_bit_one_eq_0 [azalea_simps]:
  "(w AND push_bit n 1 = 0) \<longleftrightarrow> \<not> bit w n" for w :: "'a::len word"
  using and_push_bit_one_iff by blast

lemma bit_or_push_bit_one:
  "n < LENGTH('a) \<Longrightarrow> bit (w OR push_bit n 1) m \<longleftrightarrow> bit w m \<or> m = n" for w :: "'a::len word"
  by (auto simp: bit_simps)

lemma bit_and_not_push_bit_one:
  "n < LENGTH('a) \<Longrightarrow> bit (w AND NOT (push_bit n 1)) m \<longleftrightarrow> bit w m \<and> m \<noteq> n"
  for w :: "'a::len word"
  using bit_imp_le_length [of w m] by (auto simp: bit_simps)

lemma c_div_nonneg [simp]: "0 \<le> a \<Longrightarrow> 0 < b \<Longrightarrow> c_div a b = a div b"
  by (cases "a = 0") (simp_all add: c_div_def)

lemma c_mod_nonneg [simp]: "0 \<le> a \<Longrightarrow> 0 < b \<Longrightarrow> c_mod a b = a mod b"
  by (cases "a = 0") (simp_all add: c_mod_def)

lemma nat_c_div_neg [simp]: "a < 0 \<Longrightarrow> 0 < b \<Longrightarrow> nat (c_div a b) = 0"
  by (simp add: c_div_def pos_imp_zdiv_nonneg_iff)

lemma nat_c_mod_neg [simp]: "a < 0 \<Longrightarrow> 0 < b \<Longrightarrow> nat (c_mod a b) = 0"
  by (simp add: c_mod_def)

lemma int_of_qword_small:
  assumes "unat w < 2 ^ 31"
  shows "int_of_qword w = int (unat w)"
proof -
  have "int (unat w) < int (2 ^ 31)"
    using assms by (simp only: of_nat_less_iff)
  then have h: "uint w < 2 ^ 31" by simp
  have u: "uint (ucast w :: 32 word) = uint w"
    using h by (simp add: unsigned_ucast_eq unsigned_take_bit_eq take_bit_int_eq_self)
  have "sint (ucast w :: 32 word) = uint (ucast w :: 32 word)"
    unfolding sint_uint using h u
    by (intro signed_take_bit_int_eq_self) (simp_all add: order.trans [OF _ uint_ge_0, of "- 2147483648"])
  with u show ?thesis by (simp add: int_of_qword_def)
qed

lemma sint_word_of_nat_small: "n < 2 ^ 31 \<Longrightarrow> sint (word_of_nat n :: 32 word) = int n"
proof -
  assume "n < 2 ^ 31"
  then have "int n < int (2 ^ 31)" by (simp only: of_nat_less_iff)
  then have "signed_take_bit 31 (int n) = int n"
    by (intro signed_take_bit_int_eq_self) simp_all
  then show ?thesis by (simp add: signed_of_nat)
qed

lemma scast_word_of_nat_small: "n < 2 ^ 31 \<Longrightarrow> scast (word_of_nat n :: 32 word) = (word_of_nat n :: qword)"
  by (simp add: scast_eq sint_word_of_nat_small)

lemma unat_word_of_nat_small: "n < 2 ^ LENGTH('a) \<Longrightarrow> unat (word_of_nat n :: 'a::len word) = n"
  by (simp add: unat_of_nat take_bit_nat_eq_self)

lemma word_of_nat_div:
  assumes "a < 2 ^ LENGTH('a)" "b < 2 ^ LENGTH('a)"
  shows "(word_of_nat a :: 'a::len word) div word_of_nat b = word_of_nat (a div b)"
proof -
  have "a div b < 2 ^ LENGTH('a)" using assms(1) div_le_dividend [of a b] by linarith
  then have "unat ((word_of_nat a :: 'a word) div word_of_nat b) = unat (word_of_nat (a div b) :: 'a word)"
    using assms by (simp only: unat_div_distrib unat_word_of_nat_small)
  then show ?thesis by (simp only: word_unat_eq_iff)
qed

lemma int_of_qword_word_of_nat: "n < 2 ^ 31 \<Longrightarrow> int_of_qword (word_of_nat n) = int n"
proof -
  assume n: "n < 2 ^ 31"
  then have "unat (word_of_nat n :: qword) = n" by (intro unat_word_of_nat_small) simp
  with n show ?thesis using int_of_qword_small [of "word_of_nat n"] by simp
qed

lemma unat_qword_less: "unat (w :: qword) < 2 ^ 64"
  using unsigned_less [of w] by simp

lemma of_nat_eq_0_word:
  "n < 2 ^ LENGTH('a) \<Longrightarrow> (of_nat n = (0 :: 'a::len word)) \<longleftrightarrow> n = 0"
  by (auto simp: word_of_nat_eq_0_iff dest: dvd_imp_le)

lemma div_mod_8_eq: "(a::nat) div 8 = b div 8 \<Longrightarrow> a mod 8 = b mod 8 \<Longrightarrow> a = b"
  by (metis div_mult_mod_eq)

lemma foldr_load64_bit:
  "bit (foldr (\<lambda>j acc. ucast (f j) OR push_bit 8 acc) [a..<a + n] (0 :: qword)) i \<longleftrightarrow>
     i < 64 \<and> i < 8 * n \<and> bit (f (a + i div 8) :: byte) (i mod 8)"
proof (induction n arbitrary: a i)
  case 0
  then show ?case by simp
next
  case (Suc n)
  have up: "[a..<a + Suc n] = a # [Suc a..<Suc a + n]"
    by (simp add: upt_conv_Cons)
  have b: "\<not> bit (f k) m" if "8 \<le> m" for k m
    using bit_imp_le_length [of "f k" m] that by auto
  have shift: "a + i div 8 = Suc a + (i - 8) div 8" "i mod 8 = (i - 8) mod 8" if "8 \<le> i"
    using that by (simp_all add: le_div_geq mod_if)
  have ih: "bit (foldr (\<lambda>j acc. ucast (f j) OR push_bit 8 acc) [Suc a..<Suc a + n] (0 :: qword)) j
    \<longleftrightarrow> j < 64 \<and> j < 8 * n \<and> bit (f (Suc a + j div 8)) (j mod 8)" for j
    by (rule Suc.IH)
  show ?case
    unfolding up foldr.simps comp_def bit_or_iff bit_push_bit_iff ih
    using b [of i a] b [of "i - 8"] shift
    by (cases "i < 8") (auto simp: bit_simps)
qed

lemma bit_load64:
  "bit (load64 f k) i \<longleftrightarrow> i < 64 \<and> bit (f (k + i div 8)) (i mod 8)"
  using foldr_load64_bit [of "\<lambda>j. f (k + j)" 0 8 i]
  by (auto simp: load64_def)

lemma load64_eq_0_iff:
  "load64 f k = 0 \<longleftrightarrow> (\<forall>i<64. \<not> bit (f (k + i div 8)) (i mod 8))"
  by (auto simp: bit_eq_iff bit_load64)

section \<open>Searching a range\<close>

text \<open>
  The kernel's search loops (\<^verbatim>\<open>for (i = lo; i < hi; i++) if (P i) return i\<close>) are
  \<open>find P [lo..<hi]\<close>.
\<close>

lemma find_upt_Some_iff:
  "find P [lo..<hi] = Some i \<longleftrightarrow> lo \<le> i \<and> i < hi \<and> P i \<and> (\<forall>j. lo \<le> j \<and> j < i \<longrightarrow> \<not> P j)"
proof
  assume "find P [lo..<hi] = Some i"
  then obtain n where n: "n < length [lo..<hi]" "P ([lo..<hi] ! n)" "i = [lo..<hi] ! n"
    "\<forall>j<n. \<not> P ([lo..<hi] ! j)"
    by (auto simp: find_Some_iff)
  have "\<not> P j" if "lo \<le> j" "j < i" for j
    using n(4) [rule_format, of "j - lo"] n(1,3) that by auto
  with n show "lo \<le> i \<and> i < hi \<and> P i \<and> (\<forall>j. lo \<le> j \<and> j < i \<longrightarrow> \<not> P j)"
    by auto
next
  assume r: "lo \<le> i \<and> i < hi \<and> P i \<and> (\<forall>j. lo \<le> j \<and> j < i \<longrightarrow> \<not> P j)"
  then have "\<forall>j<i - lo. \<not> P ([lo..<hi] ! j)" by auto
  with r show "find P [lo..<hi] = Some i"
    by (auto simp: find_Some_iff intro!: exI [of _ "i - lo"])
qed

lemma find_upt_None_iff: "find P [lo..<hi] = None \<longleftrightarrow> (\<forall>i. lo \<le> i \<and> i < hi \<longrightarrow> \<not> P i)"
  by (auto simp: find_None_iff)

section \<open>Blocks of a buddy system\<close>

text \<open>The pages of block \<open>k\<close> of level \<open>l\<close> are those \<open>p\<close> with \<open>p div 2 ^ l = k\<close>.\<close>

definition block_pages :: "nat \<Rightarrow> nat \<Rightarrow> nat set" where
  "block_pages l k = {k * 2 ^ l ..< (k + 1) * 2 ^ l}"

lemma div_pow_eq_iff: "p div 2 ^ l = k \<longleftrightarrow> p \<in> block_pages l k" for p :: nat
proof -
  have "0 < (2::nat) ^ l" by simp
  then show ?thesis
    by (auto simp: block_pages_def div_nat_eqI dividend_less_times_div algebra_simps
        less_mult_imp_div_less intro: div_times_less_eq_dividend)
qed

lemma card_block_pages [simp]: "card (block_pages l k) = 2 ^ l"
  by (simp add: block_pages_def)

lemma finite_block_pages [simp]: "finite (block_pages l k)"
  by (simp add: block_pages_def)

lemma div_pow_Suc: "p div 2 ^ Suc l = (p div 2 ^ l) div 2" for p :: nat
  by (metis div_mult2_eq power_Suc2)

end
