(* ===== verification/Mutex.thy ===== *)
theory Mutex
  imports Prelude
begin

text \<open>
  What a lock promises to the code it guards, whatever its algorithm. The kernel has two: the
  test-and-set lock of \<^verbatim>\<open>include/api/sys/lock.h\<close> and the ticket lock of \<^verbatim>\<open>kernel/sync.h\<close>. Both are
  described by the atomic steps of their code, taken by any number of cores in any order. The client
  is a datum that every core updates inside its critical sections by reading it and, some steps
  later, writing back a function of what it read.
\<close>

record ('l, 'x) guarded =
  glock :: 'l
  datum :: 'x
  copy :: "nat \<Rightarrow> 'x option"
  updates :: nat

text \<open>
  A core takes a step of the lock's code only when it is not in the middle of an update; it reads and
  writes the datum only while it owns the lock.
\<close>

inductive guarded_step :: "(nat \<Rightarrow> 'l \<Rightarrow> 'l \<Rightarrow> bool) \<Rightarrow> (nat \<Rightarrow> 'l \<Rightarrow> bool) \<Rightarrow> ('x \<Rightarrow> 'x) \<Rightarrow>
    ('l, 'x) guarded \<Rightarrow> ('l, 'x) guarded \<Rightarrow> bool"
  for lstep :: "nat \<Rightarrow> 'l \<Rightarrow> 'l \<Rightarrow> bool" and owns :: "nat \<Rightarrow> 'l \<Rightarrow> bool" and f :: "'x \<Rightarrow> 'x" where
  lock_code: "copy g c = None \<Longrightarrow> lstep c (glock g) l \<Longrightarrow> guarded_step lstep owns f g (g\<lparr>glock := l\<rparr>)"
| read: "owns c (glock g) \<Longrightarrow> copy g c = None \<Longrightarrow>
    guarded_step lstep owns f g (g\<lparr>copy := (copy g)(c := Some (datum g))\<rparr>)"
| update: "owns c (glock g) \<Longrightarrow> copy g c = Some v \<Longrightarrow>
    guarded_step lstep owns f g (g\<lparr>datum := f v, copy := (copy g)(c := None), updates := Suc (updates g)\<rparr>)"

locale mutex =
  fixes lstep :: "nat \<Rightarrow> 'l \<Rightarrow> 'l \<Rightarrow> bool"
    and owns :: "nat \<Rightarrow> 'l \<Rightarrow> bool"
    and linv :: "'l \<Rightarrow> bool"
  assumes keeps: "linv l \<Longrightarrow> lstep c l l' \<Longrightarrow> linv l'"
    and one_owner: "linv l \<Longrightarrow> owns c l \<Longrightarrow> owns d l \<Longrightarrow> c = d"
    and own_steps: "linv l \<Longrightarrow> lstep c l l' \<Longrightarrow> d \<noteq> c \<Longrightarrow> owns d l' = owns d l"
begin

text \<open>Copies are up to date, so no update is lost.\<close>

lemma guarded_steps:
  assumes "(guarded_step lstep owns f)\<^sup>*\<^sup>* g g'" "linv (glock g)" "copy g = (\<lambda>_. None)" "updates g = 0"
  shows "linv (glock g') \<and> (\<forall>c v. copy g' c = Some v \<longrightarrow> owns c (glock g') \<and> v = datum g') \<and>
    datum g' = (f ^^ updates g') (datum g)"
  using assms
proof (induction rule: rtranclp_induct)
  case (step h k)
  then have IH: "linv (glock h)" "\<And>c v. copy h c = Some v \<Longrightarrow> owns c (glock h) \<and> v = datum h"
    "datum h = (f ^^ updates h) (datum g)" by blast+
  from step.hyps(2) show ?case
  proof cases
    case (lock_code c l)
    then show ?thesis using IH keeps own_steps by (metis (no_types, lifting) guarded.select_convs(1-4)
          guarded.update_convs(1) guarded.surjective option.distinct(1))
  next
    case (read c)
    then show ?thesis using IH by auto
  next
    case (update c v)
    then have v: "v = datum h" using IH(2) by blast
    have "copy h d = None" if "d \<noteq> c" for d
      using IH(2) [of d] one_owner [OF IH(1) update(2), of d] that by (cases "copy h d") auto
    then show ?thesis using update v IH(1,3) by (auto simp: split: if_splits)
  qed
qed simp

end

end
