(* ===== verification/Spinlock.thy ===== *)
theory Spinlock
  imports Mutex
begin

text \<open>
  The test-and-set spinlock of \<^verbatim>\<open>include/api/sys/lock.h\<close>, which guards every shared structure of
  the kernel. The operations are modelled first as sequential code (a lock that is never
  released is a loop that never returns, \<^const>\<open>None\<close>), then as the steps of any number of cores
  that contend for one lock.
\<close>

section \<open>Operations\<close>

record spinlock_t =
  lock :: qword

text \<open>\<^verbatim>\<open>lock; cmpxchgq\<close>: the old contents, and the contents after the exchange.\<close>

definition cmpxchg :: "qword \<Rightarrow> qword \<Rightarrow> qword \<Rightarrow> qword \<times> qword" where
  "cmpxchg ptr old new = (ptr, if ptr = old then new else ptr)"

definition spinlock_init :: "spinlock_t \<Rightarrow> spinlock_t" where
  "spinlock_init l = l\<lparr>lock := 0\<rparr>"

definition spinlock_trylock :: "spinlock_t \<Rightarrow> bool \<times> spinlock_t" where
  "spinlock_trylock l =
     (let (ret, v) = cmpxchg (lock l) 0 1; l' = l\<lparr>lock := v\<rparr>
      in if ret \<noteq> 0 then (False, l') else (True, l'))"

text \<open>
  The outer \<^verbatim>\<open>do ... while\<close> repeats the inner \<^verbatim>\<open>while (lock->lock == TRUE) pause\<close> and the
  exchange until the exchange returns 0.
\<close>

partial_function (option) spinlock_lock :: "spinlock_t \<Rightarrow> spinlock_t option" where
  "spinlock_lock l =
     (if lock l = 1 then spinlock_lock l
      else (let (ret, v) = cmpxchg (lock l) 0 1; l' = l\<lparr>lock := v\<rparr>
            in if ret \<noteq> 0 then spinlock_lock l' else Some l'))"

definition spinlock_unlock :: "spinlock_t \<Rightarrow> spinlock_t" where
  "spinlock_unlock l = l\<lparr>lock := 0\<rparr>"

section \<open>Sequential behaviour\<close>

lemma spinlock_lock_free: "lock l = 0 \<Longrightarrow> spinlock_lock l = Some (l\<lparr>lock := 1\<rparr>)"
  by (subst spinlock_lock.simps) (simp add: cmpxchg_def)

lemma spinlock_lock_returns:
  assumes "spinlock_lock l = Some l'"
  shows "lock l = 0 \<and> l' = l\<lparr>lock := 1\<rparr>"
proof (rule spinlock_lock.raw_induct [where P = "\<lambda>l l'. lock l = 0 \<and> l' = l\<lparr>lock := 1\<rparr>", OF _ assms])
  fix f :: "spinlock_t \<Rightarrow> spinlock_t option" and l l'
  assume IH: "\<And>l l'. f l = Some l' \<Longrightarrow> lock l = 0 \<and> l' = l\<lparr>lock := 1\<rparr>"
    and eq: "(if lock l = 1 then f l
      else (let (ret, v) = cmpxchg (lock l) 0 1; l' = l\<lparr>lock := v\<rparr>
            in if ret \<noteq> 0 then f l' else Some l')) = Some l'"
  show "lock l = 0 \<and> l' = l\<lparr>lock := 1\<rparr>"
    using eq by (auto simp: cmpxchg_def Let_def split: if_splits dest: IH)
qed

lemma spinlock_lock_eq:
  "spinlock_lock l = (if lock l = 0 then Some (l\<lparr>lock := 1\<rparr>) else None)"
proof (cases "spinlock_lock l")
  case None
  then show ?thesis using spinlock_lock_free [of l] by auto
next
  case (Some l')
  then show ?thesis using spinlock_lock_returns [of l l'] by simp
qed

lemma spinlock_trylock_eq:
  "spinlock_trylock l = (lock l = 0, l\<lparr>lock := if lock l = 0 then 1 else lock l\<rparr>)"
  by (simp add: spinlock_trylock_def cmpxchg_def Let_def)

lemma spinlock_unlock_lock [simp]: "lock (spinlock_unlock l) = 0"
  by (simp add: spinlock_unlock_def)

lemma spinlock_init_lock [simp]: "lock (spinlock_init l) = 0"
  by (simp add: spinlock_init_def)

section \<open>Contending cores\<close>

text \<open>
  The shared accesses of the code, one per step: the test of the inner loop, the exchange (of
  \<^verbatim>\<open>spinlock_lock\<close> or of \<^verbatim>\<open>spinlock_trylock\<close>) and the store of \<^verbatim>\<open>spinlock_unlock\<close>.
\<close>

datatype spin_pc = Spin_out | Spin_test | Spin_xchg | Spin_try | Spin_in

datatype spin_event = Spin_lock | Spin_trylock | Spin_read | Spin_exchange | Spin_unlock

record spin_state =
  spin_lock :: spinlock_t
  spin_pc :: "nat \<Rightarrow> spin_pc"

definition spin_goto :: "nat \<Rightarrow> spin_pc \<Rightarrow> spin_state \<Rightarrow> spin_state" where
  "spin_goto c p s = s\<lparr>spin_pc := (spin_pc s)(c := p)\<rparr>"

fun spin_step :: "nat \<Rightarrow> spin_event \<Rightarrow> spin_state \<Rightarrow> spin_state option" where
  "spin_step c Spin_lock s = (if spin_pc s c = Spin_out then Some (spin_goto c Spin_test s) else None)"
| "spin_step c Spin_trylock s = (if spin_pc s c = Spin_out then Some (spin_goto c Spin_try s) else None)"
| "spin_step c Spin_read s =
     (if spin_pc s c = Spin_test then Some (if lock (spin_lock s) = 1 then s else spin_goto c Spin_xchg s) else None)"
| "spin_step c Spin_exchange s =
     (if spin_pc s c = Spin_xchg \<or> spin_pc s c = Spin_try then
        (let (ret, v) = cmpxchg (lock (spin_lock s)) 0 1;
             s' = s\<lparr>spin_lock := (spin_lock s)\<lparr>lock := v\<rparr>\<rparr>
         in Some (spin_goto c (if ret = 0 then Spin_in else if spin_pc s c = Spin_try then Spin_out else Spin_test) s'))
      else None)"
| "spin_step c Spin_unlock s =
     (if spin_pc s c = Spin_in then Some (spin_goto c Spin_out (s\<lparr>spin_lock := spinlock_unlock (spin_lock s)\<rparr>)) else None)"

definition spin_takes :: "nat \<Rightarrow> spin_state \<Rightarrow> spin_state \<Rightarrow> bool" where
  "spin_takes c s s' \<longleftrightarrow> (\<exists>e. spin_step c e s = Some s')"

definition spin_owns :: "nat \<Rightarrow> spin_state \<Rightarrow> bool" where
  "spin_owns c s \<longleftrightarrow> spin_pc s c = Spin_in"

text \<open>The word is 0 when no core is inside, and 1 when one is.\<close>

definition spin_inv :: "spin_state \<Rightarrow> bool" where
  "spin_inv s \<longleftrightarrow> (\<forall>c. spin_pc s c = Spin_in \<longrightarrow> lock (spin_lock s) = 1) \<and>
     (\<forall>c d. spin_pc s c = Spin_in \<longrightarrow> spin_pc s d = Spin_in \<longrightarrow> c = d) \<and> lock (spin_lock s) \<in> {0, 1}"

lemma spin_step_inv:
  assumes "spin_inv s" "spin_step c e s = Some s'"
  shows "spin_inv s'"
  using assms
  by (cases "(c, e, s)" rule: spin_step.cases)
    (auto simp: spin_inv_def spin_goto_def cmpxchg_def spinlock_unlock_def Let_def split: if_splits)

lemma spin_step_local: "spin_step c e s = Some s' \<Longrightarrow> d \<noteq> c \<Longrightarrow> spin_pc s' d = spin_pc s d"
  by (cases "(c, e, s)" rule: spin_step.cases) (auto simp: spin_goto_def Let_def cmpxchg_def split: if_splits)

interpretation spin: mutex spin_takes spin_owns spin_inv
  by unfold_locales (auto simp: spin_takes_def spin_owns_def spin_step_local intro: spin_step_inv, auto simp: spin_inv_def)

text \<open>C31. Mutual exclusion of the test-and-set spinlock. From a free lock that no core is using, any
  interleaving of the steps of \<^verbatim>\<open>spinlock_lock\<close>, \<^verbatim>\<open>spinlock_trylock\<close> and \<^verbatim>\<open>spinlock_unlock\<close> on any number
  of cores keeps at most one core inside. A datum that the cores update only between lock and unlock,
  by reading it and later writing a function of the value read, loses no update: after \<open>n\<close> updates it
  is the function applied \<open>n\<close> times.\<close>

theorem spinlock_excludes:
  assumes "lock (spin_lock (glock g)) = 0" "spin_pc (glock g) = (\<lambda>_. Spin_out)"
    and "copy g = (\<lambda>_. None)" "updates g = 0" "(guarded_step spin_takes spin_owns f)\<^sup>*\<^sup>* g g'"
  shows "(\<forall>c d. spin_pc (glock g') c = Spin_in \<longrightarrow> spin_pc (glock g') d = Spin_in \<longrightarrow> c = d) \<and>
    datum g' = (f ^^ updates g') (datum g)"
proof -
  have "spin_inv (glock g)" using assms(1,2) by (simp add: spin_inv_def)
  from spin.guarded_steps [OF assms(5) this assms(3,4)] show ?thesis by (auto simp: spin_inv_def)
qed

definition spin_start :: "(spin_state, nat) guarded" where
  "spin_start = \<lparr>glock = \<lparr>spin_lock = \<lparr>lock = 0\<rparr>, spin_pc = \<lambda>_. Spin_out\<rparr>, datum = 5, copy = \<lambda>_. None, updates = 0\<rparr>"

lemma spin_start_steps:
  "(guarded_step spin_takes spin_owns f)\<^sup>*\<^sup>* spin_start
     (spin_start\<lparr>glock := \<lparr>spin_lock = \<lparr>lock = 1\<rparr>, spin_pc = (\<lambda>_. Spin_out)(3 := Spin_in)\<rparr>, datum := f 5, updates := 1\<rparr>)"
proof -
  let ?step = "guarded_step spin_takes spin_owns f"
  let ?at = "\<lambda>v p. spin_start\<lparr>glock := \<lparr>spin_lock = \<lparr>lock = v\<rparr>, spin_pc = (\<lambda>_. Spin_out)(3 := p)\<rparr>\<rparr>"
  have l: "?step g (g\<lparr>glock := l\<rparr>)" if "copy g = (\<lambda>_. None)" "spin_step 3 e (glock g) = Some l" for g :: "(spin_state, nat) guarded" and e l
    using that guarded_step.lock_code [of g 3 spin_takes l spin_owns f] by (auto simp: spin_takes_def)
  have "?step\<^sup>*\<^sup>* spin_start spin_start" by simp
  also have "?step spin_start (?at 0 Spin_try)"
    using l [of spin_start Spin_trylock "\<lparr>spin_lock = \<lparr>lock = 0\<rparr>, spin_pc = (\<lambda>_. Spin_out)(3 := Spin_try)\<rparr>"]
    by (simp add: spin_start_def spin_goto_def)
  also have "?step (?at 0 Spin_try) (?at 1 Spin_in)"
    using l [of "?at 0 Spin_try" Spin_exchange "\<lparr>spin_lock = \<lparr>lock = 1\<rparr>, spin_pc = (\<lambda>_. Spin_out)(3 := Spin_in)\<rparr>"]
    by (simp add: spin_start_def spin_goto_def cmpxchg_def)
  also have "?step (?at 1 Spin_in) ((?at 1 Spin_in)\<lparr>copy := (\<lambda>_. None)(3 := Some 5)\<rparr>)"
    using guarded_step.read [of spin_owns 3 "?at 1 Spin_in" spin_takes f] by (simp add: spin_start_def spin_owns_def)
  also have "?step \<dots> (?at 1 Spin_in\<lparr>datum := f 5, updates := 1\<rparr>)"
    using guarded_step.update [of spin_owns 3 "(?at 1 Spin_in)\<lparr>copy := (\<lambda>_. None)(3 := Some 5)\<rparr>" 5 spin_takes f]
    by (simp add: spin_start_def spin_owns_def)
  finally show ?thesis by (simp add: spin_start_def)
qed

theorem spinlock_excludes_witness:
  "\<exists>g'. (guarded_step spin_takes spin_owns Suc)\<^sup>*\<^sup>* spin_start g' \<and> updates g' = 1 \<and> datum g' = 6"
  using spinlock_excludes [OF _ _ _ _ spin_start_steps [of Suc]] spin_start_steps [of Suc]
  by (intro exI conjI) (assumption, simp_all add: spin_start_def)

end
