(* ===== verification/Utility.thy ===== *)
theory Utility
  imports Prelude
begin

text \<open>
  The memory routines of \<^verbatim>\<open>kernel/utility.c\<close>. Memory is a total function from addresses to bytes;
  \<^verbatim>\<open>QWORD\<close> accesses go through eight bytes, little-endian.
\<close>

type_synonym memory = "qword \<Rightarrow> byte"

definition load_qword :: "memory \<Rightarrow> qword \<Rightarrow> qword" where
  "load_qword m a = load64 (\<lambda>j. m (a + of_nat j)) 0"

definition store_qword :: "memory \<Rightarrow> qword \<Rightarrow> qword \<Rightarrow> memory" where
  "store_qword m a v =
     (\<lambda>x. if unat (x - a) < 8 then ucast (drop_bit (8 * unat (x - a)) v) else m x)"

section \<open>lk_memset and lk_memcpy\<close>

text \<open>Filling \<^verbatim>\<open>tmp_data\<close> with eight copies of the byte.\<close>

definition memset_pattern :: "byte \<Rightarrow> qword" where
  "memset_pattern data = ((\<lambda>tmp. push_bit 8 tmp OR ucast data) ^^ 8) 0"

definition lk_memset :: "memory \<Rightarrow> qword \<Rightarrow> byte \<Rightarrow> int \<Rightarrow> memory" where
  "lk_memset m address data sz =
     (let n = nat (c_div sz 8);
          m1 = fold (\<lambda>i m. store_qword m (address + of_nat (8 * i)) (memset_pattern data)) [0..<n] m
      in fold (\<lambda>i m. m(address + of_nat (8 * n + i) := data)) [0..<nat (c_mod sz 8)] m1)"

definition lk_memcpy :: "memory \<Rightarrow> qword \<Rightarrow> qword \<Rightarrow> int \<Rightarrow> int \<times> memory" where
  "lk_memcpy m destination source sz =
     (let n = nat (c_div sz 8);
          m1 = fold (\<lambda>i m. store_qword m (destination + of_nat (8 * i))
                              (load_qword m (source + of_nat (8 * i)))) [0..<n] m;
          m2 = fold (\<lambda>i m. m(destination + of_nat (8 * n + i) := m (source + of_nat (8 * n + i))))
                 [0..<nat (c_mod sz 8)] m1
      in (sz, m2))"

text \<open>\<open>x\<close> lies in the \<open>n\<close> bytes from \<open>a\<close> on (addresses wrap around).\<close>

definition in_range :: "qword \<Rightarrow> qword \<Rightarrow> nat \<Rightarrow> bool" where
  "in_range x a n \<longleftrightarrow> unat (x - a) < n"

lemma in_range_split:
  "a + b < 2 ^ 64 \<Longrightarrow> in_range x s (a + b) \<longleftrightarrow> in_range x s a \<or> in_range x (s + of_nat a) b"
proof -
  assume h: "a + b < 2 ^ 64"
  show ?thesis
  proof (cases "unat (x - s) < a")
    case True
    then show ?thesis by (simp add: in_range_def)
  next
    case False
    have "unat ((x - s) - of_nat a) = unat (x - s) - a"
      using False h
      by (subst unat_sub) (simp_all add: word_le_nat_alt unat_of_nat take_bit_nat_eq_self)
    then have "unat (x - (s + of_nat a)) = unat (x - s) - a"
      by (simp only: diff_diff_eq)
    then show ?thesis
      using False by (auto simp: in_range_def)
  qed
qed

lemma bit_memset_pattern: "bit (memset_pattern d) i \<longleftrightarrow> i < 64 \<and> bit d (i mod 8)"
proof -
  have "bit (((\<lambda>tmp. push_bit 8 tmp OR ucast d) ^^ n) (0::qword)) i \<longleftrightarrow>
      i < 64 \<and> i < 8 * n \<and> bit d (i mod 8)" for n i
  proof (induction n arbitrary: i)
    case 0
    then show ?case by simp
  next
    case (Suc n)
    have d: "\<not> bit d m" if "8 \<le> m" for m
      using bit_imp_le_length [of d m] that by auto
    have "i mod 8 = (i - 8) mod 8" if "8 \<le> i"
      using that by (simp add: mod_if)
    then show ?case
      using d [of i] by (cases "i < 8") (auto simp: bit_or_iff bit_push_bit_iff Suc.IH bit_ucast_iff)
  qed
  then show ?thesis
    by (auto simp: memset_pattern_def)
qed

lemma memset_pattern_byte: "n < 8 \<Longrightarrow> ucast (drop_bit (8 * n) (memset_pattern d)) = d"
  by (rule bit_word_eqI) (auto simp: bit_simps bit_memset_pattern)

lemma store_memset_pattern:
  "store_qword m a (memset_pattern d) x = (if in_range x a 8 then d else m x)"
  by (simp add: store_qword_def in_range_def memset_pattern_byte)

lemma memset_words:
  "8 * n < 2 ^ 64 \<Longrightarrow>
   fold (\<lambda>i m. store_qword m (a + of_nat (8 * i)) (memset_pattern d)) [0..<n] m x =
     (if in_range x a (8 * n) then d else m x)"
proof (induction n)
  case 0
  then show ?case by (simp add: in_range_def)
next
  case (Suc n)
  then show ?case
    using in_range_split [of "8 * n" 8 x a]
    by (simp add: store_memset_pattern add.commute)
qed

lemma memset_bytes:
  "k + n < 2 ^ 64 \<Longrightarrow>
   fold (\<lambda>i m. m(a + of_nat (k + i) := d)) [0..<n] m x =
     (if in_range x (a + of_nat k) n then d else m x)"
proof (induction n)
  case 0
  then show ?case by (simp add: in_range_def)
next
  case (Suc n)
  have one: "in_range x b (Suc 0) \<longleftrightarrow> x = b" for b
    by (simp add: in_range_def unat_eq_0)
  show ?case
    using Suc in_range_split [of n 1 x "a + of_nat k"]
    by (auto simp: one add.assoc)
qed

text \<open>\<^verbatim>\<open>lk_memset\<close> writes the byte to exactly the \<open>sz\<close> bytes from the address on.\<close>

lemma lk_memset_apply:
  assumes "0 \<le> sz" "sz < 2 ^ 31"
  shows "lk_memset m a d sz x = (if in_range x a (nat sz) then d else m x)"
proof -
  let ?n = "nat (sz div 8)" and ?r = "nat (sz mod 8)"
  have eq: "8 * ?n + ?r = nat sz"
    using assms by (simp add: nat_div_distrib nat_mod_distrib)
  have "nat sz < 2 ^ 64" using assms by simp
  then have "in_range x a (nat sz) \<longleftrightarrow> in_range x a (8 * ?n) \<or> in_range x (a + of_nat (8 * ?n)) ?r"
    using in_range_split [of "8 * ?n" ?r x a] eq by simp
  moreover have b: "8 * ?n < 2 ^ 64" "8 * ?n + ?r < 2 ^ 64"
    using eq \<open>nat sz < 2 ^ 64\<close> by linarith+
  moreover have "lk_memset m a d sz x = (if in_range x (a + of_nat (8 * ?n)) ?r then d
      else if in_range x a (8 * ?n) then d else m x)"
    using assms(1)
    by (simp only: lk_memset_def Let_def c_div_nonneg c_mod_nonneg zero_less_numeral
        memset_bytes [OF b(2)] memset_words [OF b(1)])
  ultimately show ?thesis by auto
qed

lemma lk_memset_negative: "sz < 0 \<Longrightarrow> lk_memset m a d sz = m"
  by (simp add: lk_memset_def)

section \<open>Copying\<close>

lemma load_qword_byte:
  assumes "j < 8"
  shows "(ucast (drop_bit (8 * j) (load_qword m s)) :: byte) = m (s + of_nat j)"
proof (rule bit_word_eqI)
  fix i assume "i < LENGTH(8)"
  then have i: "i < 8" by simp
  then have "(8 * j + i) div 8 = j" "(8 * j + i) mod 8 = i" "8 * j + i < 64" using assms by auto
  then show "bit (ucast (drop_bit (8 * j) (load_qword m s)) :: byte) i = bit (m (s + of_nat j)) i"
    using i by (simp add: bit_simps load_qword_def bit_load64)
qed

lemma store_load_qword:
  "store_qword m d (load_qword m' s) x = (if in_range x d 8 then m' (s + (x - d)) else m x)"
  using load_qword_byte [of "unat (x - d)" m' s] by (simp add: store_qword_def in_range_def)

text \<open>The areas of \<open>n\<close> bytes from \<open>s\<close> and from \<open>d\<close> on have no byte in common.\<close>

definition apart :: "qword \<Rightarrow> nat \<Rightarrow> qword \<Rightarrow> nat \<Rightarrow> bool" where
  "apart s k d n \<longleftrightarrow> (\<forall>x. in_range x s k \<longrightarrow> \<not> in_range x d n)"

lemma apartD: "apart s k d n \<Longrightarrow> i < k \<Longrightarrow> k < 2 ^ 64 \<Longrightarrow> \<not> in_range (s + of_nat i) d n"
  by (simp add: apart_def in_range_def unat_word_of_nat_small)

lemma in_range_mono: "in_range x a k \<Longrightarrow> k \<le> n \<Longrightarrow> in_range x a n"
  by (simp add: in_range_def)

lemma apart_mono: "apart s k d n \<Longrightarrow> k' \<le> k \<Longrightarrow> n' \<le> n \<Longrightarrow> apart s k' d n'"
  unfolding apart_def by (meson in_range_mono)

lemma in_range_offset:
  assumes "in_range x d n"
  obtains i where "i < n" "x = d + of_nat i"
  using that [of "unat (x - d)"] assms by (simp add: in_range_def)

lemma memcpy_words:
  assumes "apart s N d N" "8 * n \<le> N" "N < 2 ^ 64"
  shows "fold (\<lambda>i m. store_qword m (d + of_nat (8 * i)) (load_qword m (s + of_nat (8 * i)))) [0..<n] m x =
    (if in_range x d (8 * n) then m (s + (x - d)) else m x)"
  using assms(2)
proof (induction n arbitrary: x)
  case (Suc n)
  define M where "M = fold (\<lambda>i m. store_qword m (d + of_nat (8 * i)) (load_qword m (s + of_nat (8 * i)))) [0..<n] m"
  have IH: "M y = (if in_range y d (8 * n) then m (s + (y - d)) else m y)" for y unfolding M_def using Suc by simp
  have split: "in_range x d (8 * Suc n) \<longleftrightarrow> in_range x d (8 * n) \<or> in_range x (d + of_nat (8 * n)) 8"
    using in_range_split [of "8 * n" 8 x d] Suc.prems assms(3) by (simp add: add.commute)
  have src: "M (s + of_nat (8 * n) + (x - (d + of_nat (8 * n)))) = m (s + (x - d))" if r: "in_range x (d + of_nat (8 * n)) 8"
  proof -
    obtain i where i: "i < 8" "x = d + of_nat (8 * n) + of_nat i" using r by (rule in_range_offset)
    then have e: "s + (x - d) = s + of_nat (8 * n + i)" "s + of_nat (8 * n) + (x - (d + of_nat (8 * n))) = s + of_nat (8 * n + i)"
      by simp_all
    have "\<not> in_range (s + of_nat (8 * n + i)) d N" using apartD [OF assms(1) _ assms(3), of "8 * n + i"] i(1) Suc.prems by (simp del: of_nat_add of_nat_mult)
    then have "\<not> in_range (s + of_nat (8 * n + i)) d (8 * n)" using in_range_mono Suc.prems by fastforce
    then show ?thesis unfolding e IH by simp
  qed
  have "fold (\<lambda>i m. store_qword m (d + of_nat (8 * i)) (load_qword m (s + of_nat (8 * i)))) [0..<Suc n] m x =
      store_qword M (d + of_nat (8 * n)) (load_qword M (s + of_nat (8 * n))) x" by (simp add: M_def)
  then show ?case unfolding store_load_qword split using src IH [of x] by auto
qed (simp add: in_range_def)

lemma memcpy_bytes:
  assumes "apart s N d N" "k + n \<le> N" "N < 2 ^ 64"
  shows "fold (\<lambda>i m. m(d + of_nat (k + i) := m (s + of_nat (k + i)))) [0..<n] m x =
    (if in_range x (d + of_nat k) n then m (s + (x - d)) else m x)"
  using assms(2)
proof (induction n arbitrary: x)
  case (Suc n)
  have one: "in_range x b (Suc 0) \<longleftrightarrow> x = b" for b by (simp add: in_range_def unat_eq_0)
  have split: "in_range x (d + of_nat k) (Suc n) \<longleftrightarrow> in_range x (d + of_nat k) n \<or> x = d + of_nat (k + n)"
    using in_range_split [of n 1 x "d + of_nat k"] Suc.prems assms(3) by (simp add: one add.assoc)
  have "\<not> in_range (s + of_nat (k + n)) d N" using apartD [OF assms(1) _ assms(3), of "k + n"] Suc.prems by (simp del: of_nat_add)
  moreover have "in_range (s + of_nat (k + n)) d N" if "in_range (s + of_nat (k + n)) (d + of_nat k) n"
    using that Suc.prems assms(3) in_range_split [of k n _ d] in_range_mono [of _ d "k + n" N] by (simp del: of_nat_add)
  ultimately show ?case using Suc by (simp add: split) (auto simp: algebra_simps)
qed (simp add: in_range_def)

text \<open>\<^verbatim>\<open>lk_memcpy\<close> copies the \<open>sz\<close> bytes when the two areas do not overlap.\<close>

lemma lk_memcpy_apply:
  assumes "0 \<le> sz" "sz < 2 ^ 31" "apart s (nat sz) d (nat sz)"
  shows "fst (lk_memcpy m d s sz) = sz"
    and "snd (lk_memcpy m d s sz) x = (if in_range x d (nat sz) then m (s + (x - d)) else m x)"
proof -
  let ?n = "nat (sz div 8)" and ?r = "nat (sz mod 8)"
  show "fst (lk_memcpy m d s sz) = sz" by (simp add: lk_memcpy_def Let_def)
  have eq: "8 * ?n + ?r = nat sz" using assms(1) by (simp add: nat_div_distrib nat_mod_distrib)
  have N: "nat sz < 2 ^ 64" "8 * ?n \<le> nat sz" "8 * ?n + ?r \<le> nat sz" using assms(2) eq by simp_all
  have split: "in_range y d (nat sz) \<longleftrightarrow> in_range y d (8 * ?n) \<or> in_range y (d + of_nat (8 * ?n)) ?r" for y
    using in_range_split [of "8 * ?n" ?r y d] eq N(1) by simp
  define m1 where "m1 = fold (\<lambda>i m. store_qword m (d + of_nat (8 * i)) (load_qword m (s + of_nat (8 * i)))) [0..<?n] m"
  have m1: "m1 y = (if in_range y d (8 * ?n) then m (s + (y - d)) else m y)" for y
    unfolding m1_def by (rule memcpy_words [OF assms(3) N(2,1)])
  have tail: "m1 (s + (x - d)) = m (s + (x - d))" if r: "in_range x d (nat sz)"
  proof -
    obtain i where i: "i < nat sz" "x = d + of_nat i" using r by (rule in_range_offset)
    then have "\<not> in_range (s + of_nat i) d (nat sz)" using apartD [OF assms(3) _ N(1)] by simp
    then have "\<not> in_range (s + of_nat i) d (8 * ?n)" using in_range_mono N(2) by blast
    then show ?thesis using i(2) by (simp add: m1)
  qed
  have "snd (lk_memcpy m d s sz) x = fold (\<lambda>i m. m(d + of_nat (8 * ?n + i) := m (s + of_nat (8 * ?n + i)))) [0..<?r] m1 x"
    using assms(1) by (simp only: lk_memcpy_def Let_def m1_def c_div_nonneg c_mod_nonneg zero_less_numeral snd_conv)
  then show "snd (lk_memcpy m d s sz) x = (if in_range x d (nat sz) then m (s + (x - d)) else m x)"
    unfolding memcpy_bytes [OF assms(3) N(3,1)] using tail split by (auto simp: m1)
qed

end
