(* ===== verification/Stat.thy ===== *)
theory Stat
  imports Spinlock
begin

text \<open>
  The statistics area of \<^verbatim>\<open>kernel/stat.h\<close> and \<^verbatim>\<open>kernel/stat.c\<close>: a block of shared memory in which
  a unikernel publishes its memory use, its cores and their load. Every writer takes
  \<^verbatim>\<open>stat_lock\<close>; the result \<^const>\<open>None\<close> is a caller that spins on a lock nobody releases.
\<close>

record Unikernel =
  used :: int
  uk_name :: string
  total_core_num :: nat
  core :: "int carray"
  mem_size :: int
  mem_start :: qword
  mem_used :: qword
  start_time :: qword

record STAT_AREA =
  core_used :: "int carray"
  core_load :: "int carray"
  memory_used :: "int carray"
  unikernel_cnt :: int
  ukernel :: "Unikernel carray"

record stat_state =
  g_ukid :: nat
  g_stat_area :: STAT_AREA
  stat_lock :: spinlock_t

text \<open>The update each writer makes to the entry of its own unikernel.\<close>

definition upd_ukernel :: "(Unikernel \<Rightarrow> Unikernel) \<Rightarrow> stat_state \<Rightarrow> stat_state" where
  "upd_ukernel f s =
     s\<lparr>g_stat_area := (g_stat_area s)\<lparr>ukernel := (ukernel (g_stat_area s))
        (g_ukid s := f (ukernel (g_stat_area s) (g_ukid s)))\<rparr>\<rparr>"

definition set_mem_info :: "stat_state \<Rightarrow> qword \<Rightarrow> stat_state option" where
  "set_mem_info s sz =
     (case spinlock_lock (stat_lock s) of
        None \<Rightarrow> None
      | Some l \<Rightarrow> Some ((upd_ukernel (\<lambda>u. u\<lparr>mem_used := sz\<rparr>) s)\<lparr>stat_lock := spinlock_unlock l\<rparr>))"

definition set_cpu_num :: "stat_state \<Rightarrow> int \<Rightarrow> stat_state option" where
  "set_cpu_num s core_num =
     (case spinlock_lock (stat_lock s) of
        None \<Rightarrow> None
      | Some l \<Rightarrow> Some ((upd_ukernel (\<lambda>u. u\<lparr>core := (core u)(total_core_num u := core_num),
                                          total_core_num := Suc (total_core_num u)\<rparr>) s)
                     \<lparr>stat_lock := spinlock_unlock l\<rparr>))"

text \<open>The load arrives as a \<^verbatim>\<open>QWORD\<close> and is stored into an \<^verbatim>\<open>int\<close>.\<close>

definition set_cpu_load :: "stat_state \<Rightarrow> nat \<Rightarrow> qword \<Rightarrow> stat_state option" where
  "set_cpu_load s pid load =
     (case spinlock_lock (stat_lock s) of
        None \<Rightarrow> None
      | Some l \<Rightarrow> Some (s\<lparr>g_stat_area := (g_stat_area s)\<lparr>core_load :=
                          (core_load (g_stat_area s))(pid := int_of_qword load)\<rparr>,
                       stat_lock := spinlock_unlock l\<rparr>))"

definition stat_ok :: "stat_state \<Rightarrow> bool" where
  "stat_ok s \<longleftrightarrow> lock (stat_lock s) = 0"

definition published_mem :: "stat_state \<Rightarrow> qword" where
  "published_mem s = mem_used (ukernel (g_stat_area s) (g_ukid s))"

lemma set_mem_info_ok:
  assumes "stat_ok s"
  obtains s' where "set_mem_info s n = Some s'" "stat_ok s'" "published_mem s' = n"
    "g_ukid s' = g_ukid s"
  using assms
  by (simp add: set_mem_info_def stat_ok_def spinlock_lock_eq published_mem_def upd_ukernel_def)

end
