(* ===== verification/Buddy.thy ===== *)
theory Buddy
  imports Spinlock Utility Stat
begin

text \<open>
  The buddy allocator of \<^verbatim>\<open>kernel/memory.c\<close>: its metadata (\<^verbatim>\<open>MM\<close>, \<^verbatim>\<open>BITMAP\<close> of \<^verbatim>\<open>kernel/memory.h\<close>),
  the search, split and merge loops, and \<^verbatim>\<open>az_alloc\<close>/\<^verbatim>\<open>az_free\<close> on top of them.

  A block is a pair of a level \<open>l\<close> and an offset \<open>k\<close>: the \<open>2 ^ l\<close> pages from page
  \<open>k * 2 ^ l\<close> of the pool on. The bitmap of a level has a set bit for every free block; the byte
  array \<^verbatim>\<open>block_index\<close> holds the level of an allocated block at its first page and 0xFF
  elsewhere. A search that returns -1 in C returns \<^const>\<open>None\<close> here.
\<close>

section \<open>Metadata\<close>

definition MM_TRUE :: byte where "MM_TRUE = 1"
definition MM_FALSE :: byte where "MM_FALSE = 0"
definition PAGE_MIN_SIZE :: nat where "PAGE_MIN_SIZE = 4 * 1024"

record BITMAP =
  bitmap_bytes :: "byte carray"
  bitmap_count :: qword

record MM =
  max_level :: nat
  smallest_block :: nat
  used_size :: qword
  start_addr :: qword
  end_addr :: qword
  block_index :: "byte carray"
  bitmap :: "BITMAP carray"
  mm_spl :: spinlock_t

text \<open>
  \<^verbatim>\<open>PAGE_MIN_SIZE << i\<close> is an \<^verbatim>\<open>int\<close> shift whose result is then widened to 64 bits: from
  \<open>i = 19\<close> on the value is negative or zero.
\<close>

definition page_shl :: "nat \<Rightarrow> qword" where
  "page_shl i = scast (push_bit i (word_of_nat PAGE_MIN_SIZE :: 32 word))"

section \<open>Bitmap flags\<close>

definition set_bitmap_flag :: "MM \<Rightarrow> nat \<Rightarrow> nat \<Rightarrow> byte \<Rightarrow> MM" where
  "set_bitmap_flag m bl off flag =
     (let b = bitmap m bl;
          p = bitmap_bytes b;
          old = p (off div 8);
          mask = push_bit (off mod 8) 1
      in if flag = MM_TRUE then
           let b1 = (if old AND mask = 0 then b\<lparr>bitmap_count := bitmap_count b + 1\<rparr> else b)
           in m\<lparr>bitmap := (bitmap m)(bl := b1\<lparr>bitmap_bytes := p(off div 8 := old OR mask)\<rparr>)\<rparr>
         else
           let b1 = (if old AND mask \<noteq> 0 then b\<lparr>bitmap_count := bitmap_count b - 1\<rparr> else b)
           in m\<lparr>bitmap := (bitmap m)(bl := b1\<lparr>bitmap_bytes := p(off div 8 := old AND NOT mask)\<rparr>)\<rparr>)"

definition get_bitmap_flag :: "MM \<Rightarrow> nat \<Rightarrow> nat \<Rightarrow> byte" where
  "get_bitmap_flag m bl off =
     (if bitmap_bytes (bitmap m bl) (off div 8) AND push_bit (off mod 8) 1 \<noteq> 0
      then MM_TRUE else MM_FALSE)"

section \<open>Searching\<close>

definition align_buddy_block :: "MM \<Rightarrow> qword \<Rightarrow> qword" where
  "align_buddy_block m sz =
     (case find (\<lambda>i. sz \<le> page_shl i) [0..<max_level m] of None \<Rightarrow> 0 | Some i \<Rightarrow> page_shl i)"

definition block_list_index :: "MM \<Rightarrow> qword \<Rightarrow> nat option" where
  "block_list_index m aligned_size = find (\<lambda>i. aligned_size \<le> page_shl i) [0..<max_level m]"

text \<open>
  The scan of one bitmap: 64 bits at a time while at least 64 are left and all of them are
  zero, one bit at a time otherwise.
\<close>

function find_free_scan :: "byte carray \<Rightarrow> nat \<Rightarrow> nat \<Rightarrow> nat option" where
  "find_free_scan p max_count i =
     (if i < max_count then
        if 0 < (max_count - i) div 64 \<and> load64 p (i div 8) = 0
        then find_free_scan p max_count (i + 64)
        else if p (i div 8) AND push_bit (i mod 8) 1 \<noteq> 0 then Some i
        else find_free_scan p max_count (Suc i)
      else None)"
  by pat_completeness auto
termination
  by (relation "measure (\<lambda>(p, max_count, i). max_count - i)") auto

definition find_free_block :: "MM \<Rightarrow> nat \<Rightarrow> nat option" where
  "find_free_block m bl =
     (if bitmap_count (bitmap m bl) = 0 then None
      else find_free_scan (bitmap_bytes (bitmap m bl)) (drop_bit bl (smallest_block m)) 0)"

section \<open>Splitting and merging\<close>

text \<open>
  The loop \<^verbatim>\<open>for (i = i - 1; i >= bl_index; i--)\<close>; the second argument is the level above the
  one the next iteration works on.
\<close>

fun split_blocks :: "MM \<Rightarrow> nat \<Rightarrow> nat \<Rightarrow> nat \<Rightarrow> MM \<times> nat" where
  "split_blocks m 0 bl free_offset = (m, free_offset)"
| "split_blocks m (Suc i) bl free_offset =
     (if bl \<le> i then
        split_blocks (set_bitmap_flag (set_bitmap_flag m i (free_offset * 2) MM_FALSE)
                        i (free_offset * 2 + 1) MM_TRUE) i bl (free_offset * 2)
      else (m, free_offset))"

definition alloc_buddy_block :: "MM \<Rightarrow> qword \<Rightarrow> nat option \<times> MM" where
  "alloc_buddy_block m aligned_size =
     (case block_list_index m aligned_size of
        None \<Rightarrow> (None, m)
      | Some bl \<Rightarrow>
          (case find (\<lambda>i. find_free_block m i \<noteq> None) [bl..<max_level m] of
             None \<Rightarrow> (None, m)
           | Some i \<Rightarrow>
               (case find_free_block m i of
                  None \<Rightarrow> (None, m)
                | Some fo \<Rightarrow>
                    (let m1 = set_bitmap_flag m i fo MM_FALSE;
                         (m2, off) = (if bl < i then split_blocks m1 i bl fo else (m1, fo))
                     in (Some off, m2)))))"

function free_buddy_block :: "MM \<Rightarrow> nat \<Rightarrow> nat \<Rightarrow> bool \<times> MM" where
  "free_buddy_block m i off =
     (if i < max_level m then
        let m1 = set_bitmap_flag m i off MM_TRUE;
            buddy = (if off mod 2 = 0 then off + 1 else off - 1)
        in if get_bitmap_flag m1 i buddy = MM_FALSE then (True, m1)
           else free_buddy_block (set_bitmap_flag (set_bitmap_flag m1 i buddy MM_FALSE) i off MM_FALSE)
                  (Suc i) (off div 2)
      else (True, m))"
  by pat_completeness auto

lemma set_bitmap_flag_frame [simp, frame_simps]:
  "max_level (set_bitmap_flag m i k f) = max_level m"
  "smallest_block (set_bitmap_flag m i k f) = smallest_block m"
  "used_size (set_bitmap_flag m i k f) = used_size m"
  "start_addr (set_bitmap_flag m i k f) = start_addr m"
  "end_addr (set_bitmap_flag m i k f) = end_addr m"
  "block_index (set_bitmap_flag m i k f) = block_index m"
  "mm_spl (set_bitmap_flag m i k f) = mm_spl m"
  by (simp_all add: set_bitmap_flag_def Let_def)

termination free_buddy_block
  by (relation "measure (\<lambda>(m, i, off). max_level m - i)") (auto simp: Let_def)

section \<open>Allocation and release\<close>

text \<open>The statics of \<^verbatim>\<open>kernel/memory.c\<close>, the memory the pool lies in and the statistics area.\<close>

record mem_state =
  g_free_memory :: MM
  g_alloc_count :: qword
  g_free_count :: qword
  heap_end :: qword
  heap_lock :: spinlock_t
  mem :: memory
  stat :: stat_state

definition mm_unlock :: "MM \<Rightarrow> MM" where
  "mm_unlock m = m\<lparr>mm_spl := spinlock_unlock (mm_spl m)\<rparr>"

text \<open>
  \<^const>\<open>None\<close> is a call that does not return: it spins on a held lock, or it accesses
  \<^verbatim>\<open>block_index\<close> at a negative index. The console line both functions print is not modelled.
\<close>

definition az_alloc :: "mem_state \<Rightarrow> qword \<Rightarrow> (qword \<times> mem_state) option" where
  "az_alloc s sz =
     (case spinlock_lock (mm_spl (g_free_memory s)) of
        None \<Rightarrow> None
      | Some l \<Rightarrow>
         (let m = (g_free_memory s)\<lparr>mm_spl := l\<rparr>;
              aligned_size = align_buddy_block m sz
          in if aligned_size = 0 then Some (0, s\<lparr>g_free_memory := mm_unlock m\<rparr>)
             else if end_addr m < start_addr m + used_size m + aligned_size
             then Some (0, s\<lparr>g_free_memory := mm_unlock m\<rparr>)
             else
               (case alloc_buddy_block m aligned_size of
                  (None, m1) \<Rightarrow> Some (0, s\<lparr>g_free_memory := mm_unlock m1\<rparr>)
                | (Some bl_offset, m1) \<Rightarrow>
                   (let bl_index = (case block_list_index m1 aligned_size of
                                      None \<Rightarrow> 0xFF | Some i \<Rightarrow> word_of_nat i);
                        rel_address = aligned_size * word_of_nat bl_offset;
                        array_offset = int_of_qword (rel_address div word_of_nat PAGE_MIN_SIZE);
                        ret_addr = rel_address + start_addr m1
                    in if array_offset < 0 then None
                       else
                         (let m2 = m1\<lparr>block_index := (block_index m1)(nat array_offset := bl_index),
                                      used_size := used_size m1 + aligned_size\<rparr>
                          in case set_mem_info (stat s) (used_size m2) of
                               None \<Rightarrow> None
                             | Some st \<Rightarrow>
                                 Some (ret_addr,
                                   s\<lparr>mem := lk_memset (mem s) ret_addr 0 (int_of_qword aligned_size),
                                     g_alloc_count := g_alloc_count s + 1,
                                     stat := st,
                                     g_free_memory := mm_unlock m2\<rparr>))))))"

definition az_free :: "mem_state \<Rightarrow> qword \<Rightarrow> (bool \<times> mem_state) option" where
  "az_free s address =
     (case spinlock_lock (mm_spl (g_free_memory s)) of
        None \<Rightarrow> None
      | Some l \<Rightarrow>
         (let m = (g_free_memory s)\<lparr>mm_spl := l\<rparr>;
              rel_address = address - start_addr m;
              array_offset = int_of_qword (rel_address div word_of_nat PAGE_MIN_SIZE)
          in if address = 0 then Some (False, s\<lparr>g_free_memory := mm_unlock m\<rparr>)
             else if array_offset < 0 then None
             else if block_index m (nat array_offset) = 0xFF
             then Some (False, s\<lparr>g_free_memory := mm_unlock m\<rparr>)
             else
               (let bl = unat (block_index m (nat array_offset));
                    m1 = m\<lparr>block_index := (block_index m)(nat array_offset := 0xFF)\<rparr>;
                    block_size = page_shl bl
                in if block_size = 0 then Some (False, s\<lparr>g_free_memory := m1\<rparr>)
                   else
                     (let bitmap_offset = int_of_qword (rel_address div block_size)
                      in if bitmap_offset < 0 then None
                         else
                           (case free_buddy_block m1 bl (nat bitmap_offset) of
                              (True, m2) \<Rightarrow>
                                (let m3 = m2\<lparr>used_size := used_size m2 - block_size\<rparr>
                                 in case set_mem_info (stat s) (used_size m3) of
                                      None \<Rightarrow> None
                                    | Some st \<Rightarrow>
                                        Some (True, s\<lparr>g_free_count := g_free_count s + 1,
                                                      stat := st,
                                                      g_free_memory := mm_unlock m3\<rparr>))
                            | (False, m2) \<Rightarrow> Some (False, s\<lparr>g_free_memory := mm_unlock m2\<rparr>))))))"

section \<open>Initialisation\<close>

definition CONFIG_KERNEL_SIZE :: qword where "CONFIG_KERNEL_SIZE = 0x40000000"
definition PAGE_OFFSET :: qword where "PAGE_OFFSET = 0xFFFF8000C0000000"
definition HEAP_START :: qword where "HEAP_START = 0x40000000"
definition HEAP_SIZE :: qword where "HEAP_SIZE = 0x280000000"

definition va :: "qword \<Rightarrow> qword \<Rightarrow> qword" where
  "va g_memory_start p = p + PAGE_OFFSET - g_memory_start"

text \<open>\<^verbatim>\<open>for (i = 0; (n >> i) > 0; i++);\<close>\<close>

function count_levels :: "nat \<Rightarrow> nat \<Rightarrow> nat" where
  "count_levels n i = (if 0 < drop_bit i n then count_levels n (Suc i) else i)"
  by pat_completeness auto
termination
proof (relation "measure (\<lambda>(n, i). drop_bit i n)")
  fix n i :: nat
  assume "0 < drop_bit i n"
  then show "((n, Suc i), n, i) \<in> measure (\<lambda>(n, i). drop_bit i n)"
    by (simp add: drop_bit_Suc drop_bit_half) 
qed simp

text \<open>The 32-bit accumulator of \<^verbatim>\<open>bitmap_size\<close>; \<^verbatim>\<open>sizeof (BITMAP)\<close> is 16.\<close>

function bitmap_size_loop :: "nat \<Rightarrow> nat \<Rightarrow> dword \<Rightarrow> dword" where
  "bitmap_size_loop n i acc =
     (if 0 < drop_bit i n
      then bitmap_size_loop n (Suc i) (acc + 16 + word_of_nat ((drop_bit i n + 7) div 8))
      else acc)"
  by pat_completeness auto
termination
proof (relation "measure (\<lambda>(n, i, acc). drop_bit i n)")
  fix n i :: nat and acc :: dword
  assume "0 < drop_bit i n"
  then show "((n, Suc i, acc + 16 + word_of_nat ((drop_bit i n + 7) div 8)), n, i, acc)
      \<in> measure (\<lambda>(n, i, acc). drop_bit i n)"
    by (simp add: drop_bit_Suc drop_bit_half)
qed simp

definition bitmap_size :: "qword \<Rightarrow> dword" where
  "bitmap_size free_mem_size =
     (let n = unat (free_mem_size div word_of_nat PAGE_MIN_SIZE)
      in (word_of_nat n + bitmap_size_loop n 0 0 + word_of_nat PAGE_MIN_SIZE - 1)
           div word_of_nat PAGE_MIN_SIZE)"

text \<open>One level's bitmap: zero, except that an odd last block is free (it has no buddy).\<close>

definition init_bitmap :: "BITMAP \<Rightarrow> nat \<Rightarrow> BITMAP" where
  "init_bitmap b block_count =
     b\<lparr>bitmap_bytes :=
         (\<lambda>i. if i < block_count div 8 then 0
              else if i = block_count div 8 \<and> block_count mod 8 \<noteq> 0
              then (if block_count mod 8 mod 2 = 1 then push_bit (block_count mod 8 - 1) 1 else 0)
              else bitmap_bytes b i),
       bitmap_count :=
         (if block_count mod 8 \<noteq> 0 \<and> block_count mod 8 mod 2 = 1 then 1 else 0)\<rparr>"

text \<open>The set-up of a pool between two addresses.\<close>

definition init_pool :: "qword \<Rightarrow> qword \<Rightarrow> MM \<Rightarrow> MM" where
  "init_pool free_mem_start free_mem_end m =
     (let free_mem_size = free_mem_end - free_mem_start;
          bitmap_pages = (bitmap_size free_mem_size + (512 - 1)) AND NOT (512 - 1);
          blocks = nat (int_of_qword (free_mem_size div word_of_nat PAGE_MIN_SIZE - scast bitmap_pages));
          levels = count_levels blocks 0
      in m\<lparr>smallest_block := blocks,
           max_level := levels,
           block_index := (\<lambda>p. if p < blocks then 0xFF else block_index m p),
           bitmap := (\<lambda>j. if j < levels then init_bitmap (bitmap m j) (drop_bit j blocks)
                          else bitmap m j),
           start_addr := free_mem_start + scast (bitmap_pages * word_of_nat PAGE_MIN_SIZE),
           end_addr := free_mem_end,
           used_size := 0,
           mm_spl := spinlock_init (mm_spl m)\<rparr>)"

definition free_mem_init :: "qword \<Rightarrow> qword \<Rightarrow> mem_state \<Rightarrow> mem_state" where
  "free_mem_init g_memory_start g_memory_end s =
     (let free_mem_start = va g_memory_start (g_memory_start + CONFIG_KERNEL_SIZE);
          free_mem_end = va g_memory_start g_memory_end
      in s\<lparr>g_free_memory := init_pool free_mem_start free_mem_end (g_free_memory s),
           heap_end := HEAP_START,
           heap_lock := spinlock_init (heap_lock s)\<rparr>)"

section \<open>The program break\<close>

text \<open>
  The heap moves only inside the window from \<^verbatim>\<open>HEAP_START\<close> to \<^verbatim>\<open>HEAP_START + HEAP_SIZE\<close>; the test
  is made on the old break, not on the new one.
\<close>

definition sys_sbrk :: "mem_state \<Rightarrow> qword \<Rightarrow> (qword \<times> mem_state) option" where
  "sys_sbrk s incr =
     (case spinlock_lock (heap_lock s) of
        None \<Rightarrow> None
      | Some l \<Rightarrow>
         (let h = heap_end s;
              (ret, h') = (if HEAP_START \<le> h \<and> h < HEAP_START + HEAP_SIZE then (h, h + incr)
                           else (word_of_int (- ENOMEM), h))
          in Some (ret, s\<lparr>heap_end := h', heap_lock := spinlock_unlock l\<rparr>)))"

definition sys_brk :: "mem_state \<Rightarrow> qword \<Rightarrow> (qword \<times> mem_state) option" where
  "sys_brk s val =
     (case spinlock_lock (heap_lock s) of
        None \<Rightarrow> None
      | Some l \<Rightarrow>
         (let h = heap_end s;
              (ret, h') = (if HEAP_START \<le> h \<and> h < HEAP_START + HEAP_SIZE then (0, val)
                           else (- 1, h))
          in Some (ret, s\<lparr>heap_end := h', heap_lock := spinlock_unlock l\<rparr>)))"

declare find_free_scan.simps [simp del] free_buddy_block.simps [simp del]
  count_levels.simps [simp del] bitmap_size_loop.simps [simp del]

end
