(* ===== verification/BuddySpec.thy ===== *)
theory BuddySpec
  imports Prelude
begin

text \<open>
  What a buddy system is, apart from any representation: blocks of \<open>2 ^ l\<close> pages at offsets that
  are multiples of \<open>2 ^ l\<close>, sets of blocks that tile a pool, splitting and merging, and the
  canonical form: in a pool whose free blocks are fully merged, the free blocks are determined
  by the allocated pages.
\<close>

type_synonym block = "nat \<times> nat"

definition pages :: "block \<Rightarrow> nat set" where
  "pages b = block_pages (fst b) (snd b)"

definition buddy_of :: "nat \<Rightarrow> nat" where
  "buddy_of k = (if k mod 2 = 0 then k + 1 else k - 1)"

text \<open>Every page of \<open>S\<close> lies in exactly one block of \<open>B\<close>, and the blocks stay inside \<open>S\<close>.\<close>

definition tiles :: "nat set \<Rightarrow> block set \<Rightarrow> bool" where
  "tiles S B \<longleftrightarrow> (\<forall>b\<in>B. pages b \<subseteq> S) \<and> (\<forall>p\<in>S. \<exists>!b. b \<in> B \<and> p \<in> pages b)"

definition coalesced :: "block set \<Rightarrow> bool" where
  "coalesced F \<longleftrightarrow> (\<forall>l k. (l, k) \<in> F \<longrightarrow> (l, buddy_of k) \<notin> F)"

lemma mem_pages_iff: "p \<in> pages (l, k) \<longleftrightarrow> p div 2 ^ l = k"
  by (simp add: pages_def div_pow_eq_iff)

lemma first_page [simp]: "k * 2 ^ l \<in> pages (l, k)"
  by (simp add: mem_pages_iff)

lemma pages_nonempty: "pages b \<noteq> {}"
  using first_page [of "snd b" "fst b"] by (metis empty_iff prod.collapse)

lemma finite_pages [simp]: "finite (pages b)"
  by (simp add: pages_def)

lemma card_pages [simp]: "card (pages (l, k)) = 2 ^ l"
  by (simp add: pages_def)

lemma pages_subset_iff: "pages (l, k) \<subseteq> {..<N} \<longleftrightarrow> k < N div 2 ^ l" for N :: nat
proof -
  have "pages (l, k) \<subseteq> {..<N} \<longleftrightarrow> (k + 1) * 2 ^ l \<le> N"
  proof
    assume "pages (l, k) \<subseteq> {..<N}"
    moreover have "(2 ^ l - 1 + k * 2 ^ l) div 2 ^ l = k"
      by (subst div_mult_self1) simp_all
    then have "k * 2 ^ l + (2 ^ l - 1) \<in> pages (l, k)"
      by (simp only: mem_pages_iff add.commute)
    ultimately have "k * 2 ^ l + (2 ^ l - 1) < N" by blast
    then show "(k + 1) * 2 ^ l \<le> N" by (simp add: algebra_simps)
  qed (auto simp: pages_def block_pages_def)
  also have "\<dots> \<longleftrightarrow> k < N div 2 ^ l"
    using less_eq_div_iff_mult_less_eq [of "2 ^ l" "k + 1" N] by auto
  finally show ?thesis .
qed

lemma div_pow_le: "l \<le> l' \<Longrightarrow> p div 2 ^ l' = (p div 2 ^ l) div 2 ^ (l' - l)" for p :: nat
  by (metis div_mult2_eq le_add_diff_inverse power_add)

text \<open>Two blocks are disjoint or one contains the other.\<close>

lemma pages_nested:
  assumes "l \<le> l'" "p \<in> pages (l, k)" "p \<in> pages (l', k')"
  shows "pages (l, k) \<subseteq> pages (l', k')"
  using assms by (auto simp: mem_pages_iff div_pow_le [of l l'])

lemma pages_parent: "pages (l, k) \<subseteq> pages (Suc l, k div 2)"
  by (auto simp: mem_pages_iff div_pow_Suc simp del: power_Suc)

lemma buddy_of_div [simp]: "buddy_of k div 2 = k div 2"
  unfolding buddy_of_def by presburger

lemma buddy_of_neq [simp]: "buddy_of k \<noteq> k" "k \<noteq> buddy_of k"
  unfolding buddy_of_def by presburger+

lemma buddy_of_buddy [simp]: "buddy_of (buddy_of k) = k"
  unfolding buddy_of_def by presburger

lemma half_eq_iff: "j div 2 = k div 2 \<longleftrightarrow> j = k \<or> j = buddy_of k"
  unfolding buddy_of_def by presburger

lemma pages_split: "pages (Suc l, k div 2) = pages (l, k) \<union> pages (l, buddy_of k)"
  by (auto simp: mem_pages_iff div_pow_Suc half_eq_iff simp del: power_Suc)

lemma pages_buddy_disjoint: "pages (l, k) \<inter> pages (l, buddy_of k) = {}"
  by (auto simp: mem_pages_iff)

lemma pages_inj: "pages (l, k) = pages (l, k') \<longleftrightarrow> k = k'"
proof
  assume "pages (l, k) = pages (l, k')"
  then have "k * 2 ^ l \<in> pages (l, k')" using first_page by blast
  then show "k = k'" by (simp add: mem_pages_iff)
qed simp

lemma coalesced_insert:
  assumes "coalesced F" "(l, buddy_of k) \<notin> F"
  shows "coalesced (insert (l, k) F)"
  unfolding coalesced_def
proof (intro allI impI notI)
  fix l' k'
  assume h: "(l', k') \<in> insert (l, k) F" "(l', buddy_of k') \<in> insert (l, k) F"
  consider "l' = l" "k' = k" | "(l', k') \<in> F" "l' = l" "buddy_of k' = k"
    | "(l', k') \<in> F" "(l', buddy_of k') \<in> F"
    using h by auto
  then show False
  proof cases
    case 2
    then have "k' = buddy_of k" by (metis buddy_of_buddy)
    with 2 assms(2) show False by simp
  qed (use h assms in \<open>auto simp: coalesced_def\<close>)
qed

section \<open>Tilings\<close>

lemma tilesD_subset: "tiles S B \<Longrightarrow> b \<in> B \<Longrightarrow> pages b \<subseteq> S"
  by (auto simp: tiles_def)

lemma tilesD_unique:
  "tiles S B \<Longrightarrow> b \<in> B \<Longrightarrow> b' \<in> B \<Longrightarrow> p \<in> pages b \<Longrightarrow> p \<in> pages b' \<Longrightarrow> b = b'"
  unfolding tiles_def by blast

lemma tilesD_disjoint: "tiles S B \<Longrightarrow> b \<in> B \<Longrightarrow> b' \<in> B \<Longrightarrow> b \<noteq> b' \<Longrightarrow> pages b \<inter> pages b' = {}"
  using tilesD_unique by blast

lemma tiles_first_page_inj:
  assumes "tiles S B" "(l, k) \<in> B" "(l', k') \<in> B" "k * 2 ^ l = k' * 2 ^ l'"
  shows "(l, k) = (l', k')"
proof -
  have "k * 2 ^ l \<in> pages (l', k')" unfolding assms(4) by simp
  then show ?thesis using tilesD_unique [OF assms(1-3) first_page] by simp
qed

lemma tilesD_cover: "tiles S B \<Longrightarrow> p \<in> S \<Longrightarrow> \<exists>b\<in>B. p \<in> pages b"
  unfolding tiles_def by blast

lemma tiles_Union: "tiles S B \<Longrightarrow> (\<Union>b\<in>B. pages b) = S"
  unfolding tiles_def by blast

text \<open>A block is replaced by blocks that tile its pages, and the other way round.\<close>

lemma tiles_replace:
  assumes t: "tiles S (insert b B)" and "b \<notin> B" and c: "tiles (pages b) C"
  shows "tiles S (B \<union> C)"
proof -
  have disj: "pages b \<inter> pages b' = {}" if "b' \<in> B" for b'
    using tilesD_disjoint [OF t, of b b'] that \<open>b \<notin> B\<close> by blast
  show ?thesis
    unfolding tiles_def
  proof (intro conjI ballI)
    fix x assume "x \<in> B \<union> C"
    then show "pages x \<subseteq> S"
      using tilesD_subset [OF t] tilesD_subset [OF c] by blast
  next
    fix p assume "p \<in> S"
    then obtain b' where b': "b' \<in> insert b B" "p \<in> pages b'"
      using tilesD_cover [OF t] by blast
    show "\<exists>!x. x \<in> B \<union> C \<and> p \<in> pages x"
    proof (cases "b' = b")
      case True
      then obtain x where "x \<in> C" "p \<in> pages x"
        using tilesD_cover [OF c] b' by blast
      moreover have "y \<in> C" if "y \<in> B \<union> C" "p \<in> pages y" for y
        using that disj b' True by blast
      ultimately show ?thesis using tilesD_unique [OF c] by blast
    next
      case False
      have "y \<in> B" if "y \<in> B \<union> C" "p \<in> pages y" for y
        using that tilesD_subset [OF c, of y] disj [of b'] b' False by blast
      then show ?thesis using tilesD_unique [OF t] b' False by blast
    qed
  qed
qed

lemma tiles_halves: "tiles (pages (Suc l, k div 2)) {(l, k), (l, buddy_of k)}"
  unfolding tiles_def pages_split using pages_buddy_disjoint [of l k] by blast

lemma tiles_split:
  assumes "tiles S (insert (Suc l, k div 2) B)" "(Suc l, k div 2) \<notin> B"
  shows "tiles S (insert (l, k) (insert (l, buddy_of k) B))"
  using tiles_replace [OF assms tiles_halves] by (simp add: Un_commute insert_commute)

lemma tiles_merge:
  assumes t: "tiles S (insert (l, k) (insert (l, buddy_of k) B))"
    and n: "(l, k) \<notin> B" "(l, buddy_of k) \<notin> B"
  shows "tiles S (insert (Suc l, k div 2) B)" "(Suc l, k div 2) \<notin> B"
proof -
  have d: "pages x \<inter> pages (Suc l, k div 2) = {}" if "x \<in> B" for x
    using tilesD_disjoint [OF t, of x "(l, k)"] tilesD_disjoint [OF t, of x "(l, buddy_of k)"] that n
    by (auto simp: pages_split)
  then show "(Suc l, k div 2) \<notin> B"
    using pages_nonempty [of "(Suc l, k div 2)"] by blast
  show "tiles S (insert (Suc l, k div 2) B)"
    unfolding tiles_def
  proof (intro conjI ballI)
    fix x assume "x \<in> insert (Suc l, k div 2) B"
    then show "pages x \<subseteq> S"
      using tilesD_subset [OF t, of "(l, k)"] tilesD_subset [OF t, of "(l, buddy_of k)"]
        tilesD_subset [OF t, of x] by (auto simp: pages_split)
  next
    fix p assume p: "p \<in> S"
    show "\<exists>!x. x \<in> insert (Suc l, k div 2) B \<and> p \<in> pages x"
    proof (cases "p \<in> pages (Suc l, k div 2)")
      case True
      then show ?thesis using d by blast
    next
      case False
      then obtain x where "x \<in> B" "p \<in> pages x"
        using tilesD_cover [OF t p] by (auto simp: pages_split)
      then show ?thesis using False tilesD_unique [OF t] by blast
    qed
  qed
qed

lemma tiles_restrict:
  assumes "tiles S (F \<union> A)" "F \<inter> A = {}"
  shows "tiles (S - (\<Union>b\<in>A. pages b)) F"
proof -
  have "pages b \<inter> pages a = {}" if "b \<in> F" "a \<in> A" for a b
    using tilesD_disjoint [OF assms(1), of b a] that assms(2) by blast
  then show ?thesis
    using assms(1) unfolding tiles_def by blast
qed

section \<open>Canonical form\<close>

text \<open>
  In a fully merged tiling every aligned block of covered pages lies inside one block of the
  tiling: the smallest block inside it would otherwise have its buddy in the tiling too.
\<close>

lemma coalesced_contains:
  assumes t: "tiles S F" and c: "coalesced F" and sub: "pages (l, k) \<subseteq> S"
  shows "\<exists>b\<in>F. pages (l, k) \<subseteq> pages b"
proof (rule ccontr)
  assume no: "\<not> ?thesis"
  have small: "l' < l" "pages (l', k') \<subseteq> pages (l, k)"
    if "(l', k') \<in> F" "p \<in> pages (l', k')" "p \<in> pages (l, k)" for l' k' p
  proof -
    have "\<not> l \<le> l'" using that no pages_nested [of l l' p k k'] by blast
    then show "l' < l" by simp
    then show "pages (l', k') \<subseteq> pages (l, k)"
      using that pages_nested [of l' l p k' k] by simp
  qed
  define P where "P l' \<longleftrightarrow> (\<exists>k' p. (l', k') \<in> F \<and> p \<in> pages (l', k') \<and> p \<in> pages (l, k))" for l'
  have "P (LEAST l'. P l')"
  proof (rule LeastI_ex)
    have "k * 2 ^ l \<in> S" using sub first_page [of k l] by blast
    then obtain b where "b \<in> F" "k * 2 ^ l \<in> pages b"
      using tilesD_cover [OF t] by blast
    then show "\<exists>l'. P l'"
      unfolding P_def using first_page [of k l] by (cases b) blast
  qed
  then obtain l0 k0 p where 0: "(l0, k0) \<in> F" "p \<in> pages (l0, k0)" "p \<in> pages (l, k)"
    and least: "\<And>l'. P l' \<Longrightarrow> l0 \<le> l'"
    unfolding P_def [of "LEAST l'. P l'"] using Least_le [of P] by blast
  have up: "pages (Suc l0, k0 div 2) \<subseteq> pages (l, k)"
    using pages_nested [of "Suc l0" l p "k0 div 2" k] small(1) [OF 0] 0(2,3) pages_parent [of l0 k0]
    by (simp add: Suc_leI subset_iff)
  define q where "q = buddy_of k0 * 2 ^ l0"
  have q: "q \<in> pages (l0, buddy_of k0)" by (simp add: q_def)
  then have qu: "q \<in> pages (Suc l0, k0 div 2)" by (simp add: pages_split)
  then have ql: "q \<in> pages (l, k)" using up by blast
  then obtain b where "b \<in> F" "q \<in> pages b"
    using tilesD_cover [OF t] sub by blast
  then obtain l1 k1 where 1: "(l1, k1) \<in> F" "q \<in> pages (l1, k1)"
    by (cases b) blast
  have "l0 \<le> l1" using least 1 ql unfolding P_def by blast
  moreover have "\<not> l0 < l1"
  proof
    assume "l0 < l1"
    then have "pages (Suc l0, k0 div 2) \<subseteq> pages (l1, k1)"
      using pages_nested [of "Suc l0" l1 q] 1(2) qu by (simp add: Suc_leI)
    then have "p \<in> pages (l1, k1)" using 0(2) pages_parent [of l0 k0] by blast
    then show False using tilesD_unique [OF t 0(1) 1(1) 0(2)] \<open>l0 < l1\<close> by simp
  qed
  ultimately have "l1 = l0" by simp
  then have "k1 = buddy_of k0" using 1(2) q by (simp add: mem_pages_iff)
  then show False using c 0(1) 1(1) \<open>l1 = l0\<close> by (simp add: coalesced_def)
qed

text \<open>The free blocks of a fully merged pool are the maximal aligned blocks of free pages.\<close>

definition maximal_blocks :: "nat set \<Rightarrow> block set" where
  "maximal_blocks S = {(l, k). pages (l, k) \<subseteq> S \<and> \<not> pages (Suc l, k div 2) \<subseteq> S}"

lemma coalesced_canonical:
  assumes t: "tiles S F" and c: "coalesced F"
  shows "F = maximal_blocks S"
proof (rule set_eqI)
  fix b :: block
  obtain l k where b: "b = (l, k)" by force
  have "b \<in> maximal_blocks S" if m: "b \<in> F"
  proof -
    have "\<not> pages (Suc l, k div 2) \<subseteq> S"
    proof
      assume "pages (Suc l, k div 2) \<subseteq> S"
      then obtain l' k' where h: "(l', k') \<in> F" "pages (Suc l, k div 2) \<subseteq> pages (l', k')"
        using coalesced_contains [OF t c] by (metis prod.collapse)
      then have "k * 2 ^ l \<in> pages (l', k')" using pages_parent by fastforce
      then have "(l', k') = (l, k)"
        using tilesD_unique [OF t h(1) m] b by simp
      moreover have "card (pages (Suc l, k div 2)) \<le> card (pages (l', k'))"
        using h(2) by (intro card_mono) simp_all
      ultimately show False by simp
    qed
    then show ?thesis
      using tilesD_subset [OF t m] by (simp add: maximal_blocks_def b)
  qed
  moreover have "b \<in> F" if m: "b \<in> maximal_blocks S"
  proof -
    have s: "pages (l, k) \<subseteq> S" "\<not> pages (Suc l, k div 2) \<subseteq> S"
      using m by (simp_all add: maximal_blocks_def b)
    obtain l' k' where h: "(l', k') \<in> F" "pages (l, k) \<subseteq> pages (l', k')"
      using coalesced_contains [OF t c s(1)] by (metis prod.collapse)
    have p: "k * 2 ^ l \<in> pages (l', k')" using h(2) first_page by blast
    have "(2::nat) ^ l \<le> 2 ^ l'"
      using card_mono [OF finite_pages h(2)] by simp
    then have "l \<le> l'" by simp
    moreover have "\<not> l < l'"
      using pages_nested [of "Suc l" l' "k * 2 ^ l" "k div 2" k'] p s(2) tilesD_subset [OF t h(1)]
        pages_parent [of l k] first_page [of k l] by (metis Suc_leI subset_trans subsetD)
    ultimately have "l' = l" by simp
    then have "k' = k" using p by (simp add: mem_pages_iff)
    with h(1) \<open>l' = l\<close> show ?thesis by (simp add: b)
  qed
  ultimately show "b \<in> F \<longleftrightarrow> b \<in> maximal_blocks S" by blast
qed

end
