(* ===== verification/BuddyInv.thy ===== *)
theory BuddyInv
  imports Buddy BuddySpec
begin

text \<open>
  The representation invariant of the buddy allocator and its preservation by the bitmap
  updates, the split loop and the merge loop. Free and allocated blocks are read off the
  bitmaps and the index array; a block that a loop has taken out of the bitmaps and not yet
  handed on is the \<open>H\<close> of \<^verbatim>\<open>buddy_inv\<close>.
\<close>

section \<open>Reading the bitmaps\<close>

definition raw_bit :: "MM \<Rightarrow> nat \<Rightarrow> nat \<Rightarrow> bool" where
  "raw_bit m l k = bit (bitmap_bytes (bitmap m l) (k div 8)) (k mod 8)"

definition nblocks :: "MM \<Rightarrow> nat \<Rightarrow> nat" where
  "nblocks m l = smallest_block m div 2 ^ l"

definition free_blocks :: "MM \<Rightarrow> block set" where
  "free_blocks m = {(l, k). l < max_level m \<and> k < nblocks m l \<and> raw_bit m l k}"

definition alloc_blocks :: "MM \<Rightarrow> block set" where
  "alloc_blocks m =
     {(l, k). l < max_level m \<and> k < nblocks m l \<and> block_index m (k * 2 ^ l) = word_of_nat l}"

definition pool :: "MM \<Rightarrow> nat set" where
  "pool m = {..<smallest_block m}"

lemma MM_flags [simp]: "MM_TRUE \<noteq> MM_FALSE" "MM_FALSE \<noteq> MM_TRUE"
  by (simp_all add: MM_TRUE_def MM_FALSE_def)

lemma get_bitmap_flag_eq: "get_bitmap_flag m l k = (if raw_bit m l k then MM_TRUE else MM_FALSE)"
  by (simp add: get_bitmap_flag_def raw_bit_def and_push_bit_one_iff)

lemma raw_bit_set [simp]:
  "raw_bit (set_bitmap_flag m i k f) l j =
     (if l = i \<and> j = k then f = MM_TRUE else raw_bit m l j)"
  using div_mod_8_eq [of j k]
  by (auto simp: raw_bit_def set_bitmap_flag_def Let_def bit_or_push_bit_one
      bit_and_not_push_bit_one)

lemma bitmap_count_set:
  "bitmap_count (bitmap (set_bitmap_flag m i k f) l) =
     (if l \<noteq> i then bitmap_count (bitmap m l)
      else if f = MM_TRUE then bitmap_count (bitmap m i) + (if raw_bit m i k then 0 else 1)
      else bitmap_count (bitmap m i) - (if raw_bit m i k then 1 else 0))"
  by (auto simp: set_bitmap_flag_def Let_def raw_bit_def and_push_bit_one_eq_0)

lemma nblocks_set [simp]: "nblocks (set_bitmap_flag m i k f) = nblocks m"
  by (auto simp: nblocks_def)

lemma pool_set [simp]: "pool (set_bitmap_flag m i k f) = pool m"
  by (simp add: pool_def)

lemma alloc_blocks_set [simp]: "alloc_blocks (set_bitmap_flag m i k f) = alloc_blocks m"
  by (simp add: alloc_blocks_def)

lemma free_blocks_set_TRUE:
  "i < max_level m \<Longrightarrow> k < nblocks m i \<Longrightarrow>
   free_blocks (set_bitmap_flag m i k MM_TRUE) = insert (i, k) (free_blocks m)"
  by (auto simp: free_blocks_def)

lemma free_blocks_set_FALSE:
  "free_blocks (set_bitmap_flag m i k MM_FALSE) = free_blocks m - {(i, k)}"
  by (auto simp: free_blocks_def)

section \<open>The scan\<close>

text \<open>
  The reference search is the plain bit-by-bit one. The 64-bit step looks at the eight bytes
  from \<open>i / 8\<close> on, which also hold the bits just below \<open>i\<close> and miss those just below
  \<open>i + 64\<close>; that is harmless because \<open>i\<close> is off a byte boundary only while a set bit lies ahead in
  those eight bytes.
\<close>

definition scan_bit :: "byte carray \<Rightarrow> nat \<Rightarrow> bool" where
  "scan_bit p i = bit (p (i div 8)) (i mod 8)"

lemma load64_zero_bits:
  assumes "load64 p (i div 8) = 0" "8 * (i div 8) \<le> j" "j < 8 * (i div 8) + 64"
  shows "\<not> scan_bit p j"
proof -
  have "i div 8 + (j - 8 * (i div 8)) div 8 = j div 8" "(j - 8 * (i div 8)) mod 8 = j mod 8"
    using assms(2) by (metis add.commute div_mult_self4 le_add_diff_inverse2 zero_neq_numeral,
        metis le_add_diff_inverse2 mod_mult_self2)
  then show ?thesis
    using assms by (auto simp: load64_eq_0_iff scan_bit_def dest: spec [of _ "j - 8 * (i div 8)"])
qed

lemma find_free_scan_correct:
  assumes "\<forall>j<i. \<not> scan_bit p j" and "i mod 8 = 0 \<or> load64 p (i div 8) \<noteq> 0 \<or> n - i < 64"
  shows "find_free_scan p n i = find (scan_bit p) [0..<n]"
  using assms
proof (induction p n i rule: find_free_scan.induct)
  case (1 p n i)
  consider "n \<le> i" | "i < n" "64 \<le> n - i" "load64 p (i div 8) = 0"
    | "i < n" "\<not> (64 \<le> n - i \<and> load64 p (i div 8) = 0)" "scan_bit p i"
    | "i < n" "\<not> (64 \<le> n - i \<and> load64 p (i div 8) = 0)" "\<not> scan_bit p i"
    by linarith
  then show ?case
  proof cases
    case 1
    then show ?thesis
      using "1.prems"(1) by (subst find_free_scan.simps) (auto simp: find_None_iff eq_commute [of None])
  next
    case 2
    then have al: "8 * (i div 8) = i" using "1.prems"(2) by auto
    have "\<forall>j<i + 64. \<not> scan_bit p j"
      using "1.prems"(1) load64_zero_bits [OF 2(3)] al by (metis not_le)
    moreover have "(i + 64) mod 8 = 0" using al by presburger
    ultimately have "find_free_scan p n (i + 64) = find (scan_bit p) [0..<n]"
      using "1.IH"(1) 2 by simp
    then show ?thesis using 2 by (subst find_free_scan.simps) (simp add: div_greater_zero_iff)
  next
    case 3
    then have "find_free_scan p n i = Some i"
      by (subst find_free_scan.simps) (auto simp: scan_bit_def and_push_bit_one_iff)
    moreover have "find (scan_bit p) [0..<n] = Some i"
      using 3 "1.prems"(1) by (simp add: find_upt_Some_iff)
    ultimately show ?thesis by simp
  next
    case 4
    have a: "\<forall>j<Suc i. \<not> scan_bit p j"
      using "1.prems"(1) 4(3) less_Suc_eq by auto
    have b: "Suc i mod 8 = 0 \<or> load64 p (Suc i div 8) \<noteq> 0 \<or> n - Suc i < 64"
    proof (cases "Suc i mod 8 = 0")
      case False
      then have "Suc i div 8 = i div 8" by presburger
      then show ?thesis using 4(2) by auto
    qed simp
    have g: "\<not> (0 < (n - i) div 64 \<and> load64 p (i div 8) = 0)" "p (i div 8) AND push_bit (i mod 8) 1 = 0"
      using 4 by (auto simp: scan_bit_def and_push_bit_one_eq_0 div_greater_zero_iff)
    then have "find_free_scan p n (Suc i) = find (scan_bit p) [0..<n]"
      using "1.IH"(2) [OF 4(1) g(1)] a b by simp
    then show ?thesis
      using 4(1) g by (subst find_free_scan.simps) auto
  qed
qed

section \<open>The invariant\<close>

definition counts_ok :: "MM \<Rightarrow> bool" where
  "counts_ok m \<longleftrightarrow>
     (\<forall>l<max_level m. bitmap_count (bitmap m l) = word_of_nat (card {k. (l, k) \<in> free_blocks m}))"

definition buddy_inv :: "block set \<Rightarrow> MM \<Rightarrow> bool" where
  "buddy_inv H m \<longleftrightarrow>
     smallest_block m < 2 ^ 31 \<and>
     (\<forall>i. i < max_level m \<longleftrightarrow> 0 < nblocks m i) \<and>
     tiles (pool m) (free_blocks m \<union> alloc_blocks m \<union> H) \<and>
     free_blocks m \<inter> alloc_blocks m = {} \<and>
     H \<inter> (free_blocks m \<union> alloc_blocks m) = {} \<and>
     coalesced (free_blocks m) \<and>
     counts_ok m \<and>
     (\<forall>l<max_level m. odd (nblocks m l) \<longrightarrow> \<not> raw_bit m l (nblocks m l)) \<and>
     (\<forall>p\<in>pool m. block_index m p \<noteq> 0xFF \<longrightarrow> (\<exists>l k. (l, k) \<in> alloc_blocks m \<and> p = k * 2 ^ l))"

lemma buddy_invD:
  assumes "buddy_inv H m"
  shows "smallest_block m < 2 ^ 31"
    and "i < max_level m \<longleftrightarrow> 0 < nblocks m i"
    and "tiles (pool m) (free_blocks m \<union> alloc_blocks m \<union> H)"
    and "free_blocks m \<inter> alloc_blocks m = {}"
    and "H \<inter> (free_blocks m \<union> alloc_blocks m) = {}"
    and "coalesced (free_blocks m)"
    and "counts_ok m"
    and "l < max_level m \<Longrightarrow> odd (nblocks m l) \<Longrightarrow> \<not> raw_bit m l (nblocks m l)"
    and "p \<in> pool m \<Longrightarrow> block_index m p \<noteq> 0xFF \<Longrightarrow> \<exists>l k. (l, k) \<in> alloc_blocks m \<and> p = k * 2 ^ l"
  using assms unfolding buddy_inv_def by blast+

lemma pages_in_pool: "pages (l, k) \<subseteq> pool m \<longleftrightarrow> k < nblocks m l"
  by (simp add: pool_def pages_subset_iff nblocks_def)

lemma max_level_bound: "buddy_inv H m \<Longrightarrow> max_level m \<le> 31"
proof (rule ccontr)
  assume i: "buddy_inv H m" and "\<not> max_level m \<le> 31"
  then have "0 < nblocks m 31" using buddy_invD(2) [OF i, of 31] by simp
  then show False using buddy_invD(1) [OF i] by (simp add: nblocks_def)
qed

lemma finite_free_level: "finite {k. (l, k) \<in> free_blocks m}"
  by (rule finite_subset [of _ "{..<nblocks m l}"]) (auto simp: free_blocks_def)

lemma card_free_level: "card {k. (l, k) \<in> free_blocks m} \<le> smallest_block m"
proof -
  have "card {k. (l, k) \<in> free_blocks m} \<le> card {..<nblocks m l}"
    by (rule card_mono) (auto simp: free_blocks_def)
  also have "\<dots> \<le> smallest_block m"
    by (simp add: nblocks_def div_le_dividend)
  finally show ?thesis .
qed

lemma counts_ok_set:
  assumes c: "counts_ok m" and b: "i < max_level m" "k < nblocks m i"
  shows "counts_ok (set_bitmap_flag m i k f)"
proof -
  have rb: "raw_bit m i k \<longleftrightarrow> (i, k) \<in> free_blocks m"
    using b by (simp add: free_blocks_def)
  have "bitmap_count (bitmap (set_bitmap_flag m i k f) l) =
      word_of_nat (card {j. (l, j) \<in> free_blocks (set_bitmap_flag m i k f)})"
    if l: "l < max_level m" for l
  proof (cases "l = i")
    case False
    then have "{j. (l, j) \<in> free_blocks (set_bitmap_flag m i k f)} = {j. (l, j) \<in> free_blocks m}"
      by (auto simp: free_blocks_def)
    then show ?thesis using c l False by (simp add: bitmap_count_set counts_ok_def)
  next
    case True
    let ?K = "{j. (i, j) \<in> free_blocks m}"
    have c': "bitmap_count (bitmap m i) = word_of_nat (card ?K)"
      using c b by (simp add: counts_ok_def)
    show ?thesis
    proof (cases "f = MM_TRUE")
      case t: True
      have "{j. (i, j) \<in> free_blocks (set_bitmap_flag m i k f)} = insert k ?K"
        using b t by (auto simp: free_blocks_set_TRUE)
      then show ?thesis
        using finite_free_level [of i m] True t c' rb
        by (auto simp: bitmap_count_set card_insert_if insert_absorb)
    next
      case f: False
      have eq: "{j. (i, j) \<in> free_blocks (set_bitmap_flag m i k f)} = ?K - {k}"
        using f by (auto simp: free_blocks_def)
      show ?thesis
      proof (cases "raw_bit m i k")
        case r: True
        then have "0 < card ?K"
          using finite_free_level [of i m] rb by (auto simp: card_gt_0_iff)
        moreover have "card (?K - {k}) = card ?K - 1"
          using r rb finite_free_level [of i m] by simp
        ultimately show ?thesis
          using True f c' eq r by (simp add: bitmap_count_set of_nat_diff)
      next
        case r: False
        then have "?K - {k} = ?K" using rb by auto
        then show ?thesis
          using True f c' eq r by (simp add: bitmap_count_set)
      qed
    qed
  qed
  then show ?thesis by (simp add: counts_ok_def)
qed

lemma find_free_block_eq:
  assumes "buddy_inv H m" "l < max_level m"
  shows "find_free_block m l = find (raw_bit m l) [0..<nblocks m l]"
proof -
  have "find_free_scan (bitmap_bytes (bitmap m l)) (drop_bit l (smallest_block m)) 0 =
      find (raw_bit m l) [0..<nblocks m l]"
    by (subst find_free_scan_correct) (simp_all add: scan_bit_def [abs_def] raw_bit_def [abs_def]
        nblocks_def drop_bit_eq_div)
  moreover have "find (raw_bit m l) [0..<nblocks m l] = None" if "bitmap_count (bitmap m l) = 0"
  proof -
    have "card {k. (l, k) \<in> free_blocks m} < 2 ^ 64"
      using card_free_level [of l m] buddy_invD(1) [OF assms(1)] by simp
    then have "card {k. (l, k) \<in> free_blocks m} = 0"
      using that buddy_invD(7) [OF assms(1)] assms(2)
      by (simp add: counts_ok_def of_nat_eq_0_word)
    then have "{k. (l, k) \<in> free_blocks m} = {}"
      using finite_free_level [of l m] by simp
    then show ?thesis
      using assms(2) by (auto simp: find_upt_None_iff free_blocks_def)
  qed
  ultimately show ?thesis by (simp add: find_free_block_def)
qed

lemma find_free_block_Some_iff:
  assumes "buddy_inv H m" "l < max_level m"
  shows "find_free_block m l = Some k \<longleftrightarrow>
    (l, k) \<in> free_blocks m \<and> (\<forall>j<k. (l, j) \<notin> free_blocks m)"
  using assms(2) by (auto simp: find_free_block_eq [OF assms] find_upt_Some_iff free_blocks_def)

lemma find_free_block_None_iff:
  assumes "buddy_inv H m" "l < max_level m"
  shows "find_free_block m l = None \<longleftrightarrow> (\<forall>k. (l, k) \<notin> free_blocks m)"
  using assms(2) by (auto simp: find_free_block_eq [OF assms] find_upt_None_iff free_blocks_def)

section \<open>Taking, splitting and merging a block\<close>

text \<open>Clearing the bit of a free block takes it out of the bitmaps: it becomes the held block.\<close>

lemma buddy_inv_take:
  assumes i: "buddy_inv {} m" and f: "(l, k) \<in> free_blocks m"
  shows "buddy_inv {(l, k)} (set_bitmap_flag m l k MM_FALSE)"
proof -
  have b: "l < max_level m" "k < nblocks m l" using f by (simp_all add: free_blocks_def)
  have "free_blocks m - {(l, k)} \<union> alloc_blocks m \<union> {(l, k)} = free_blocks m \<union> alloc_blocks m \<union> {}"
    using f by auto
  then show ?thesis
    using i f b counts_ok_set [of m l k MM_FALSE]
    by (auto simp: buddy_inv_def free_blocks_set_FALSE coalesced_def)
qed

lemma buddy_inv_split:
  assumes i: "buddy_inv {(Suc l, k)} m"
  shows "buddy_inv {(l, k * 2)}
    (set_bitmap_flag (set_bitmap_flag m l (k * 2) MM_FALSE) l (k * 2 + 1) MM_TRUE)"
proof -
  define m2 where "m2 = set_bitmap_flag (set_bitmap_flag m l (k * 2) MM_FALSE) l (k * 2 + 1) MM_TRUE"
  have fr: "max_level m2 = max_level m" "smallest_block m2 = smallest_block m" "nblocks m2 = nblocks m"
    "alloc_blocks m2 = alloc_blocks m" "pool m2 = pool m" "block_index m2 = block_index m"
    by (simp_all add: m2_def)
  have bud: "buddy_of (k * 2) = k * 2 + 1" "buddy_of (k * 2 + 1) = k * 2"
    unfolding buddy_of_def by presburger+
  have t: "tiles (pool m) (insert (Suc l, k) (free_blocks m \<union> alloc_blocks m))"
    and n: "(Suc l, k) \<notin> free_blocks m \<union> alloc_blocks m"
    using buddy_invD(3,5) [OF i] by auto
  have t2: "tiles (pool m) (insert (l, k * 2) (insert (l, k * 2 + 1) (free_blocks m \<union> alloc_blocks m)))"
    using tiles_split [of "pool m" l "k * 2"] t n by (simp add: bud)
  have n2: "(l, k * 2) \<notin> free_blocks m \<union> alloc_blocks m"
    "(l, k * 2 + 1) \<notin> free_blocks m \<union> alloc_blocks m"
  proof -
    have "b \<notin> free_blocks m \<union> alloc_blocks m" if "pages b \<subseteq> pages (Suc l, k)" for b
      using tilesD_disjoint [OF t, of b "(Suc l, k)"] n that pages_nonempty [of b] by auto
    then show "(l, k * 2) \<notin> free_blocks m \<union> alloc_blocks m"
      "(l, k * 2 + 1) \<notin> free_blocks m \<union> alloc_blocks m"
      using pages_split [of l "k * 2"] by (simp_all add: bud)
  qed
  have r: "k * 2 + 1 < nblocks m l" "k * 2 < nblocks m l"
    using tilesD_subset [OF t2, of "(l, k * 2 + 1)"] by (simp_all add: pages_in_pool)
  then have l: "l < max_level m" using buddy_invD(2) [OF i] by force
  have F: "free_blocks m2 = insert (l, k * 2 + 1) (free_blocks m)"
    using r l n2 by (simp add: m2_def free_blocks_set_TRUE free_blocks_set_FALSE)
  have "coalesced (free_blocks m2)"
    using buddy_invD(6) [OF i] n2 bud(2) unfolding F by (intro coalesced_insert) auto
  moreover have "counts_ok m2"
    using buddy_invD(7) [OF i] r l unfolding m2_def by (intro counts_ok_set) simp_all
  moreover have "tiles (pool m2) (free_blocks m2 \<union> alloc_blocks m2 \<union> {(l, k * 2)})"
    using t2 by (simp add: F fr insert_commute)
  moreover have "\<not> raw_bit m2 j (nblocks m2 j)" if "j < max_level m" "odd (nblocks m j)" for j
    using buddy_invD(8) [OF i that] r unfolding m2_def by auto
  ultimately show ?thesis
    using buddy_invD(1,2,4,9) [OF i] n2 unfolding m2_def [symmetric] by (auto simp: buddy_inv_def F fr)
qed

lemma split_blocks_frame [simp]:
  "max_level (fst (split_blocks m i bl k)) = max_level m"
  "smallest_block (fst (split_blocks m i bl k)) = smallest_block m"
  "used_size (fst (split_blocks m i bl k)) = used_size m"
  "start_addr (fst (split_blocks m i bl k)) = start_addr m"
  "end_addr (fst (split_blocks m i bl k)) = end_addr m"
  "block_index (fst (split_blocks m i bl k)) = block_index m"
  "mm_spl (fst (split_blocks m i bl k)) = mm_spl m"
  by (induction m i bl k rule: split_blocks.induct) simp_all

lemma buddy_inv_split_blocks:
  assumes "buddy_inv {(i, k)} m" "bl \<le> i" "split_blocks m i bl k = (m', off)"
  shows "buddy_inv {(bl, off)} m' \<and> off = k * 2 ^ (i - bl)"
  using assms
proof (induction m i bl k rule: split_blocks.induct)
  case (2 m i bl k)
  show ?case
  proof (cases "bl \<le> i")
    case True
    then show ?thesis
      using 2 buddy_inv_split [of i k m] by (auto simp: Suc_diff_le)
  next
    case False
    then show ?thesis using 2 by (auto simp: le_Suc_eq)
  qed
qed auto

lemma buddy_in_range:
  assumes "buddy_inv H m" "l < max_level m" "k < nblocks m l"
  shows "raw_bit m l (buddy_of k) \<longleftrightarrow> (l, buddy_of k) \<in> free_blocks m"
proof (cases "buddy_of k < nblocks m l")
  case True
  then show ?thesis using assms by (simp add: free_blocks_def)
next
  case False
  have "buddy_of k = nblocks m l \<and> odd (nblocks m l)"
    using False assms(3) unfolding buddy_of_def by (cases "k mod 2 = 0") (simp_all, presburger+)
  then show ?thesis
    using buddy_invD(8) [OF assms(1,2)] False by (auto simp: free_blocks_def)
qed

lemma buddy_inv_held:
  assumes "buddy_inv {(l, k)} m"
  shows "l < max_level m" "k < nblocks m l" "(l, k) \<notin> free_blocks m" "(l, k) \<notin> alloc_blocks m"
proof -
  show "k < nblocks m l"
    using tilesD_subset [OF buddy_invD(3) [OF assms], of "(l, k)"] by (simp add: pages_in_pool)
  then show "l < max_level m" using buddy_invD(2) [OF assms, of l] by simp
  show "(l, k) \<notin> free_blocks m" "(l, k) \<notin> alloc_blocks m"
    using buddy_invD(5) [OF assms] by auto
qed

lemma buddy_inv_put:
  assumes i: "buddy_inv {(l, k)} m" and n: "(l, buddy_of k) \<notin> free_blocks m"
  shows "buddy_inv {} (set_bitmap_flag m l k MM_TRUE)"
proof -
  note h = buddy_inv_held [OF i]
  have F: "free_blocks (set_bitmap_flag m l k MM_TRUE) = insert (l, k) (free_blocks m)"
    using h by (simp add: free_blocks_set_TRUE)
  have "coalesced (insert (l, k) (free_blocks m))"
    using buddy_invD(6) [OF i] n by (rule coalesced_insert)
  moreover have "\<not> raw_bit (set_bitmap_flag m l k MM_TRUE) j (nblocks m j)"
    if "j < max_level m" "odd (nblocks m j)" for j
    using buddy_invD(8) [OF i that] h by auto
  ultimately show ?thesis
    using buddy_invD [OF i] h counts_ok_set [of m l k MM_TRUE]
    by (auto simp: buddy_inv_def F)
qed

lemma buddy_inv_merge:
  assumes i: "buddy_inv {(l, k)} m" and f: "(l, buddy_of k) \<in> free_blocks m"
  shows "buddy_inv {(Suc l, k div 2)}
    (set_bitmap_flag (set_bitmap_flag (set_bitmap_flag m l k MM_TRUE) l (buddy_of k) MM_FALSE)
       l k MM_FALSE)"
    (is "buddy_inv _ ?m")
proof -
  note h = buddy_inv_held [OF i]
  have bf: "buddy_of k < nblocks m l" using f by (simp add: free_blocks_def)
  have F: "free_blocks ?m = free_blocks m - {(l, buddy_of k)}"
    using h by (auto simp: free_blocks_set_TRUE free_blocks_set_FALSE)
  let ?B = "free_blocks m - {(l, buddy_of k)} \<union> alloc_blocks m"
  have eq: "free_blocks m \<union> alloc_blocks m \<union> {(l, k)} = insert (l, k) (insert (l, buddy_of k) ?B)"
    using f by auto
  have "(l, buddy_of k) \<notin> ?B" "(l, k) \<notin> ?B"
    using f h buddy_invD(4) [OF i] by auto
  then have t: "tiles (pool m) (insert (Suc l, k div 2) ?B)" "(Suc l, k div 2) \<notin> ?B"
    using tiles_merge [of "pool m" l k ?B] buddy_invD(3) [OF i] by (simp_all only: eq not_False_eq_True)
  have "tiles (pool ?m) (free_blocks ?m \<union> alloc_blocks ?m \<union> {(Suc l, k div 2)})"
    using t(1) by (simp add: F)
  moreover have "counts_ok ?m"
    using buddy_invD(7) [OF i] h bf by (intro counts_ok_set) simp_all
  moreover have "coalesced (free_blocks ?m)"
    using buddy_invD(6) [OF i] by (auto simp: F coalesced_def)
  moreover have "\<not> raw_bit ?m j (nblocks ?m j)" if "j < max_level m" "odd (nblocks m j)" for j
    using buddy_invD(8) [OF i that] h bf by auto
  ultimately show ?thesis
    using buddy_invD(1,2,4,9) [OF i] t(2) by (auto simp: buddy_inv_def F)
qed

lemma free_buddy_block_frame [simp]:
  "max_level (snd (free_buddy_block m i k)) = max_level m"
  "smallest_block (snd (free_buddy_block m i k)) = smallest_block m"
  "used_size (snd (free_buddy_block m i k)) = used_size m"
  "start_addr (snd (free_buddy_block m i k)) = start_addr m"
  "end_addr (snd (free_buddy_block m i k)) = end_addr m"
  "block_index (snd (free_buddy_block m i k)) = block_index m"
  "mm_spl (snd (free_buddy_block m i k)) = mm_spl m"
  by (induction m i k rule: free_buddy_block.induct; subst free_buddy_block.simps;
      simp add: Let_def)+

text \<open>
  The merge loop puts the held block back and merges it as far as it goes; it stops below the
  top level, because the only block of the top level has no buddy.
\<close>

lemma buddy_inv_free_buddy_block:
  assumes "buddy_inv {(i, k)} m"
  shows "fst (free_buddy_block m i k) \<and> buddy_inv {} (snd (free_buddy_block m i k))"
  using assms
proof (induction m i k rule: free_buddy_block.induct)
  case (1 m i k)
  note h = buddy_inv_held [OF "1.prems"]
  let ?m1 = "set_bitmap_flag m i k MM_TRUE"
  have b: "(if k mod 2 = 0 then k + 1 else k - 1) = buddy_of k"
    by (simp add: buddy_of_def)
  have r: "raw_bit ?m1 i (buddy_of k) \<longleftrightarrow> (i, buddy_of k) \<in> free_blocks m"
    using buddy_in_range [OF "1.prems" h(1,2)] by simp
  show ?case
  proof (cases "(i, buddy_of k) \<in> free_blocks m")
    case True
    then show ?thesis
      using "1.IH" [OF h(1) refl refl] buddy_inv_merge [OF "1.prems" True] h(1) r
      by (subst free_buddy_block.simps, subst (2) free_buddy_block.simps)
        (simp add: Let_def b get_bitmap_flag_eq)
  next
    case False
    then have "free_buddy_block m i k = (True, ?m1)"
      using h(1) r by (subst free_buddy_block.simps) (simp add: Let_def b get_bitmap_flag_eq)
    then show ?thesis using buddy_inv_put [OF "1.prems" False] by simp
  qed
qed

section \<open>What the loops leave alone\<close>

text \<open>
  The operations touch only the bits of blocks of the pool: the padding at the end of each
  bitmap, and the bitmaps above the top level, stay as they are.
\<close>

definition same_outside :: "MM \<Rightarrow> MM \<Rightarrow> bool" where
  "same_outside m m' \<longleftrightarrow>
     max_level m' = max_level m \<and> smallest_block m' = smallest_block m \<and>
     (\<forall>l k. nblocks m l \<le> k \<longrightarrow> raw_bit m' l k = raw_bit m l k) \<and>
     (\<forall>l\<ge>max_level m. bitmap m' l = bitmap m l)"

lemma same_outside_refl [simp]: "same_outside m m"
  by (simp add: same_outside_def)

lemma same_outside_trans: "same_outside m m' \<Longrightarrow> same_outside m' m'' \<Longrightarrow> same_outside m m''"
  by (auto simp: same_outside_def nblocks_def)

lemma bitmap_set_other: "l \<noteq> i \<Longrightarrow> bitmap (set_bitmap_flag m i k f) l = bitmap m l"
  by (simp add: set_bitmap_flag_def Let_def)

lemma same_outside_set:
  "i < max_level m \<Longrightarrow> k < nblocks m i \<Longrightarrow> same_outside m (set_bitmap_flag m i k f)"
  by (auto simp: same_outside_def bitmap_set_other)

lemma same_outside_split_blocks:
  assumes "buddy_inv {(i, k)} m"
  shows "same_outside m (fst (split_blocks m i bl k))"
  using assms
proof (induction m i bl k rule: split_blocks.induct)
  case (2 m i bl k)
  let ?m2 = "set_bitmap_flag (set_bitmap_flag m i (k * 2) MM_FALSE) i (k * 2 + 1) MM_TRUE"
  have h: "i < max_level m" "k * 2 < nblocks m i" "k * 2 + 1 < nblocks m i"
  proof -
    note u = buddy_inv_held [OF "2.prems"]
    show "i < max_level m" using u(1) by simp
    have "k < nblocks m i div 2" using u(2) by (simp only: nblocks_def div_pow_Suc)
    then show "k * 2 < nblocks m i" "k * 2 + 1 < nblocks m i" by linarith+
  qed
  have "same_outside m ?m2"
    using h by (intro same_outside_trans [OF same_outside_set [of i m "k * 2" MM_FALSE]] same_outside_set) simp_all
  then show ?case
    using "2.IH" [OF _ buddy_inv_split [OF "2.prems"]] same_outside_trans by (auto simp del: split_blocks_frame)
qed simp

lemma same_outside_free_buddy_block:
  assumes "buddy_inv {(i, k)} m"
  shows "same_outside m (snd (free_buddy_block m i k))"
  using assms
proof (induction m i k rule: free_buddy_block.induct)
  case (1 m i k)
  note h = buddy_inv_held [OF "1.prems"]
  let ?m1 = "set_bitmap_flag m i k MM_TRUE"
  let ?m3 = "set_bitmap_flag (set_bitmap_flag ?m1 i (buddy_of k) MM_FALSE) i k MM_FALSE"
  have b: "(if k mod 2 = 0 then k + 1 else k - 1) = buddy_of k"
    by (simp add: buddy_of_def)
  have r: "raw_bit ?m1 i (buddy_of k) \<longleftrightarrow> (i, buddy_of k) \<in> free_blocks m"
    using buddy_in_range [OF "1.prems" h(1,2)] by simp
  have s1: "same_outside m ?m1" using h by (intro same_outside_set) simp_all
  show ?case
  proof (cases "(i, buddy_of k) \<in> free_blocks m")
    case True
    then have bk: "buddy_of k < nblocks m i" by (simp add: free_blocks_def)
    have e: "free_buddy_block m i k = free_buddy_block ?m3 (Suc i) (k div 2)"
      using h(1) r True by (subst free_buddy_block.simps) (simp add: Let_def b get_bitmap_flag_eq)
    have "same_outside m ?m3"
      using h bk by (intro same_outside_trans [OF s1] same_outside_trans [OF same_outside_set [of i ?m1 "buddy_of k" MM_FALSE]] same_outside_set) simp_all
    moreover have "same_outside ?m3 (snd (free_buddy_block ?m3 (Suc i) (k div 2)))"
      using "1.IH" [OF h(1) refl refl] buddy_inv_merge [OF "1.prems" True] r True
      by (simp add: b get_bitmap_flag_eq)
    ultimately show ?thesis unfolding e by (rule same_outside_trans)
  next
    case False
    then have "free_buddy_block m i k = (True, ?m1)"
      using h(1) r by (subst free_buddy_block.simps) (simp add: Let_def b get_bitmap_flag_eq)
    then show ?thesis using s1 by simp
  qed
qed

text \<open>Two states with the same free blocks, and the same bits outside the pool, have the same bitmaps.\<close>

lemma bitmap_eqI:
  assumes o: "same_outside m m'" and f: "free_blocks m' = free_blocks m" and c: "counts_ok m" "counts_ok m'"
  shows "bitmap m' = bitmap m"
proof
  fix l
  have L: "max_level m' = max_level m" and nb: "nblocks m' = nblocks m"
    using o by (simp_all add: same_outside_def nblocks_def fun_eq_iff)
  show "bitmap m' l = bitmap m l"
  proof (cases "l < max_level m")
    case False
    then show ?thesis using o by (simp add: same_outside_def)
  next
    case True
    have raw: "raw_bit m' l k = raw_bit m l k" for k
    proof (cases "k < nblocks m l")
      case k: True
      have "(l, k) \<in> free_blocks m' \<longleftrightarrow> (l, k) \<in> free_blocks m" by (simp add: f)
      then show ?thesis using k True by (simp add: free_blocks_def L nb)
    next
      case False
      then show ?thesis using o by (simp add: same_outside_def)
    qed
    have "bitmap_bytes (bitmap m' l) i = bitmap_bytes (bitmap m l) i" for i
    proof (rule bit_word_eqI)
      fix n assume "n < LENGTH(8)"
      then show "bit (bitmap_bytes (bitmap m' l) i) n = bit (bitmap_bytes (bitmap m l) i) n"
        using raw [of "8 * i + n"] by (simp add: raw_bit_def)
    qed
    moreover have "bitmap_count (bitmap m' l) = bitmap_count (bitmap m l)"
      using c True by (simp add: counts_ok_def f L)
    ultimately show ?thesis by (simp add: fun_eq_iff)
  qed
qed

end
