(* ===== verification/BuddyAlloc.thy ===== *)
theory BuddyAlloc
  imports BuddyInv
begin

text \<open>
  \<^verbatim>\<open>az_alloc\<close> and \<^verbatim>\<open>az_free\<close> against the abstract buddy system: the level a request is rounded to,
  the search over the levels, and the effect of both operations on the allocated blocks.
\<close>

section \<open>Sizes and levels\<close>

text \<open>The level of a request of at most 1 GB, and the pages no allocated block covers.\<close>

definition level_for :: "qword \<Rightarrow> nat" where
  "level_for sz = (case find (\<lambda>i. unat sz \<le> 4096 * 2 ^ i) [0..<19] of None \<Rightarrow> 19 | Some i \<Rightarrow> i)"

definition alloc_pages :: "MM \<Rightarrow> nat set" where
  "alloc_pages m = (\<Union>b\<in>alloc_blocks m. pages b)"

definition free_pages :: "MM \<Rightarrow> nat set" where
  "free_pages m = pool m - alloc_pages m"

definition addr_of :: "MM \<Rightarrow> block \<Rightarrow> qword" where
  "addr_of m b = start_addr m + word_of_nat (4096 * (snd b * 2 ^ fst b))"

text \<open>The invariant between calls: no held block, no lock held, and the byte count right.\<close>

definition mm_ok :: "MM \<Rightarrow> bool" where
  "mm_ok m \<longleftrightarrow>
     buddy_inv {} m \<and>
     (\<forall>b\<in>alloc_blocks m. fst b \<le> 18) \<and>
     used_size m = word_of_nat (4096 * card (alloc_pages m)) \<and>
     0 < start_addr m \<and>
     unat (start_addr m) + 4096 * smallest_block m \<le> unat (end_addr m) \<and>
     lock (mm_spl m) = 0"

lemma mm_okD:
  assumes "mm_ok m"
  shows "buddy_inv {} m" "b \<in> alloc_blocks m \<Longrightarrow> fst b \<le> 18"
    "used_size m = word_of_nat (4096 * card (alloc_pages m))" "0 < start_addr m"
    "unat (start_addr m) + 4096 * smallest_block m \<le> unat (end_addr m)" "lock (mm_spl m) = 0"
  using assms by (auto simp: mm_ok_def)

lemma page_shl_eq: "i \<le> 18 \<Longrightarrow> page_shl i = word_of_nat (4096 * 2 ^ i)"
proof -
  assume "i \<le> 18"
  then have "(2::nat) ^ i \<le> 2 ^ 18" by (rule power_increasing) simp
  then have "4096 * 2 ^ i < (2::nat) ^ 31" by simp
  moreover have "push_bit i (word_of_nat PAGE_MIN_SIZE :: 32 word) = word_of_nat (4096 * 2 ^ i)"
    by (simp add: push_bit_eq_mult PAGE_MIN_SIZE_def)
  ultimately show ?thesis
    unfolding page_shl_def by (simp only: scast_word_of_nat_small)
qed

lemma unat_page_shl: "i \<le> 18 \<Longrightarrow> unat (page_shl i) = 4096 * 2 ^ i"
proof -
  assume i: "i \<le> 18"
  then have "(2::nat) ^ i \<le> 2 ^ 18" by (rule power_increasing) simp
  then show ?thesis unfolding page_shl_eq [OF i] by (intro unat_word_of_nat_small) simp
qed

lemma page_shl_19: "page_shl 19 = 0xFFFFFFFF80000000"
  by code_simp

lemma page_shl_le_iff: "i \<le> 18 \<Longrightarrow> sz \<le> page_shl i \<longleftrightarrow> unat sz \<le> 4096 * 2 ^ i"
  by (simp add: word_le_nat_alt unat_page_shl)

lemma level_for_bound:
  assumes "unat sz \<le> 2 ^ 30"
  shows "level_for sz \<le> 18" "unat sz \<le> 4096 * 2 ^ level_for sz"
    "i < level_for sz \<Longrightarrow> 4096 * 2 ^ i < unat sz"
proof -
  have "find (\<lambda>i. unat sz \<le> 4096 * 2 ^ i) [0..<19] \<noteq> None"
    using assms by (auto simp: find_upt_None_iff intro!: exI [of _ 18])
  then obtain l where l: "find (\<lambda>i. unat sz \<le> 4096 * 2 ^ i) [0..<19] = Some l" by blast
  then have "level_for sz = l" by (simp add: level_for_def)
  with l show "level_for sz \<le> 18" "unat sz \<le> 4096 * 2 ^ level_for sz"
    "i < level_for sz \<Longrightarrow> 4096 * 2 ^ i < unat sz"
    by (auto simp: find_upt_Some_iff not_le)
qed

lemma find_level:
  assumes "l \<le> 18" "\<And>i. i < l \<Longrightarrow> \<not> sz \<le> page_shl i" "sz \<le> page_shl l"
  shows "find (\<lambda>i. sz \<le> page_shl i) [0..<n] = (if l < n then Some l else None)"
  using assms by (auto simp: find_upt_Some_iff find_upt_None_iff)

lemma align_buddy_block_eq:
  assumes "unat sz \<le> 2 ^ 30"
  shows "align_buddy_block m sz = (if level_for sz < max_level m then page_shl (level_for sz) else 0)"
proof -
  note b = level_for_bound [OF assms]
  have "find (\<lambda>i. sz \<le> page_shl i) [0..<max_level m] =
      (if level_for sz < max_level m then Some (level_for sz) else None)"
    using b(1,2) b(3) by (intro find_level) (auto simp: page_shl_le_iff not_le)
  then show ?thesis by (simp add: align_buddy_block_def)
qed

lemma block_list_index_page_shl:
  "l \<le> 18 \<Longrightarrow> block_list_index m (page_shl l) = (if l < max_level m then Some l else None)"
  unfolding block_list_index_def
  by (rule find_level) (auto simp: page_shl_le_iff unat_page_shl)

section \<open>The allocation of a block\<close>

lemma tiles_free_pages:
  "buddy_inv {} m \<Longrightarrow> tiles (free_pages m) (free_blocks m)"
  unfolding free_pages_def alloc_pages_def
  using buddy_invD(3) [of "{}" m] buddy_invD(4) [of "{}" m] by (intro tiles_restrict) auto

text \<open>A block of level \<open>l\<close> can be had exactly when some free block is at least that big.\<close>

lemma free_block_above_iff:
  assumes i: "buddy_inv {} m"
  shows "(\<exists>k. pages (l, k) \<subseteq> free_pages m) \<longleftrightarrow> (\<exists>l'\<ge>l. \<exists>k. (l', k) \<in> free_blocks m)"
proof
  assume "\<exists>k. pages (l, k) \<subseteq> free_pages m"
  then obtain k b where b: "b \<in> free_blocks m" "pages (l, k) \<subseteq> pages b"
    using coalesced_contains [OF tiles_free_pages [OF i] buddy_invD(6) [OF i]] by blast
  have "(2::nat) ^ l \<le> 2 ^ fst b"
    using card_mono [OF finite_pages b(2)] by (cases b) simp
  then have "l \<le> fst b" by simp
  with b(1) show "\<exists>l'\<ge>l. \<exists>k. (l', k) \<in> free_blocks m" by (cases b) auto
next
  assume "\<exists>l'\<ge>l. \<exists>k. (l', k) \<in> free_blocks m"
  then obtain l' k where l': "l \<le> l'" "(l', k) \<in> free_blocks m" by blast
  have "k * 2 ^ l' = k * 2 ^ (l' - l) * 2 ^ l"
    using l'(1) by (simp add: mult.assoc flip: power_add)
  then have "k * 2 ^ l' \<in> pages (l, k * 2 ^ (l' - l))"
    by (simp only: first_page)
  then have "pages (l, k * 2 ^ (l' - l)) \<subseteq> pages (l', k)"
    by (rule pages_nested [OF l'(1) _ first_page])
  also have "\<dots> \<subseteq> free_pages m"
    using tilesD_subset [OF tiles_free_pages [OF i] l'(2)] .
  finally show "\<exists>k. pages (l, k) \<subseteq> free_pages m" by blast
qed

lemma alloc_buddy_block_correct:
  assumes i: "buddy_inv {} m" and l: "l \<le> 18" "l < max_level m"
  shows "if \<exists>k. pages (l, k) \<subseteq> free_pages m
    then \<exists>off m'. alloc_buddy_block m (page_shl l) = (Some off, m') \<and> buddy_inv {(l, off)} m' \<and>
      same_outside m m' \<and>
      max_level m' = max_level m \<and> smallest_block m' = smallest_block m \<and>
      used_size m' = used_size m \<and> start_addr m' = start_addr m \<and> end_addr m' = end_addr m \<and>
      block_index m' = block_index m \<and> mm_spl m' = mm_spl m
    else alloc_buddy_block m (page_shl l) = (None, m)"
proof (cases "find (\<lambda>i. find_free_block m i \<noteq> None) [l..<max_level m]")
  case None
  have "(l', k) \<notin> free_blocks m" if "l \<le> l'" for l' k
    using None that find_free_block_None_iff [OF i, of l']
    by (cases "l' < max_level m") (auto simp: find_upt_None_iff free_blocks_def)
  then show ?thesis
    using None l by (simp add: free_block_above_iff [OF i] alloc_buddy_block_def block_list_index_page_shl)
next
  case (Some j)
  then have j: "l \<le> j" "j < max_level m" "find_free_block m j \<noteq> None"
    by (auto simp: find_upt_Some_iff)
  then obtain fo where fo: "find_free_block m j = Some fo" by blast
  then have f: "(j, fo) \<in> free_blocks m"
    using find_free_block_Some_iff [OF i j(2)] by simp
  let ?m1 = "set_bitmap_flag m j fo MM_FALSE"
  have i1: "buddy_inv {(j, fo)} ?m1" by (rule buddy_inv_take [OF i f])
  obtain m2 off where s: "split_blocks ?m1 j l fo = (m2, off)" by force
  have i2: "buddy_inv {(l, off)} m2" using buddy_inv_split_blocks [OF i1 j(1) s] by blast
  have fr: "max_level m2 = max_level m" "smallest_block m2 = smallest_block m"
    "used_size m2 = used_size m" "start_addr m2 = start_addr m" "end_addr m2 = end_addr m"
    "block_index m2 = block_index m" "mm_spl m2 = mm_spl m"
    using split_blocks_frame [of ?m1 j l fo] by (simp_all add: s)
  have "same_outside m ?m1" using f by (intro same_outside_set) (simp_all add: free_blocks_def)
  then have so: "same_outside m m2"
    using same_outside_split_blocks [OF i1, of l] by (auto simp: s intro: same_outside_trans)
  have "split_blocks ?m1 j j fo = (?m1, fo)" by (cases j) simp_all
  then have "(if l < j then split_blocks ?m1 j l fo else (?m1, fo)) = (m2, off)"
    using s j(1) by (cases "l = j") auto
  then have "alloc_buddy_block m (page_shl l) = (Some off, m2)"
    using Some fo l by (simp add: alloc_buddy_block_def block_list_index_page_shl)
  moreover have "\<exists>k. pages (l, k) \<subseteq> free_pages m"
    using f j(1) by (auto simp: free_block_above_iff [OF i])
  ultimately show ?thesis using i2 fr so by auto
qed

text \<open>Recording the held block in the index array makes it an allocated block.\<close>

lemma word_level_eq_iff:
  "l < 32 \<Longrightarrow> l' < 32 \<Longrightarrow> (word_of_nat l = (word_of_nat l' :: byte)) \<longleftrightarrow> l = l'"
  by (simp add: word_of_nat_eq_iff take_bit_nat_eq_self)

lemma word_level_neq_FF: "l < 32 \<Longrightarrow> word_of_nat l \<noteq> (0xFF :: byte)"
proof -
  assume "l < 32"
  then have "unat (word_of_nat l :: byte) = l" by (simp add: unat_of_nat take_bit_nat_eq_self)
  with \<open>l < 32\<close> show "word_of_nat l \<noteq> (0xFF :: byte)" by auto
qed

end
