(* ===== verification/BuddyAz.thy ===== *)
theory BuddyAz
  imports BuddyAlloc
begin

text \<open>
  The two entry points of the allocator, \<^verbatim>\<open>az_alloc\<close> and \<^verbatim>\<open>az_free\<close>, refine the abstract buddy
  system whose state is the set of allocated blocks.
\<close>

section \<open>From held to allocated and back\<close>

lemma alloc_blocks_record:
  assumes i: "buddy_inv {(l, k)} m" and l: "l \<le> 18"
  defines "m' \<equiv> m\<lparr>block_index := (block_index m)(k * 2 ^ l := word_of_nat l)\<rparr>"
  shows "alloc_blocks m' = insert (l, k) (alloc_blocks m)" "buddy_inv {} m'"
proof -
  note h = buddy_inv_held [OF i]
  have fr: "max_level m' = max_level m" "smallest_block m' = smallest_block m" "bitmap m' = bitmap m"
    "nblocks m' = nblocks m" "raw_bit m' = raw_bit m" "free_blocks m' = free_blocks m" "pool m' = pool m"
    "counts_ok m' = counts_ok m"
    by (simp_all add: m'_def nblocks_def raw_bit_def free_blocks_def pool_def counts_ok_def fun_eq_iff)
  have L: "max_level m \<le> 31" by (rule max_level_bound [OF i])
  have other: "k' * 2 ^ l' \<noteq> k * 2 ^ l" if "(l', k') \<in> alloc_blocks m" for l' k'
    using tiles_first_page_inj [OF buddy_invD(3) [OF i], of l' k' l k] that h by auto
  show A: "alloc_blocks m' = insert (l, k) (alloc_blocks m)"
  proof (rule set_eqI)
    fix b :: block
    obtain l' k' where b: "b = (l', k')" by force
    show "b \<in> alloc_blocks m' \<longleftrightarrow> b \<in> insert (l, k) (alloc_blocks m)"
    proof (cases "k' * 2 ^ l' = k * 2 ^ l")
      case True
      have "b \<in> alloc_blocks m' \<longleftrightarrow> l' = l \<and> l' < max_level m \<and> k' < nblocks m l'"
        using True l L word_level_eq_iff [of l l'] by (auto simp: alloc_blocks_def b fr m'_def nblocks_def)
      also have "\<dots> \<longleftrightarrow> b = (l, k)" using True h by (auto simp: b)
      finally show ?thesis using True other [of l' k'] b by auto
    next
      case False
      then show ?thesis by (auto simp: alloc_blocks_def b m'_def nblocks_def)
    qed
  qed
  have "\<exists>l' k'. (l', k') \<in> alloc_blocks m' \<and> p = k' * 2 ^ l'"
    if "p \<in> pool m" "block_index m' p \<noteq> 0xFF" for p
    using buddy_invD(9) [OF i, of p] that unfolding A by (cases "p = k * 2 ^ l") (auto simp: m'_def)
  then show "buddy_inv {} m'"
    using buddy_invD(1-8) [OF i] h unfolding buddy_inv_def fr A by auto
qed

lemma alloc_blocks_erase:
  assumes i: "buddy_inv {} m" and a: "(l, k) \<in> alloc_blocks m"
  defines "m' \<equiv> m\<lparr>block_index := (block_index m)(k * 2 ^ l := 0xFF)\<rparr>"
  shows "alloc_blocks m' = alloc_blocks m - {(l, k)}" "buddy_inv {(l, k)} m'"
proof -
  have fr: "max_level m' = max_level m" "smallest_block m' = smallest_block m" "bitmap m' = bitmap m"
    "nblocks m' = nblocks m" "raw_bit m' = raw_bit m" "free_blocks m' = free_blocks m" "pool m' = pool m"
    "counts_ok m' = counts_ok m"
    by (simp_all add: m'_def nblocks_def raw_bit_def free_blocks_def pool_def counts_ok_def fun_eq_iff)
  have L: "max_level m \<le> 31" by (rule max_level_bound [OF i])
  have other: "k' * 2 ^ l' \<noteq> k * 2 ^ l" if "(l', k') \<in> alloc_blocks m" "(l', k') \<noteq> (l, k)" for l' k'
    using tiles_first_page_inj [OF buddy_invD(3) [OF i], of l' k' l k] that a by auto
  show A: "alloc_blocks m' = alloc_blocks m - {(l, k)}"
  proof (rule set_eqI)
    fix b :: block
    obtain l' k' where b: "b = (l', k')" by force
    show "b \<in> alloc_blocks m' \<longleftrightarrow> b \<in> alloc_blocks m - {(l, k)}"
    proof (cases "k' * 2 ^ l' = k * 2 ^ l")
      case True
      then have "b \<notin> alloc_blocks m'"
        using L word_level_neq_FF [of l'] by (auto simp: alloc_blocks_def b fr m'_def)
      then show ?thesis using True other [of l' k'] b by auto
    next
      case False
      then show ?thesis by (auto simp: alloc_blocks_def b m'_def nblocks_def)
    qed
  qed
  have "\<exists>l' k'. (l', k') \<in> alloc_blocks m' \<and> p = k' * 2 ^ l'"
    if p: "p \<in> pool m" "block_index m' p \<noteq> 0xFF" for p
  proof -
    have "p \<noteq> k * 2 ^ l" "block_index m p \<noteq> 0xFF" using p(2) by (auto simp: m'_def split: if_splits)
    then show ?thesis using buddy_invD(9) [OF i p(1)] unfolding A by auto
  qed
  moreover have "tiles (pool m) (free_blocks m \<union> (alloc_blocks m - {(l, k)}) \<union> {(l, k)})"
  proof -
    have "free_blocks m \<union> (alloc_blocks m - {(l, k)}) \<union> {(l, k)} = free_blocks m \<union> alloc_blocks m \<union> {}"
      using a by auto
    then show ?thesis using buddy_invD(3) [OF i] by simp
  qed
  ultimately show "buddy_inv {(l, k)} m'"
    using buddy_invD(1,2,4,6-8) [OF i] a unfolding buddy_inv_def fr A by auto
qed

section \<open>Fields that the block structure does not depend on\<close>

lemma spl_update_simps [simp]:
  "nblocks (m\<lparr>mm_spl := x\<rparr>) = nblocks m" "raw_bit (m\<lparr>mm_spl := x\<rparr>) = raw_bit m"
  "free_blocks (m\<lparr>mm_spl := x\<rparr>) = free_blocks m" "alloc_blocks (m\<lparr>mm_spl := x\<rparr>) = alloc_blocks m"
  "pool (m\<lparr>mm_spl := x\<rparr>) = pool m" "counts_ok (m\<lparr>mm_spl := x\<rparr>) = counts_ok m"
  by (simp_all add: nblocks_def raw_bit_def free_blocks_def alloc_blocks_def pool_def counts_ok_def
      fun_eq_iff)

lemma used_update_simps [simp]:
  "nblocks (m\<lparr>used_size := x\<rparr>) = nblocks m" "raw_bit (m\<lparr>used_size := x\<rparr>) = raw_bit m"
  "free_blocks (m\<lparr>used_size := x\<rparr>) = free_blocks m"
  "alloc_blocks (m\<lparr>used_size := x\<rparr>) = alloc_blocks m"
  "pool (m\<lparr>used_size := x\<rparr>) = pool m" "counts_ok (m\<lparr>used_size := x\<rparr>) = counts_ok m"
  by (simp_all add: nblocks_def raw_bit_def free_blocks_def alloc_blocks_def pool_def counts_ok_def
      fun_eq_iff)

lemma buddy_inv_update [simp]:
  "buddy_inv H (m\<lparr>mm_spl := x\<rparr>) = buddy_inv H m"
  "buddy_inv H (m\<lparr>used_size := y\<rparr>) = buddy_inv H m"
  by (simp_all add: buddy_inv_def)

lemma same_outside_update [simp]:
  "same_outside (m\<lparr>mm_spl := x\<rparr>) m' = same_outside m m'"
  "same_outside m (m'\<lparr>mm_spl := x\<rparr>) = same_outside m m'"
  "same_outside m (m'\<lparr>used_size := y\<rparr>) = same_outside m m'"
  "same_outside m (m'\<lparr>block_index := z\<rparr>) = same_outside m m'"
  "same_outside (m\<lparr>block_index := z\<rparr>) m' = same_outside m m'"
  by (simp_all add: same_outside_def nblocks_def raw_bit_def)

lemma free_pages_update [simp]:
  "free_pages (m\<lparr>mm_spl := x\<rparr>) = free_pages m"
  "alloc_pages (m\<lparr>mm_spl := x\<rparr>) = alloc_pages m"
  "alloc_pages (m\<lparr>used_size := y\<rparr>) = alloc_pages m"
  by (simp_all add: free_pages_def alloc_pages_def)

section \<open>Addresses\<close>

lemma block_bound:
  assumes "buddy_inv H m" "k < nblocks m l"
  shows "(k + 1) * 2 ^ l \<le> smallest_block m" "k * 2 ^ l < 2 ^ 31"
proof -
  have "k + 1 \<le> smallest_block m div 2 ^ l" using assms(2) by (simp add: nblocks_def)
  then show 1: "(k + 1) * 2 ^ l \<le> smallest_block m"
    using less_eq_div_iff_mult_less_eq [of "2 ^ l" "k + 1" "smallest_block m"] by simp
  have "k * 2 ^ l < (k + 1) * 2 ^ l" by simp
  with 1 buddy_invD(1) [OF assms(1)] show "k * 2 ^ l < 2 ^ 31" by linarith
qed

lemma rel_address_eq:
  assumes "l \<le> 18" "k * 2 ^ l < 2 ^ 31"
  shows "page_shl l * word_of_nat k = word_of_nat (4096 * (k * 2 ^ l))"
    and "(word_of_nat (4096 * (k * 2 ^ l)) :: qword) div word_of_nat PAGE_MIN_SIZE = word_of_nat (k * 2 ^ l)"
    and "(word_of_nat (4096 * (k * 2 ^ l)) :: qword) div page_shl l = word_of_nat k"
    and "int_of_qword (word_of_nat (k * 2 ^ l)) = int (k * 2 ^ l)"
    and "int_of_qword (word_of_nat k) = int k"
proof -
  show "page_shl l * word_of_nat k = word_of_nat (4096 * (k * 2 ^ l))"
    by (simp add: page_shl_eq [OF assms(1)] algebra_simps)
  have k: "k \<le> k * 2 ^ l" by simp
  show "(word_of_nat (4096 * (k * 2 ^ l)) :: qword) div word_of_nat PAGE_MIN_SIZE = word_of_nat (k * 2 ^ l)"
    using assms(2) by (subst word_of_nat_div) (simp_all add: PAGE_MIN_SIZE_def)
  show "(word_of_nat (4096 * (k * 2 ^ l)) :: qword) div page_shl l = word_of_nat k"
  proof -
    have "(2::nat) ^ l \<le> 2 ^ 18" using assms(1) by (rule power_increasing) simp
    then show ?thesis
      using assms(2) unfolding page_shl_eq [OF assms(1)] by (subst word_of_nat_div) simp_all
  qed
  show "int_of_qword (word_of_nat (k * 2 ^ l)) = int (k * 2 ^ l)"
    using assms(2) by (rule int_of_qword_word_of_nat)
  show "int_of_qword (word_of_nat k) = int k"
    using assms(2) k by (intro int_of_qword_word_of_nat) linarith
qed

lemma unat_addr_of:
  assumes "mm_ok m" "k < nblocks m l"
  shows "unat (addr_of m (l, k)) = unat (start_addr m) + 4096 * (k * 2 ^ l)"
    "unat (addr_of m (l, k)) + 4096 * 2 ^ l \<le> unat (end_addr m)"
proof -
  note b = block_bound [OF mm_okD(1) [OF assms(1)] assms(2)]
  have "4096 * ((k + 1) * 2 ^ l) \<le> 4096 * smallest_block m"
    using b(1) by (rule mult_le_mono2)
  then have e: "unat (start_addr m) + 4096 * (k * 2 ^ l) + 4096 * 2 ^ l \<le> unat (end_addr m)"
    using mm_okD(5) [OF assms(1)] by (simp add: algebra_simps)
  have lt: "unat (end_addr m) < 2 ^ 64" by (rule unat_qword_less)
  have w: "unat (word_of_nat (4096 * (k * 2 ^ l)) :: qword) = 4096 * (k * 2 ^ l)"
    using b(2) by (intro unat_word_of_nat_small) simp
  show 1: "unat (addr_of m (l, k)) = unat (start_addr m) + 4096 * (k * 2 ^ l)"
    using e lt unfolding addr_of_def fst_conv snd_conv
    by (subst unat_add_lem [THEN iffD1]) (simp_all only: w, simp)
  show "unat (addr_of m (l, k)) + 4096 * 2 ^ l \<le> unat (end_addr m)"
    using e by (simp only: 1)
qed

section \<open>Pages in use\<close>

lemma finite_alloc_pages: "buddy_inv H m \<Longrightarrow> finite (alloc_pages m) \<and> alloc_pages m \<subseteq> pool m"
  using tilesD_subset [OF buddy_invD(3) [of H m]]
  by (auto simp: alloc_pages_def pool_def intro!: finite_subset [of _ "{..<smallest_block m}"])

lemma card_alloc_insert:
  assumes i: "buddy_inv {} m" and p: "pages (l, k) \<subseteq> free_pages m"
  shows "card (alloc_pages m \<union> pages (l, k)) = card (alloc_pages m) + 2 ^ l"
    "card (alloc_pages m) + 2 ^ l \<le> smallest_block m"
proof -
  note f = finite_alloc_pages [OF i]
  have d: "alloc_pages m \<inter> pages (l, k) = {}" using p by (auto simp: free_pages_def)
  show 1: "card (alloc_pages m \<union> pages (l, k)) = card (alloc_pages m) + 2 ^ l"
    using f d by (simp add: card_Un_disjoint)
  have "alloc_pages m \<union> pages (l, k) \<subseteq> {..<smallest_block m}"
    using f p by (auto simp: free_pages_def pool_def)
  then have "card (alloc_pages m \<union> pages (l, k)) \<le> card {..<smallest_block m}"
    by (intro card_mono) auto
  with 1 show "card (alloc_pages m) + 2 ^ l \<le> smallest_block m" by simp
qed

text \<open>The space check of \<^verbatim>\<open>az_alloc\<close> never turns away a request the pool can serve.\<close>

lemma space_check_passes:
  assumes ok: "mm_ok m" and l: "l \<le> 18" and p: "pages (l, k) \<subseteq> free_pages m"
  shows "\<not> end_addr m < start_addr m + used_size m + page_shl l"
proof -
  have "4096 * (card (alloc_pages m) + 2 ^ l) \<le> 4096 * smallest_block m"
    using card_alloc_insert(2) [OF mm_okD(1) [OF ok] p] by simp
  then have "unat (start_addr m) + 4096 * (card (alloc_pages m) + 2 ^ l) \<le> unat (end_addr m)"
    using mm_okD(5) [OF ok] by linarith
  moreover have "start_addr m + used_size m + page_shl l =
      word_of_nat (unat (start_addr m) + 4096 * (card (alloc_pages m) + 2 ^ l))"
    by (simp add: mm_okD(3) [OF ok] page_shl_eq [OF l] algebra_simps)
  moreover have "unat (end_addr m) < 2 ^ LENGTH(64)" using unat_qword_less by simp
  ultimately have "unat (start_addr m + used_size m + page_shl l) \<le> unat (end_addr m)"
    by (simp only: unat_word_of_nat_small order.strict_trans1)
  then show ?thesis by (simp add: word_less_nat_alt)
qed

section \<open>az_alloc\<close>

lemma unlock_lock [simp]:
  "lock (mm_spl m) = 0 \<Longrightarrow> mm_unlock (m\<lparr>mm_spl := (mm_spl m)\<lparr>lock := 1\<rparr>\<rparr>) = m"
  by (simp add: mm_unlock_def spinlock_unlock_def)

text \<open>A request the pool cannot serve returns NULL and changes nothing.\<close>

lemma az_alloc_fails:
  assumes ok: "mm_ok (g_free_memory s)" and sz: "unat sz \<le> 2 ^ 30"
    and no: "\<nexists>k. pages (level_for sz, k) \<subseteq> free_pages (g_free_memory s)"
  shows "az_alloc s sz = Some (0, s)"
proof -
  let ?m = "g_free_memory s" and ?l = "level_for sz"
  let ?ml = "?m\<lparr>mm_spl := (mm_spl ?m)\<lparr>lock := 1\<rparr>\<rparr>"
  have lk: "spinlock_lock (mm_spl ?m) = Some ((mm_spl ?m)\<lparr>lock := 1\<rparr>)"
    using mm_okD(6) [OF ok] by (simp add: spinlock_lock_free)
  have u: "s\<lparr>g_free_memory := mm_unlock ?ml\<rparr> = s"
    using mm_okD(6) [OF ok] by simp
  show ?thesis
  proof (cases "?l < max_level ?m")
    case False
    then show ?thesis
      by (simp add: az_alloc_def lk Let_def align_buddy_block_eq [OF sz] u)
  next
    case True
    have "alloc_buddy_block ?ml (page_shl ?l) = (None, ?ml)"
      using alloc_buddy_block_correct [of ?ml ?l] mm_okD(1) [OF ok] level_for_bound(1) [OF sz] True no
      by simp
    then show ?thesis
      using True by (simp add: az_alloc_def lk Let_def align_buddy_block_eq [OF sz] u)
  qed
qed

lemma mm_ok_record:
  assumes ok: "mm_ok m" and i: "buddy_inv {(l, k)} m1" and l: "l \<le> 18"
    and fr: "max_level m1 = max_level m" "smallest_block m1 = smallest_block m"
      "used_size m1 = used_size m" "start_addr m1 = start_addr m" "end_addr m1 = end_addr m"
      "block_index m1 = block_index m" "lock (mm_spl m') = 0"
    and m': "m' = m1\<lparr>block_index := (block_index m1)(k * 2 ^ l := word_of_nat l),
      used_size := used_size m1 + page_shl l, mm_spl := spl\<rparr>"
  shows "pages (l, k) \<subseteq> free_pages m" "alloc_blocks m' = insert (l, k) (alloc_blocks m)" "mm_ok m'"
proof -
  let ?m2 = "m1\<lparr>block_index := (block_index m1)(k * 2 ^ l := word_of_nat l)\<rparr>"
  have m'2: "m' = ?m2\<lparr>used_size := used_size m1 + page_shl l, mm_spl := spl\<rparr>" by (simp add: m')
  have nb: "nblocks m1 = nblocks m" by (simp add: nblocks_def fr fun_eq_iff)
  have A1: "alloc_blocks m1 = alloc_blocks m" by (simp add: alloc_blocks_def fr nb)
  note h = buddy_inv_held [OF i]
  have "pages (l, k) \<inter> pages b = {}" if "b \<in> alloc_blocks m" for b
    using tilesD_disjoint [OF buddy_invD(3) [OF i], of "(l, k)" b] that h by (auto simp: A1)
  moreover have "pages (l, k) \<subseteq> pool m" using h(2) by (simp add: pages_in_pool nb)
  ultimately show p: "pages (l, k) \<subseteq> free_pages m"
    by (auto simp: free_pages_def alloc_pages_def)
  show A: "alloc_blocks m' = insert (l, k) (alloc_blocks m)"
    using alloc_blocks_record(1) [OF i l] by (simp add: m'2 A1)
  have P: "alloc_pages m' = alloc_pages m \<union> pages (l, k)"
    by (auto simp: alloc_pages_def A)
  have "used_size m' = word_of_nat (4096 * card (alloc_pages m'))"
    unfolding P card_alloc_insert(1) [OF mm_okD(1) [OF ok] p]
    by (simp add: m' fr mm_okD(3) [OF ok] page_shl_eq [OF l] algebra_simps)
  moreover have "buddy_inv {} m'"
    using alloc_blocks_record(2) [OF i l] by (simp add: m'2)
  ultimately show "mm_ok m'"
    using mm_okD [OF ok] l fr(7) unfolding mm_ok_def A by (auto simp: m' fr)
qed

lemma az_alloc_succeeds:
  assumes ok: "mm_ok (g_free_memory s)" and st: "stat_ok (stat s)" and sz: "unat sz \<le> 2 ^ 30"
    and yes: "pages (level_for sz, j) \<subseteq> free_pages (g_free_memory s)"
  obtains k s' where "az_alloc s sz = Some (addr_of (g_free_memory s) (level_for sz, k), s')"
    "pages (level_for sz, k) \<subseteq> free_pages (g_free_memory s)"
    "alloc_blocks (g_free_memory s') = insert (level_for sz, k) (alloc_blocks (g_free_memory s))"
    "mm_ok (g_free_memory s')" "stat_ok (stat s')"
    "published_mem (stat s') = used_size (g_free_memory s')"
    "start_addr (g_free_memory s') = start_addr (g_free_memory s)"
    "smallest_block (g_free_memory s') = smallest_block (g_free_memory s)"
    "mem s' = (\<lambda>x. if in_range x (addr_of (g_free_memory s) (level_for sz, k)) (4096 * 2 ^ level_for sz)
                  then 0 else mem s x)"
    "g_alloc_count s' = g_alloc_count s + 1" "g_free_count s' = g_free_count s"
    "heap_end s' = heap_end s" "heap_lock s' = heap_lock s"
    "same_outside (g_free_memory s) (g_free_memory s')"
    "end_addr (g_free_memory s') = end_addr (g_free_memory s)"
    "block_index (g_free_memory s') = (block_index (g_free_memory s))(k * 2 ^ level_for sz := word_of_nat (level_for sz))"
proof -
  let ?m = "g_free_memory s"
  define l where "l = level_for sz"
  let ?ml = "?m\<lparr>mm_spl := (mm_spl ?m)\<lparr>lock := 1\<rparr>\<rparr>"
  have lk: "spinlock_lock (mm_spl ?m) = Some ((mm_spl ?m)\<lparr>lock := 1\<rparr>)"
    using mm_okD(6) [OF ok] by (simp add: spinlock_lock_free)
  have l18: "l \<le> 18" using level_for_bound(1) [OF sz] by (simp add: l_def)
  have il: "buddy_inv {} ?ml" using mm_okD(1) [OF ok] by simp
  have "pages (l, j) \<subseteq> pool ?m" using yes by (auto simp: free_pages_def l_def)
  then have lm: "l < max_level ?m"
    using buddy_invD(2) [OF mm_okD(1) [OF ok], of l] by (auto simp: pages_in_pool)
  obtain k m1 where a: "alloc_buddy_block ?ml (page_shl l) = (Some k, m1)" and i1: "buddy_inv {(l, k)} m1"
    and so: "same_outside ?m m1"
    and fr: "max_level m1 = max_level ?m" "smallest_block m1 = smallest_block ?m"
      "used_size m1 = used_size ?m" "start_addr m1 = start_addr ?m" "end_addr m1 = end_addr ?m"
      "block_index m1 = block_index ?m" "mm_spl m1 = (mm_spl ?m)\<lparr>lock := 1\<rparr>"
    using alloc_buddy_block_correct [OF il l18] lm yes by (auto simp: l_def split: if_splits)
  have kb: "k * 2 ^ l < 2 ^ 31" using block_bound(2) [OF i1 buddy_inv_held(2) [OF i1]] .
  note rel = rel_address_eq [OF l18 kb]
  have al: "align_buddy_block ?ml sz = page_shl l"
    using lm by (simp add: align_buddy_block_eq [OF sz] l_def)
  have pow: "(2::nat) ^ l \<le> 2 ^ 18" using l18 by (rule power_increasing) simp
  have nz: "page_shl l \<noteq> 0" using unat_page_shl [OF l18] by auto
  have ai: "int_of_qword (page_shl l) = int (4096 * 2 ^ l)"
    unfolding page_shl_eq [OF l18] using pow by (intro int_of_qword_word_of_nat) simp
  have sp: "\<not> end_addr ?ml < start_addr ?ml + used_size ?ml + page_shl l"
    using space_check_passes [OF ok l18] yes by (simp add: l_def)
  have bli: "block_list_index m1 (page_shl l) = Some l"
    using lm by (simp add: block_list_index_page_shl [OF l18] fr)
  define m2 where "m2 = m1\<lparr>block_index := (block_index m1)(k * 2 ^ l := word_of_nat l),
    used_size := used_size m1 + page_shl l\<rparr>"
  obtain st' where st': "set_mem_info (stat s) (used_size m1 + page_shl l) = Some st'" "stat_ok st'"
    "published_mem st' = used_size m1 + page_shl l"
    using set_mem_info_ok [OF st] by metis
  define m' where "m' = mm_unlock m2"
  have ad: "word_of_nat (4096 * (k * 2 ^ l)) + start_addr ?m = addr_of ?m (l, k)"
    by (simp add: addr_of_def add.commute)
  define s' where "s' = s\<lparr>mem := lk_memset (mem s) (addr_of ?m (l, k)) 0 (int (4096 * 2 ^ l)),
    g_alloc_count := g_alloc_count s + 1, stat := st', g_free_memory := m'\<rparr>"
  define n where "n = k * 2 ^ l"
  define z where "z = 4096 * (2::nat) ^ l"
  have ad': "4096 * word_of_nat n + start_addr ?m = addr_of ?m (l, k)"
    using ad by (simp add: n_def)
  have "az_alloc s sz = Some (addr_of ?m (l, k), s\<lparr>mem := lk_memset (mem s) (addr_of ?m (l, k)) 0 (int z),
      g_alloc_count := g_alloc_count s + 1, stat := st', g_free_memory := m'\<rparr>)"
    using nz sp unfolding az_alloc_def lk option.case Let_def al a prod.case bli
      rel(1,2,4) [folded n_def] ai [folded z_def]
    by (simp add: ad' fr(4) st'(1) m'_def m2_def [folded n_def])
  then have res: "az_alloc s sz = Some (addr_of ?m (l, k), s')"
    by (simp only: s'_def z_def)
  have m'eq: "m' = m1\<lparr>block_index := (block_index m1)(k * 2 ^ l := word_of_nat l),
      used_size := used_size m1 + page_shl l, mm_spl := spinlock_unlock (mm_spl m1)\<rparr>"
    by (simp add: m'_def m2_def mm_unlock_def)
  note R = mm_ok_record [OF ok i1 l18 fr(1-6) _ m'eq]
  have lk0: "lock (mm_spl m') = 0" by (simp add: m'eq)
  have zero: "mem s' = (\<lambda>x. if in_range x (addr_of ?m (l, k)) (4096 * 2 ^ l) then 0 else mem s x)"
  proof -
    have "z < 2 ^ 31" using pow by (simp add: z_def)
    then have "int z < int (2 ^ 31)" by (simp only: of_nat_less_iff)
    then have "lk_memset (mem s) (addr_of ?m (l, k)) 0 (int z) x =
        (if in_range x (addr_of ?m (l, k)) z then 0 else mem s x)" for x
      by (subst lk_memset_apply) simp_all
    then show ?thesis unfolding s'_def z_def [symmetric] by (simp add: fun_eq_iff)
  qed
  show thesis
    by (rule that [of k s']) (use res R [OF lk0] st' zero fr so in \<open>simp_all add: s'_def m'_def m2_def mm_unlock_def flip: l_def\<close>)
qed

section \<open>az_free\<close>

lemma az_free_NULL:
  assumes "mm_ok (g_free_memory s)"
  shows "az_free s 0 = Some (False, s)"
  using mm_okD(6) [OF assms] by (simp add: az_free_def spinlock_lock_free Let_def)

text \<open>The page of an address inside the pool, as \<^verbatim>\<open>az_free\<close> computes it.\<close>

lemma free_array_offset:
  assumes ok: "mm_ok m" and p: "p < smallest_block m" "off < 4096"
  shows "int_of_qword ((start_addr m + word_of_nat (4096 * p + off) - start_addr m)
      div word_of_nat PAGE_MIN_SIZE) = int p"
    "start_addr m + word_of_nat (4096 * p + off) \<noteq> 0"
proof -
  have b: "p < 2 ^ 31" using buddy_invD(1) [OF mm_okD(1) [OF ok]] p(1) by linarith
  then have lt: "4096 * p + off < 2 ^ 64" using p(2) by simp
  have "(word_of_nat (4096 * p + off) :: qword) div word_of_nat PAGE_MIN_SIZE = word_of_nat p"
    using lt p(2) by (subst word_of_nat_div) (simp_all add: PAGE_MIN_SIZE_def)
  then show "int_of_qword ((start_addr m + word_of_nat (4096 * p + off) - start_addr m)
      div word_of_nat PAGE_MIN_SIZE) = int p"
    using int_of_qword_word_of_nat [OF b] by (simp only: add_diff_cancel_left')
  have "unat (start_addr m) + (4096 * p + off) < 2 ^ 64"
    using mm_okD(5) [OF ok] unat_qword_less [of "end_addr m"] p by linarith
  then have "unat (word_of_nat (unat (start_addr m) + (4096 * p + off)) :: qword) =
      unat (start_addr m) + (4096 * p + off)"
    by (intro unat_word_of_nat_small) simp
  moreover have "start_addr m + word_of_nat (4096 * p + off) =
      word_of_nat (unat (start_addr m) + (4096 * p + off))"
    by simp
  moreover have "0 < unat (start_addr m)" using mm_okD(4) [OF ok] by (simp add: word_less_nat_alt)
  ultimately show "start_addr m + word_of_nat (4096 * p + off) \<noteq> 0" by auto
qed

text \<open>An address in the pool that is not in the first page of an allocated block is refused.\<close>

lemma az_free_refuses:
  assumes ok: "mm_ok (g_free_memory s)" and p: "p < smallest_block (g_free_memory s)" "off < 4096"
    and no: "\<nexists>l k. (l, k) \<in> alloc_blocks (g_free_memory s) \<and> p = k * 2 ^ l"
  shows "az_free s (start_addr (g_free_memory s) + word_of_nat (4096 * p + off)) = Some (False, s)"
proof -
  let ?m = "g_free_memory s"
  have bi: "block_index ?m p = 0xFF"
    using buddy_invD(9) [OF mm_okD(1) [OF ok], of p] no p(1) by (auto simp: pool_def)
  have "s\<lparr>g_free_memory := mm_unlock (?m\<lparr>mm_spl := (mm_spl ?m)\<lparr>lock := 1\<rparr>\<rparr>)\<rparr> = s"
    using mm_okD(6) [OF ok] by simp
  then show ?thesis
    using free_array_offset [OF ok p] mm_okD(6) [OF ok] bi
    by (simp add: az_free_def spinlock_lock_free Let_def del: of_nat_add of_nat_mult)
qed

lemma mm_ok_erase:
  assumes ok: "mm_ok m" and a: "(l, k) \<in> alloc_blocks m"
    and m1: "m1 = m\<lparr>mm_spl := spl, block_index := (block_index m)(k * 2 ^ l := 0xFF)\<rparr>"
    and m': "m' = (snd (free_buddy_block m1 l k))\<lparr>used_size := used_size m - page_shl l, mm_spl := spl'\<rparr>"
    and spl: "lock spl' = 0"
  shows "fst (free_buddy_block m1 l k)" "alloc_blocks m' = alloc_blocks m - {(l, k)}" "mm_ok m'"
proof -
  let ?m0 = "m\<lparr>block_index := (block_index m)(k * 2 ^ l := 0xFF)\<rparr>"
  let ?m2 = "snd (free_buddy_block m1 l k)"
  have l: "l \<le> 18" using mm_okD(2) [OF ok a] by simp
  have m1': "m1 = ?m0\<lparr>mm_spl := spl\<rparr>" by (simp add: m1)
  note e = alloc_blocks_erase [OF mm_okD(1) [OF ok] a]
  have i1: "buddy_inv {(l, k)} m1" using e(2) by (simp add: m1')
  note F = buddy_inv_free_buddy_block [OF i1]
  show "fst (free_buddy_block m1 l k)" using F by simp
  have "nblocks ?m2 = nblocks m1" by (simp add: nblocks_def fun_eq_iff)
  then have "alloc_blocks ?m2 = alloc_blocks m1" by (simp add: alloc_blocks_def)
  then show A: "alloc_blocks m' = alloc_blocks m - {(l, k)}" using e(1) by (simp add: m' m1')
  have d: "pages (l, k) \<inter> pages b = {}" if "b \<in> alloc_blocks m - {(l, k)}" for b
    using tilesD_disjoint [OF buddy_invD(3) [OF mm_okD(1) [OF ok]], of "(l, k)" b] that a by auto
  have P: "alloc_pages m = alloc_pages m' \<union> pages (l, k)" "alloc_pages m' \<inter> pages (l, k) = {}"
    using a d by (auto simp: alloc_pages_def A)
  have "finite (alloc_pages m)" using finite_alloc_pages [OF mm_okD(1) [OF ok]] by simp
  then have "card (alloc_pages m) = card (alloc_pages m') + 2 ^ l"
    using P by (simp add: card_Un_disjoint)
  then have "used_size m' = word_of_nat (4096 * card (alloc_pages m'))"
    by (simp add: m' mm_okD(3) [OF ok] page_shl_eq [OF l] algebra_simps)
  moreover have "buddy_inv {} m'" using F by (simp add: m')
  ultimately show "mm_ok m'"
    using mm_okD [OF ok] spl unfolding mm_ok_def A by (auto simp: m' m1)
qed

lemma az_free_succeeds:
  assumes ok: "mm_ok (g_free_memory s)" and st: "stat_ok (stat s)"
    and a: "(l, k) \<in> alloc_blocks (g_free_memory s)" and off: "off < 4096"
  obtains s' where "az_free s (addr_of (g_free_memory s) (l, k) + word_of_nat off) = Some (True, s')"
    "alloc_blocks (g_free_memory s') = alloc_blocks (g_free_memory s) - {(l, k)}"
    "mm_ok (g_free_memory s')" "stat_ok (stat s')"
    "published_mem (stat s') = used_size (g_free_memory s')"
    "start_addr (g_free_memory s') = start_addr (g_free_memory s)"
    "smallest_block (g_free_memory s') = smallest_block (g_free_memory s)"
    "mem s' = mem s" "g_free_count s' = g_free_count s + 1" "g_alloc_count s' = g_alloc_count s"
    "heap_end s' = heap_end s" "heap_lock s' = heap_lock s"
    "same_outside (g_free_memory s) (g_free_memory s')"
    "end_addr (g_free_memory s') = end_addr (g_free_memory s)"
    "block_index (g_free_memory s') = (block_index (g_free_memory s))(k * 2 ^ l := 0xFF)"
proof -
  let ?m = "g_free_memory s"
  let ?ml = "?m\<lparr>mm_spl := (mm_spl ?m)\<lparr>lock := 1\<rparr>\<rparr>"
  define p where "p = k * 2 ^ l"
  have lk: "spinlock_lock (mm_spl ?m) = Some ((mm_spl ?m)\<lparr>lock := 1\<rparr>)"
    using mm_okD(6) [OF ok] by (simp add: spinlock_lock_free)
  note i = mm_okD(1) [OF ok]
  have l18: "l \<le> 18" using mm_okD(2) [OF ok a] by simp
  have kb: "k < nblocks ?m l" "l < max_level ?m" "block_index ?m p = word_of_nat l"
    using a by (simp_all add: alloc_blocks_def p_def)
  have pb: "p < smallest_block ?m" "p < 2 ^ 31" "k < 2 ^ 31"
  proof -
    have "k * 2 ^ l < (k + 1) * 2 ^ l" "k \<le> k * 2 ^ l" by simp_all
    then show "p < smallest_block ?m" "p < 2 ^ 31" "k < 2 ^ 31"
      using block_bound [OF i kb(1)] unfolding p_def by linarith+
  qed
  have "addr_of ?m (l, k) + word_of_nat off = start_addr ?m + word_of_nat (4096 * p + off)"
    by (simp add: addr_of_def p_def algebra_simps)
  then obtain ad where ad: "addr_of ?m (l, k) + word_of_nat off = ad"
    "ad = start_addr ?m + word_of_nat (4096 * p + off)" by blast
  note ao = free_array_offset [OF ok pb(1) off, folded ad(2)]
  have lw: "unat (word_of_nat l :: byte) = l" using l18 by (intro unat_word_of_nat_small) simp
  have ff: "word_of_nat l \<noteq> (0xFF :: byte)" using l18 by (intro word_level_neq_FF) simp
  have pow: "(2::nat) ^ l \<le> 2 ^ 18" using l18 by (rule power_increasing) simp
  have nz: "page_shl l \<noteq> 0" using unat_page_shl [OF l18] by auto
  have "(4096 * p + off) div (4096 * 2 ^ l) = k"
  proof -
    have "(4096 * p + off) div 4096 = p" using off by simp
    then show ?thesis by (simp only: div_mult2_eq) (simp add: p_def)
  qed
  then have bo: "int_of_qword ((ad - start_addr ?m) div page_shl l) = int k"
    using pb pow off int_of_qword_word_of_nat [OF pb(3)]
    unfolding ad(2) add_diff_cancel_left' page_shl_eq [OF l18] by (subst word_of_nat_div) simp_all
  define m1 where "m1 = ?ml\<lparr>block_index := (block_index ?m)(p := 0xFF)\<rparr>"
  obtain m2 where fb: "free_buddy_block m1 l k = (True, m2)"
  proof -
    have "m1 = ?m\<lparr>mm_spl := (mm_spl ?m)\<lparr>lock := 1\<rparr>, block_index := (block_index ?m)(k * 2 ^ l := 0xFF)\<rparr>"
      by (simp add: m1_def p_def)
    from mm_ok_erase(1) [OF ok a this refl spinlock_init_lock]
    show ?thesis using that by (cases "free_buddy_block m1 l k") auto
  qed
  have m2f: "used_size m2 = used_size ?m" "start_addr m2 = start_addr ?m"
    "smallest_block m2 = smallest_block ?m" "mm_spl m2 = (mm_spl ?m)\<lparr>lock := 1\<rparr>"
    "end_addr m2 = end_addr ?m" "block_index m2 = (block_index ?m)(k * 2 ^ l := 0xFF)"
    using free_buddy_block_frame [of m1 l k, unfolded fb] by (simp_all add: m1_def p_def)
  obtain st' where st': "set_mem_info (stat s) (used_size ?m - page_shl l) = Some st'" "stat_ok st'"
    "published_mem st' = used_size ?m - page_shl l"
    using set_mem_info_ok [OF st] by metis
  define m' where "m' = mm_unlock (m2\<lparr>used_size := used_size ?m - page_shl l\<rparr>)"
  define s' where "s' = s\<lparr>g_free_count := g_free_count s + 1, stat := st', g_free_memory := m'\<rparr>"
  have res: "az_free s ad = Some (True, s')"
    using ao nz ff kb(3) bo fb st'(1)
    by (simp add: az_free_def lk Let_def lw m2f s'_def m'_def flip: m1_def)
  have m'eq: "m' = (snd (free_buddy_block m1 l k))\<lparr>used_size := used_size ?m - page_shl l,
      mm_spl := spinlock_unlock (mm_spl m2)\<rparr>"
    by (simp add: m'_def fb mm_unlock_def)
  have m1eq: "m1 = ?m\<lparr>mm_spl := (mm_spl ?m)\<lparr>lock := 1\<rparr>, block_index := (block_index ?m)(k * 2 ^ l := 0xFF)\<rparr>"
    by (simp add: m1_def p_def)
  note R = mm_ok_erase(2,3) [OF ok a m1eq m'eq spinlock_unlock_lock]
  have "m1 = ?m\<lparr>block_index := (block_index ?m)(k * 2 ^ l := 0xFF)\<rparr>\<lparr>mm_spl := (mm_spl ?m)\<lparr>lock := 1\<rparr>\<rparr>"
    by (simp add: m1eq)
  then have "buddy_inv {(l, k)} m1"
    using alloc_blocks_erase(2) [OF i a] by (simp only: buddy_inv_update)
  then have so: "same_outside ?m m2"
    using same_outside_free_buddy_block [of l k m1] by (simp add: fb) (simp add: m1_def)
  show thesis
    by (rule that [of s']) (use res R st' m2f ad(1) so in \<open>simp_all add: s'_def m'_def mm_unlock_def\<close>)
qed

section \<open>Allocating and releasing gives back the same state\<close>

lemma buddy_inv_canonical:
  "buddy_inv {} m \<Longrightarrow> free_blocks m = maximal_blocks (free_pages m)"
  by (rule coalesced_canonical [OF tiles_free_pages buddy_invD(6)])

lemma MM_eqI:
  assumes ok: "mm_ok m" "mm_ok m'" and o: "same_outside m m'" and a: "alloc_blocks m' = alloc_blocks m"
    and f: "start_addr m' = start_addr m" "end_addr m' = end_addr m" "block_index m' = block_index m"
  shows "m' = (m :: MM)"
proof -
  have N: "max_level m' = max_level m" "smallest_block m' = smallest_block m"
    using o by (simp_all add: same_outside_def)
  then have "free_pages m' = free_pages m" by (simp add: free_pages_def alloc_pages_def pool_def a)
  then have "free_blocks m' = free_blocks m"
    by (simp add: buddy_inv_canonical mm_okD(1) [OF ok(1)] mm_okD(1) [OF ok(2)])
  then have b: "bitmap m' = bitmap m"
    using bitmap_eqI [OF o] buddy_invD(7) mm_okD(1) ok by blast
  have u: "used_size m' = used_size m"
    using mm_okD(3) [OF ok(1)] mm_okD(3) [OF ok(2)] by (simp add: alloc_pages_def a)
  have "mm_spl m' = mm_spl m" using mm_okD(6) [OF ok(1)] mm_okD(6) [OF ok(2)] by simp
  then show ?thesis using N f b u by simp
qed

lemma block_index_free_page:
  assumes i: "buddy_inv {} m" and p: "p \<in> free_pages m"
  shows "block_index m p = 0xFF"
proof (rule ccontr)
  assume "block_index m p \<noteq> 0xFF"
  then obtain l k where "(l, k) \<in> alloc_blocks m" "p = k * 2 ^ l"
    using buddy_invD(9) [OF i, of p] p by (auto simp: free_pages_def)
  then have "p \<in> alloc_pages m" unfolding alloc_pages_def by (intro UN_I [of "(l, k)"]) simp_all
  then show False using p by (simp add: free_pages_def)
qed

end
