(* ===== verification/BuddyInit.thy ===== *)
theory BuddyInit
  imports BuddyAz
begin

text \<open>
  \<^verbatim>\<open>free_mem_init\<close> establishes the allocator's invariant: the pages left above the metadata form a
  pool whose free blocks are the binary digits of their number, and the metadata fits below it.
\<close>

section \<open>The binary digits of a number tile it\<close>

definition digit_blocks :: "nat \<Rightarrow> block set" where
  "digit_blocks n = {(j, k). odd (n div 2 ^ j) \<and> k = n div 2 ^ j - 1}"

lemma div_pow_mono: "i \<le> j \<Longrightarrow> a div 2 ^ i = b div 2 ^ i \<Longrightarrow> a div 2 ^ j = b div 2 ^ j" for a b :: nat
  by (metis div_pow_le)

lemma odd_neq_pred: "odd x \<Longrightarrow> x \<noteq> x - Suc 0" for x :: nat
  by presburger

lemma odd_pred_half: "odd x \<Longrightarrow> y = x - 1 \<Longrightarrow> y div 2 = x div 2" for x y :: nat
  by presburger

lemma half_less: "y \<noteq> x \<Longrightarrow> y \<le> x \<Longrightarrow> y div 2 = x div 2 \<Longrightarrow> odd x \<and> y = x - 1" for x y :: nat
  by presburger

lemma digit_exists:
  fixes p n :: nat
  assumes "p < n"
  shows "\<exists>j. odd (n div 2 ^ j) \<and> p div 2 ^ j = n div 2 ^ j - 1"
proof -
  define d where "d = (LEAST d. p div 2 ^ d = n div 2 ^ d)"
  have "n < 2 ^ n" by (rule less_exp)
  then have "p < 2 ^ n" using assms by linarith
  with \<open>n < 2 ^ n\<close> have "p div 2 ^ n = n div 2 ^ n" by simp
  then have d: "p div 2 ^ d = n div 2 ^ d" unfolding d_def by (rule LeastI)
  then have "d \<noteq> 0" using assms by (intro notI) simp
  then obtain i where i: "d = Suc i" by (cases d) auto
  have ne: "p div 2 ^ i \<noteq> n div 2 ^ i"
    using not_less_Least [of i "\<lambda>d. p div 2 ^ d = n div 2 ^ d"] i by (auto simp: d_def)
  have le: "p div 2 ^ i \<le> n div 2 ^ i" using assms by (intro div_le_mono) simp
  have "(p div 2 ^ i) div 2 = (n div 2 ^ i) div 2" using d by (simp only: i div_pow_Suc)
  then have "odd (n div 2 ^ i) \<and> p div 2 ^ i = n div 2 ^ i - 1" by (rule half_less [OF ne le])
  then show ?thesis by blast
qed

lemma digit_above:
  fixes p n :: nat
  assumes "odd (n div 2 ^ i)" "p div 2 ^ i = n div 2 ^ i - 1" "i < j"
  shows "p div 2 ^ j = n div 2 ^ j"
proof -
  have "p div 2 ^ Suc i = n div 2 ^ Suc i"
    unfolding div_pow_Suc using assms(1,2) by (rule odd_pred_half)
  then show ?thesis using assms(3) by (intro div_pow_mono [of "Suc i" j]) simp_all
qed

lemma tiles_digit_blocks: "tiles {..<n} (digit_blocks n)"
  unfolding tiles_def
proof (intro conjI ballI)
  fix b assume "b \<in> digit_blocks n"
  then obtain j where j: "b = (j, n div 2 ^ j - 1)" "odd (n div 2 ^ j)" by (auto simp: digit_blocks_def)
  then have "0 < n div 2 ^ j" by (auto intro: Nat.gr0I)
  then show "pages b \<subseteq> {..<n}" by (simp add: j(1) pages_subset_iff)
next
  fix p assume "p \<in> {..<n}"
  then obtain j where j: "odd (n div 2 ^ j)" "p div 2 ^ j = n div 2 ^ j - 1"
    using digit_exists by auto
  show "\<exists>!b. b \<in> digit_blocks n \<and> p \<in> pages b"
  proof (rule ex1I [of _ "(j, n div 2 ^ j - 1)"])
    show "(j, n div 2 ^ j - 1) \<in> digit_blocks n \<and> p \<in> pages (j, n div 2 ^ j - 1)"
      using j by (simp add: digit_blocks_def mem_pages_iff)
  next
    fix b assume b: "b \<in> digit_blocks n \<and> p \<in> pages b"
    then obtain i where i: "b = (i, n div 2 ^ i - 1)" "odd (n div 2 ^ i)" "p div 2 ^ i = n div 2 ^ i - 1"
      by (auto simp: digit_blocks_def mem_pages_iff)
    have pos: "n div 2 ^ i \<noteq> n div 2 ^ i - 1" "n div 2 ^ j \<noteq> n div 2 ^ j - 1"
      using odd_neq_pred [OF i(2)] odd_neq_pred [OF j(1)] by simp_all
    have "\<not> i < j" using digit_above [OF i(2,3), of j] j(2) pos(2) by auto
    moreover have "\<not> j < i" using digit_above [OF j, of i] i(3) pos(1) by auto
    ultimately show "b = (j, n div 2 ^ j - 1)" using i(1) by auto
  qed
qed

lemma coalesced_digit_blocks: "coalesced (digit_blocks n)"
  unfolding coalesced_def digit_blocks_def buddy_of_def by (auto dest: odd_neq_pred)

section \<open>The bitmaps after initialisation\<close>

lemma count_levels_ge: "i \<le> count_levels n i"
  by (induction n i rule: count_levels.induct) (subst count_levels.simps, auto)

lemma count_levels_iff: "i \<le> j \<Longrightarrow> j < count_levels n i \<longleftrightarrow> 0 < n div 2 ^ j"
proof (induction n i rule: count_levels.induct)
  case (1 n i)
  show ?case
  proof (cases "0 < drop_bit i n")
    case True
    then have c: "count_levels n i = count_levels n (Suc i)" by (subst count_levels.simps) simp
    have ge: "Suc i \<le> count_levels n (Suc i)" by (rule count_levels_ge)
    show ?thesis
      using 1 True ge by (cases "j = i") (auto simp: c drop_bit_eq_div)
  next
    case False
    then have "count_levels n i = i" by (subst count_levels.simps) simp
    moreover have "n div 2 ^ j = 0"
      using False "1.prems" div_le_mono2 [of "2 ^ i" "2 ^ j" n] by (simp add: drop_bit_eq_div)
    ultimately show ?thesis using "1.prems" by simp
  qed
qed

lemma init_bitmap_bits:
  assumes "k < n"
  shows "bit (bitmap_bytes (init_bitmap b n) (k div 8)) (k mod 8) \<longleftrightarrow> odd n \<and> k = n - 1"
proof -
  define a r c d where "a = n div 8" and "r = n mod 8" and "c = k div 8" and "d = k mod 8"
  have n: "n = 8 * a + r" "r < 8" and k: "k = 8 * c + d" "d < 8"
    by (simp_all add: a_def r_def c_def d_def)
  have o: "odd n \<longleftrightarrow> odd r" "r mod 2 = 1 \<longleftrightarrow> odd r" by (simp_all add: n(1)) presburger
  have "bitmap_bytes (init_bitmap b n) c =
      (if c < a then 0 else if c = a \<and> r \<noteq> 0 then (if odd r then push_bit (r - 1) 1 else 0)
       else bitmap_bytes b c)"
    by (auto simp: init_bitmap_def odd_iff_mod_2_eq_one simp flip: a_def r_def)
  moreover have "c < a \<or> c = a \<and> d < r" using assms n k by linarith
  moreover have "r - 1 < 8" using n(2) by simp
  moreover have "k = n - 1 \<longleftrightarrow> c = a \<and> d = r - 1" if "odd r"
    using n k odd_pos [OF that] by (cases c a rule: linorder_cases) auto
  ultimately show ?thesis
    unfolding c_def [symmetric] d_def [symmetric] o(1) by (auto simp: bit_simps)
qed

lemma init_bitmap_pad:
  assumes "odd n"
  shows "\<not> bit (bitmap_bytes (init_bitmap b n) (n div 8)) (n mod 8)"
proof -
  have "n mod 8 \<noteq> 0" "n mod 8 mod 2 = 1" "n mod 8 \<noteq> n mod 8 - 1" using assms by presburger+
  then show ?thesis by (simp add: init_bitmap_def bit_simps)
qed

lemma init_bitmap_count: "bitmap_count (init_bitmap b n) = (if odd n then 1 else 0)"
proof -
  have "n mod 8 \<noteq> 0 \<and> n mod 8 mod 2 = 1 \<longleftrightarrow> odd n" by presburger
  then show ?thesis by (simp add: init_bitmap_def)
qed

text \<open>A pool of \<open>n\<close> pages with the bitmaps \<^verbatim>\<open>free_mem_init\<close> writes and a blank index array.\<close>

lemma buddy_inv_init:
  assumes N: "smallest_block m < 2 ^ 31" and L: "max_level m = count_levels (smallest_block m) 0"
    and bm: "\<And>j. j < max_level m \<Longrightarrow> \<exists>b. bitmap m j = init_bitmap b (smallest_block m div 2 ^ j)"
    and bi: "\<And>p. p < smallest_block m \<Longrightarrow> block_index m p = 0xFF"
  shows "alloc_blocks m = {}" "free_blocks m = digit_blocks (smallest_block m)" "buddy_inv {} m"
proof -
  have lev: "i < max_level m \<longleftrightarrow> 0 < nblocks m i" for i
    using count_levels_iff [of 0 i "smallest_block m"] by (simp add: L nblocks_def)
  have "\<not> 32 \<le> max_level m"
    using lev [of 31] N by (auto simp: nblocks_def)
  then have L31: "max_level m < 32" by simp
  have first: "k * 2 ^ l < smallest_block m" if "k < nblocks m l" for l k
  proof -
    have "pages (l, k) \<subseteq> {..<smallest_block m}" using that pages_in_pool [of l k m] by (simp add: pool_def)
    from subsetD [OF this first_page] show ?thesis by simp
  qed
  have no: "(l, k) \<notin> alloc_blocks m" for l k
  proof
    assume "(l, k) \<in> alloc_blocks m"
    then have h: "l < max_level m" "k < nblocks m l" "block_index m (k * 2 ^ l) = word_of_nat l"
      by (simp_all add: alloc_blocks_def)
    then show False
      using bi [OF first [OF h(2)]] word_level_neq_FF [of l] L31 by simp
  qed
  then show A: "alloc_blocks m = {}" by auto
  have rb: "raw_bit m l k \<longleftrightarrow> odd (nblocks m l) \<and> k = nblocks m l - 1"
    if "l < max_level m" "k < nblocks m l" for l k
    using bm [OF that(1)] that(2) init_bitmap_bits [of k "nblocks m l"]
    by (auto simp: raw_bit_def nblocks_def)
  show F: "free_blocks m = digit_blocks (smallest_block m)"
  proof (rule set_eqI)
    fix b :: block
    obtain l k where b: "b = (l, k)" by force
    have "odd (nblocks m l) \<Longrightarrow> 0 < nblocks m l" by (rule odd_pos)
    then show "b \<in> free_blocks m \<longleftrightarrow> b \<in> digit_blocks (smallest_block m)"
      using rb [of l k] lev [of l] by (auto simp: b free_blocks_def digit_blocks_def nblocks_def)
  qed
  have "bitmap_count (bitmap m l) = word_of_nat (card {k. (l, k) \<in> free_blocks m})"
    if l: "l < max_level m" for l
  proof -
    have "{k. (l, k) \<in> free_blocks m} = (if odd (nblocks m l) then {nblocks m l - 1} else {})"
      by (auto simp: F digit_blocks_def nblocks_def)
    then show ?thesis
      using bm [OF l] by (auto simp: init_bitmap_count nblocks_def)
  qed
  then have "counts_ok m" by (simp add: counts_ok_def)
  moreover have "\<not> raw_bit m l (nblocks m l)" if "l < max_level m" "odd (nblocks m l)" for l
    using bm [OF that(1)] that(2) init_bitmap_pad [of "nblocks m l"]
    by (auto simp: raw_bit_def nblocks_def)
  moreover have "\<forall>p\<in>pool m. block_index m p = 0xFF" using bi by (simp add: pool_def)
  ultimately show "buddy_inv {} m"
    using N lev tiles_digit_blocks [of "smallest_block m"] coalesced_digit_blocks [of "smallest_block m"]
    unfolding buddy_inv_def A F by (auto simp: pool_def)
qed

section \<open>The size of the metadata\<close>

text \<open>
  The index array, the \<^verbatim>\<open>BITMAP\<close> structures and the bitmaps of a pool of \<open>n\<close> pages, in bytes. The
  layout of \<^verbatim>\<open>free_mem_init\<close> puts them one after the other from \<open>free_mem_start\<close> on.
\<close>

definition bitmap_bytes_of :: "nat \<Rightarrow> nat \<Rightarrow> nat" where
  "bitmap_bytes_of n j = (n div 2 ^ j + 7) div 8"

definition meta_bytes :: "nat \<Rightarrow> nat" where
  "meta_bytes n = n + (\<Sum>j<count_levels n 0. 16 + bitmap_bytes_of n j)"

lemma count_levels_mono:
  assumes "a \<le> b"
  shows "count_levels a 0 \<le> count_levels b 0"
proof (rule ccontr)
  assume "\<not> ?thesis"
  then have lt: "count_levels b 0 < count_levels a 0" by simp
  then have "0 < a div 2 ^ count_levels b 0" by (simp add: count_levels_iff)
  also have "\<dots> \<le> b div 2 ^ count_levels b 0" using assms by (rule div_le_mono)
  finally show False using count_levels_iff [of 0 "count_levels b 0" b] by simp
qed

lemma meta_bytes_mono:
  assumes "a \<le> b"
  shows "meta_bytes a \<le> meta_bytes b"
proof -
  have "(\<Sum>j<count_levels a 0. 16 + bitmap_bytes_of a j) \<le> (\<Sum>j<count_levels a 0. 16 + bitmap_bytes_of b j)"
    using assms unfolding bitmap_bytes_of_def by (intro sum_mono add_mono div_le_mono) simp_all
  also have "\<dots> \<le> (\<Sum>j<count_levels b 0. 16 + bitmap_bytes_of b j)"
    using count_levels_mono [OF assms] by (intro sum_mono2) auto
  finally show ?thesis using assms by (simp add: meta_bytes_def)
qed

lemma bitmap_size_loop_eq:
  "i \<le> count_levels n 0 \<Longrightarrow>
   bitmap_size_loop n i acc = acc + word_of_nat (\<Sum>j = i..<count_levels n 0. 16 + bitmap_bytes_of n j)"
proof (induction n i acc rule: bitmap_size_loop.induct)
  case (1 n i acc)
  show ?case
  proof (cases "0 < drop_bit i n")
    case True
    then have lt: "i < count_levels n 0" by (simp add: count_levels_iff drop_bit_eq_div)
    then show ?thesis
      using 1(1) [OF True] True
      by (subst bitmap_size_loop.simps)
        (simp add: sum.atLeast_Suc_lessThan bitmap_bytes_of_def drop_bit_eq_div algebra_simps)
  next
    case False
    then have "\<not> i < count_levels n 0" by (simp add: count_levels_iff drop_bit_eq_div)
    then show ?thesis using False by (subst bitmap_size_loop.simps) simp
  qed
qed

lemma sum_div_pow: "(\<Sum>j<L. n div 2 ^ j) \<le> 2 * n" for n :: nat
proof -
  have "(\<Sum>j<L. n div 2 ^ j) + 2 * (n div 2 ^ L) \<le> 2 * n"
  proof (induction L)
    case (Suc L)
    have "2 * (n div 2 ^ Suc L) \<le> n div 2 ^ L" unfolding div_pow_Suc by simp
    then show ?case using Suc by (simp del: power_Suc)
  qed simp
  then show ?thesis by simp
qed

lemma sum_div_le: "(\<Sum>j<L. f j div (8::nat)) \<le> (\<Sum>j<L. f j) div 8" for f :: "nat \<Rightarrow> nat"
proof (induction L)
  case (Suc L)
  have "(\<Sum>j<L. f j) div 8 + f L div 8 \<le> ((\<Sum>j<L. f j) + f L) div 8" by simp
  with Suc show ?case by simp
qed simp

lemma count_levels_le: "n < 2 ^ l \<Longrightarrow> count_levels n 0 \<le> l"
  using count_levels_iff [of 0 l n] by (simp flip: not_less)

lemma meta_bytes_bound:
  assumes "n \<le> 2 ^ 30"
  shows "meta_bytes n \<le> n + n div 4 + 600"
proof -
  let ?L = "count_levels n 0"
  have L: "?L \<le> 31" using assms by (intro count_levels_le) simp
  have "(\<Sum>j<?L. bitmap_bytes_of n j) \<le> (\<Sum>j<?L. n div 2 ^ j + 7) div 8"
    unfolding bitmap_bytes_of_def by (rule sum_div_le)
  also have "\<dots> \<le> (2 * n + 7 * 31) div 8"
    using sum_div_pow [of n ?L] L by (intro div_le_mono) (simp add: sum.distrib)
  also have "\<dots> \<le> n div 4 + 28" by presburger
  finally show ?thesis using L by (simp add: meta_bytes_def sum.distrib)
qed

lemma unat_bitmap_size:
  assumes "unat sz div 4096 \<le> 2 ^ 30"
  shows "bitmap_size sz = word_of_nat ((meta_bytes (unat sz div 4096) + 4095) div 4096)"
    "(meta_bytes (unat sz div 4096) + 4095) div 4096 < 2 ^ 19 - 512"
proof -
  define n where "n = unat sz div 4096"
  have b: "meta_bytes n + 4095 < 2 ^ 31" "(meta_bytes n + 4095) div 4096 < 2 ^ 19 - 512"
    using meta_bytes_bound [of n] assms unfolding n_def [symmetric] by (simp_all add: div_less_iff_less_mult)
  have w: "unat (sz div word_of_nat PAGE_MIN_SIZE) = n"
    by (simp add: unat_div_distrib PAGE_MIN_SIZE_def n_def)
  have "(word_of_nat n + bitmap_size_loop n 0 0 + word_of_nat PAGE_MIN_SIZE - 1 :: dword) =
      word_of_nat (meta_bytes n + 4095)"
    by (simp add: bitmap_size_loop_eq meta_bytes_def PAGE_MIN_SIZE_def atLeast0LessThan algebra_simps)
  then have "bitmap_size sz = word_of_nat (meta_bytes n + 4095) div word_of_nat PAGE_MIN_SIZE"
    by (simp only: bitmap_size_def Let_def w)
  also have "\<dots> = word_of_nat ((meta_bytes n + 4095) div 4096)"
    using b(1) by (subst word_of_nat_div) (simp_all add: PAGE_MIN_SIZE_def)
  finally show "bitmap_size sz = word_of_nat ((meta_bytes (unat sz div 4096) + 4095) div 4096)"
    by (simp add: n_def)
  show "(meta_bytes (unat sz div 4096) + 4095) div 4096 < 2 ^ 19 - 512"
    using b(2) by (simp add: n_def)
qed

text \<open>Rounding up to a multiple of 512 with the mask.\<close>

lemma round_512:
  assumes "n + 511 < 2 ^ 32"
  shows "((word_of_nat n + (512 - 1)) AND NOT (512 - 1) :: dword) = word_of_nat (512 * ((n + 511) div 512))"
proof -
  have m: "(512 - 1 :: dword) = mask 9" by (simp add: mask_eq_exp_minus_1)
  have "(word_of_nat n + (512 - 1) :: dword) = word_of_nat (n + 511)" by simp
  then have "((word_of_nat n + (512 - 1)) AND NOT (512 - 1) :: dword) = word_of_nat (n + 511) AND NOT (mask 9)"
    by (simp only: m)
  also have "\<dots> = push_bit 9 (drop_bit 9 (word_of_nat (n + 511)))"
    by (rule bit_word_eqI) (auto simp: bit_simps)
  also have "\<dots> = word_of_nat (512 * ((n + 511) div 512))"
  proof -
    have "drop_bit 9 (word_of_nat (n + 511) :: dword) = word_of_nat (n + 511) div word_of_nat 512"
      by (simp add: drop_bit_eq_div)
    also have "\<dots> = word_of_nat ((n + 511) div 512)"
      using assms by (subst word_of_nat_div) simp_all
    finally show ?thesis by (simp add: push_bit_eq_mult mult.commute)
  qed
  finally show ?thesis .
qed

text \<open>Pages taken by the metadata of a region of \<open>n\<close> pages.\<close>

definition meta_pages :: "nat \<Rightarrow> nat" where
  "meta_pages n = 512 * (((meta_bytes n + 4095) div 4096 + 511) div 512)"

lemma meta_pages_fit: "meta_bytes n \<le> 4096 * meta_pages n"
proof -
  have up: "a \<le> Suc b * ((a + b) div Suc b)" for a b :: nat
    using mult_div_mod_eq [of "Suc b" "a + b"] mod_less_divisor [of "Suc b" "a + b"] by linarith
  have "meta_bytes n \<le> 4096 * ((meta_bytes n + 4095) div 4096)" using up [of _ 4095] by simp
  also have "(meta_bytes n + 4095) div 4096 \<le> meta_pages n"
    using up [of _ 511] by (simp add: meta_pages_def)
  finally show ?thesis by simp
qed

lemma meta_pages_small:
  assumes "n \<le> 2 ^ 20" "0 < n"
  shows "meta_pages n = 512"
proof -
  let ?q = "(meta_bytes n + 4095) div 4096"
  have "0 < meta_bytes n" using assms(2) by (simp add: meta_bytes_def)
  then have "1 \<le> ?q" by (simp add: less_eq_div_iff_mult_less_eq)
  moreover have "meta_bytes n + 4095 \<le> 1315415" using meta_bytes_bound [of n] assms(1) by simp
  then have "?q \<le> 321" using div_le_mono [of "meta_bytes n + 4095" 1315415 4096] by simp
  ultimately have "(?q + 511) div 512 = 1" by (intro div_nat_eqI) simp_all
  then show ?thesis by (simp add: meta_pages_def)
qed

section \<open>The pool of a region\<close>

text \<open>
  A region between two addresses that a pool can be laid out in: at most 4 TB (so that the
  32-bit arithmetic of the sizes does not wrap), with room for the metadata.
\<close>

definition span_pages :: "qword \<Rightarrow> qword \<Rightarrow> nat" where
  "span_pages st en = (unat en - unat st) div 4096"

definition span_ok :: "qword \<Rightarrow> qword \<Rightarrow> bool" where
  "span_ok st en \<longleftrightarrow> 0 < unat st \<and> unat st \<le> unat en \<and> unat en - unat st \<le> 2 ^ 42 \<and>
     meta_pages (span_pages st en) \<le> span_pages st en"

lemma init_pool_fields:
  fixes m0 :: MM
  assumes "span_ok st en"
  defines "n \<equiv> span_pages st en"
  defines "m \<equiv> init_pool st en m0"
  shows "smallest_block m = n - meta_pages n"
    "max_level m = count_levels (n - meta_pages n) 0"
    "unat (start_addr m) = unat st + 4096 * meta_pages n"
    "end_addr m = en"
    "used_size m = 0" "lock (mm_spl m) = 0"
    "j < max_level m \<Longrightarrow> bitmap m j = init_bitmap (bitmap m0 j) (smallest_block m div 2 ^ j)"
    "p < smallest_block m \<Longrightarrow> block_index m p = 0xFF"
proof -
  define sz where "sz = unat en - unat st"
  have r: "unat st \<le> unat en" "sz \<le> 2 ^ 42" "meta_pages n \<le> n"
    using assms(1) by (simp_all add: span_ok_def n_def sz_def)
  have "en - st = word_of_nat sz" using r(1) by (simp add: sz_def of_nat_diff)
  moreover have "unat (word_of_nat sz :: qword) = sz"
    using r(2) by (intro unat_word_of_nat_small) simp
  ultimately have szw: "en - st = word_of_nat sz" "unat (en - st) = sz" by simp_all
  have n: "n = sz div 4096" by (simp add: n_def span_pages_def sz_def)
  have n30: "n \<le> 2 ^ 30" using r(2) div_le_mono [of sz "2 ^ 42" 4096] by (simp add: n)
  have bp0: "bitmap_size (en - st) = word_of_nat ((meta_bytes n + 4095) div 4096)"
    "(meta_bytes n + 4095) div 4096 < 2 ^ 19 - 512"
    using unat_bitmap_size [of "en - st"] n30 by (simp_all only: szw(2) n [symmetric])
  have bp: "(bitmap_size (en - st) + (512 - 1)) AND NOT (512 - 1) = word_of_nat (meta_pages n)"
    unfolding bp0(1) meta_pages_def using bp0(2) by (intro round_512) simp
  have mp: "meta_pages n < 2 ^ 19"
    using bp0(2) unfolding meta_pages_def
    by (intro le_less_trans [OF times_div_less_eq_dividend]) simp
  have sc: "scast (word_of_nat (meta_pages n) :: dword) = (word_of_nat (meta_pages n) :: qword)"
    using mp by (intro scast_word_of_nat_small) simp
  have mul: "scast (word_of_nat (meta_pages n) * word_of_nat PAGE_MIN_SIZE :: dword) =
      (word_of_nat (4096 * meta_pages n) :: qword)"
  proof -
    have "(word_of_nat (meta_pages n) * word_of_nat PAGE_MIN_SIZE :: dword) = word_of_nat (4096 * meta_pages n)"
      by (simp add: PAGE_MIN_SIZE_def)
    moreover have "4096 * meta_pages n < 2 ^ 31" using mp by simp
    ultimately show ?thesis by (simp only: scast_word_of_nat_small)
  qed
  have "(en - st) div word_of_nat PAGE_MIN_SIZE = word_of_nat n"
    unfolding szw(1) n using r(2) by (subst word_of_nat_div) (simp_all add: PAGE_MIN_SIZE_def)
  then have "(en - st) div word_of_nat PAGE_MIN_SIZE - scast (word_of_nat (meta_pages n) :: dword) =
      word_of_nat (n - meta_pages n)"
    unfolding sc using r(3) by (simp add: of_nat_diff)
  then have blocks: "nat (int_of_qword ((en - st) div word_of_nat PAGE_MIN_SIZE -
      scast (word_of_nat (meta_pages n) :: dword))) = n - meta_pages n"
    using n30 by (simp add: int_of_qword_word_of_nat del: of_nat_diff)
  have sa: "start_addr m = st + word_of_nat (4096 * meta_pages n)"
    unfolding m_def init_pool_def Let_def bp mul by simp
  show "smallest_block m = n - meta_pages n" "max_level m = count_levels (n - meta_pages n) 0"
    "used_size m = 0" "lock (mm_spl m) = 0" "end_addr m = en"
    "j < max_level m \<Longrightarrow> bitmap m j = init_bitmap (bitmap m0 j) (smallest_block m div 2 ^ j)"
    "p < smallest_block m \<Longrightarrow> block_index m p = 0xFF"
    unfolding m_def init_pool_def Let_def bp blocks by (simp_all add: drop_bit_eq_div)
  have "4096 * n \<le> unat en - unat st" by (simp add: n_def span_pages_def)
  then have "unat st + 4096 * meta_pages n \<le> unat en" using r(1,3) by linarith
  then have lt: "unat st + 4096 * meta_pages n < 2 ^ LENGTH(64)" using unat_qword_less [of en] by simp
  have "start_addr m = word_of_nat (unat st + 4096 * meta_pages n)" by (simp add: sa)
  then show "unat (start_addr m) = unat st + 4096 * meta_pages n"
    using unat_word_of_nat_small [OF lt] by simp
qed

lemma init_pool_ok:
  fixes m0 :: MM
  assumes "span_ok st en"
  defines "m \<equiv> init_pool st en m0"
  shows "mm_ok m" "alloc_blocks m = {}" "free_blocks m = digit_blocks (smallest_block m)"
    "unat st + meta_bytes (smallest_block m) \<le> unat (start_addr m)"
proof -
  note f = init_pool_fields [OF assms(1), where ?m0.0 = m0, folded m_def]
  let ?n = "span_pages st en"
  have sp: "unat st \<le> unat en" "0 < unat st" "meta_pages ?n \<le> ?n" "?n \<le> 2 ^ 30"
    using assms(1) div_le_mono [of "unat en - unat st" "2 ^ 42" 4096]
    by (auto simp: span_ok_def span_pages_def)
  have N: "smallest_block m < 2 ^ 31" using sp(4) by (simp add: f(1))
  have bm: "\<exists>b. bitmap m j = init_bitmap b (smallest_block m div 2 ^ j)" if "j < max_level m" for j
    using f(7) [OF that] by blast
  note I = buddy_inv_init [OF N _ bm f(8)]
  show A: "alloc_blocks m = {}" and "free_blocks m = digit_blocks (smallest_block m)"
    using I(1,2) f(1,2) by auto
  have "4096 * ?n \<le> unat en - unat st" by (simp add: span_pages_def)
  then have "4096 * ?n + unat st \<le> unat en" using sp(1) by linarith
  then have "unat (start_addr m) + 4096 * smallest_block m \<le> unat (end_addr m)"
    using sp(3) unfolding f(1,3,4) by (simp add: diff_mult_distrib2)
  moreover have "0 < start_addr m"
    using f(3) sp(2) unfolding word_less_nat_alt by simp
  ultimately show "mm_ok m"
    using I(3) f(1,2,5,6) A by (simp add: mm_ok_def alloc_pages_def)
  have "meta_bytes (?n - meta_pages ?n) \<le> 4096 * meta_pages ?n"
    using meta_bytes_mono [of "?n - meta_pages ?n" ?n] meta_pages_fit [of ?n] by simp
  then show "unat st + meta_bytes (smallest_block m) \<le> unat (start_addr m)"
    by (simp only: f(1,3))
qed

section \<open>free_mem_init\<close>

text \<open>The pages of the region above the kernel, and what the boot loader provides.\<close>

definition region_pages :: "qword \<Rightarrow> qword \<Rightarrow> nat" where
  "region_pages g_start g_end = (unat g_end - unat g_start - 2 ^ 30) div 4096"

definition region_ok :: "qword \<Rightarrow> qword \<Rightarrow> bool" where
  "region_ok g_start g_end \<longleftrightarrow>
     unat g_start + 2 ^ 30 \<le> unat g_end \<and> unat g_end - unat g_start - 2 ^ 30 \<le> 2 ^ 42 \<and>
     meta_pages (region_pages g_start g_end) \<le> region_pages g_start g_end"

lemma region_span:
  assumes "region_ok gs ge"
  shows "span_ok (va gs (gs + CONFIG_KERNEL_SIZE)) (va gs ge)"
    "span_pages (va gs (gs + CONFIG_KERNEL_SIZE)) (va gs ge) = region_pages gs ge"
proof -
  have r: "unat gs + 2 ^ 30 \<le> unat ge" "unat ge - unat gs - 2 ^ 30 \<le> 2 ^ 42"
    using assms by (simp_all add: region_ok_def)
  have st: "unat (va gs (gs + CONFIG_KERNEL_SIZE)) = unat PAGE_OFFSET + 2 ^ 30"
    by (simp add: va_def CONFIG_KERNEL_SIZE_def PAGE_OFFSET_def)
  have "va gs ge = word_of_nat (unat PAGE_OFFSET + (unat ge - unat gs))"
    using r(1) by (simp add: va_def of_nat_diff)
  moreover have "unat ge - unat gs \<le> 2 ^ 42 + 2 ^ 30" using r by simp
  then have "unat PAGE_OFFSET + (unat ge - unat gs) < 2 ^ LENGTH(64)" by (simp add: PAGE_OFFSET_def)
  ultimately have en: "unat (va gs ge) = unat PAGE_OFFSET + (unat ge - unat gs)"
    by (simp only: unat_word_of_nat_small)
  show p: "span_pages (va gs (gs + CONFIG_KERNEL_SIZE)) (va gs ge) = region_pages gs ge"
    by (simp add: span_pages_def st en region_pages_def)
  show "span_ok (va gs (gs + CONFIG_KERNEL_SIZE)) (va gs ge)"
    unfolding span_ok_def p st en
  proof (intro conjI)
    show "unat PAGE_OFFSET + 2 ^ 30 \<le> unat PAGE_OFFSET + (unat ge - unat gs)" using r(1) by linarith
    show "unat PAGE_OFFSET + (unat ge - unat gs) - (unat PAGE_OFFSET + 2 ^ 30) \<le> 2 ^ 42" using r(2) by simp
  qed (use assms in \<open>simp_all add: region_ok_def\<close>)
qed

lemma free_mem_init_memory:
  "g_free_memory (free_mem_init gs ge s) =
     init_pool (va gs (gs + CONFIG_KERNEL_SIZE)) (va gs ge) (g_free_memory s)"
  by (simp add: free_mem_init_def Let_def)

lemma free_mem_init_ok:
  assumes "region_ok gs ge"
  shows "mm_ok (g_free_memory (free_mem_init gs ge s))"
    "alloc_blocks (g_free_memory (free_mem_init gs ge s)) = {}"
    "free_blocks (g_free_memory (free_mem_init gs ge s)) =
      digit_blocks (smallest_block (g_free_memory (free_mem_init gs ge s)))"
    "unat (va gs (gs + CONFIG_KERNEL_SIZE)) +
      meta_bytes (smallest_block (g_free_memory (free_mem_init gs ge s))) \<le>
      unat (start_addr (g_free_memory (free_mem_init gs ge s)))"
    "smallest_block (g_free_memory (free_mem_init gs ge s)) =
      region_pages gs ge - meta_pages (region_pages gs ge)"
  using init_pool_ok [OF region_span(1) [OF assms]] init_pool_fields(1) [OF region_span(1) [OF assms]]
  by (simp_all only: free_mem_init_memory region_span(2) [OF assms])

end
