(* ===== verification/Allocator.thy ===== *)
theory Allocator
  imports Utility
begin

text \<open>
  What the kernel relies on when it calls \<^verbatim>\<open>az_alloc\<close>/\<^verbatim>\<open>az_free\<close> (and the shared-memory library when
  it calls \<^verbatim>\<open>shm_alloc\<close>/\<^verbatim>\<open>shm_free\<close>): calls return, a block handed out is disjoint from every live
  block and zeroed, releasing a live block succeeds. The clients' lemmas are proved once from
  these laws, for any interleaving of allocations, releases and writes.
\<close>

type_synonym region = "qword \<times> nat"

definition in_region :: "qword \<Rightarrow> region \<Rightarrow> bool" where
  "in_region x r = in_range x (fst r) (snd r)"

definition disjoint_regions :: "region \<Rightarrow> region \<Rightarrow> bool" where
  "disjoint_regions a b \<longleftrightarrow> (\<forall>x. \<not> (in_region x a \<and> in_region x b))"

text \<open>
  The clients of an allocator: requests of at most 1 GB, releases of live blocks outside \<open>K\<close>, and
  writes into live blocks outside \<open>K\<close>, in any order. \<open>K\<close> are the blocks of the client whose view
  is taken.
\<close>

inductive client_steps for alloc free live memof setmem K s where
  start: "client_steps alloc free live memof setmem K s s"
| alloc: "client_steps alloc free live memof setmem K s s1 \<Longrightarrow> unat sz \<le> 2 ^ 30 \<Longrightarrow>
    alloc s1 sz = Some (r, s2) \<Longrightarrow> client_steps alloc free live memof setmem K s s2"
| release: "client_steps alloc free live memof setmem K s s1 \<Longrightarrow> (r, n) \<in> live s1 - K \<Longrightarrow>
    free s1 r = Some (b, s2) \<Longrightarrow> client_steps alloc free live memof setmem K s s2"
| store: "client_steps alloc free live memof setmem K s s1 \<Longrightarrow> r \<in> live s1 - K \<Longrightarrow> in_region x r \<Longrightarrow>
    client_steps alloc free live memof setmem K s (setmem ((memof s1)(x := v)) s1)"

locale pool_allocator =
  fixes alloc :: "'s \<Rightarrow> qword \<Rightarrow> (qword \<times> 's) option"
    and free :: "'s \<Rightarrow> qword \<Rightarrow> (bool \<times> 's) option"
    and ok :: "'s \<Rightarrow> bool"
    and live :: "'s \<Rightarrow> region set"
    and memof :: "'s \<Rightarrow> memory"
    and setmem :: "memory \<Rightarrow> 's \<Rightarrow> 's"
  assumes alloc_law: "ok s \<Longrightarrow> unat sz \<le> 2 ^ 30 \<Longrightarrow>
      \<exists>r s'. alloc s sz = Some (r, s') \<and> ok s' \<and>
        (r = 0 \<and> s' = s \<or>
         r \<noteq> 0 \<and> (\<exists>n\<ge>unat sz. (r, n) \<notin> live s \<and> live s' = insert (r, n) (live s) \<and>
           memof s' = (\<lambda>x. if in_region x (r, n) then 0 else memof s x)))"
    and free_law: "ok s \<Longrightarrow> (r, n) \<in> live s \<Longrightarrow>
      \<exists>s'. free s r = Some (True, s') \<and> ok s' \<and> live s' = live s - {(r, n)} \<and> memof s' = memof s"
    and live_disjoint: "ok s \<Longrightarrow> a \<in> live s \<Longrightarrow> b \<in> live s \<Longrightarrow> a \<noteq> b \<Longrightarrow> disjoint_regions a b"
    and setmem_law: "ok (setmem M s) = ok s" "live (setmem M s) = live s" "memof (setmem M s) = M"
begin

lemma alloc_cases:
  assumes "ok s" "unat sz \<le> 2 ^ 30" "alloc s sz = Some (r, s')"
  obtains "r = 0" "s' = s"
  | n where "r \<noteq> 0" "unat sz \<le> n" "(r, n) \<notin> live s" "live s' = insert (r, n) (live s)" "ok s'"
      "memof s' = (\<lambda>x. if in_region x (r, n) then 0 else memof s x)"
  using alloc_law [OF assms(1,2)] assms(3) by auto

lemma steps_ok:
  assumes "client_steps alloc free live memof setmem K s s'" "ok s"
  shows "ok s'"
  using assms
proof (induction rule: client_steps.induct)
  case (alloc s1 sz r s2)
  then show ?case using alloc_law [of s1 sz] by auto
next
  case (release s1 r n b s2)
  then show ?case using free_law [of s1 r n] by auto
qed (simp_all add: setmem_law)

text \<open>The blocks of \<open>K\<close> stay live and keep their contents, whatever the other clients do.\<close>

lemma steps_keep:
  assumes "client_steps alloc free live memof setmem K s s'" "ok s" "K \<subseteq> live s"
  shows "K \<subseteq> live s' \<and> (\<forall>r\<in>K. \<forall>x. in_region x r \<longrightarrow> memof s' x = memof s x)"
  using assms
proof (induction rule: client_steps.induct)
  case (alloc s1 sz r s2)
  have ok1: "ok s1" using steps_ok alloc by blast
  show ?case
  proof (cases rule: alloc_cases [OF ok1 alloc.hyps(2,3)])
    case 1
    then show ?thesis using alloc by simp
  next
    case (2 n)
    have "\<not> in_region x (r, n)" if "k \<in> K" "in_region x k" for k x
      using live_disjoint [OF 2(5), of k "(r, n)"] that alloc 2(3,4)
      by (auto simp: disjoint_regions_def)
    then show ?thesis using alloc 2 by auto
  qed
next
  case (release s1 r n b s2)
  have "ok s1" using steps_ok release by blast
  then show ?case using free_law [of s1 r n] release by auto
next
  case (store s1 r x v)
  have "ok s1" using steps_ok store by blast
  then have "\<not> in_region x k" if "k \<in> K" for k
    using live_disjoint [of s1 k r] that store by (auto simp: disjoint_regions_def)
  then show ?case using store by (auto simp: setmem_law)
qed (use assms in simp_all)

text \<open>No reachable state is stuck: requests return, and live blocks can be released.\<close>

lemma steps_progress:
  assumes "client_steps alloc free live memof setmem K s s'" "ok s"
  shows "unat sz \<le> 2 ^ 30 \<Longrightarrow> alloc s' sz \<noteq> None" "(r, n) \<in> live s' \<Longrightarrow> \<exists>s''. free s' r = Some (True, s'')"
  using alloc_law [OF steps_ok [OF assms], of sz] free_law [OF steps_ok [OF assms], of r n] by auto

lemma steps_disjoint:
  assumes "client_steps alloc free live memof setmem K s s'" "ok s"
  shows "a \<in> live s' \<Longrightarrow> b \<in> live s' \<Longrightarrow> a \<noteq> b \<Longrightarrow> disjoint_regions a b"
  by (rule live_disjoint [OF steps_ok [OF assms]])

end

end
