(* ===== verification/Memory.thy ===== *)
theory Memory
  imports BuddyInit Allocator
begin

text \<open>
  The properties of \<^verbatim>\<open>kernel/memory.c\<close>: \<^verbatim>\<open>az_alloc\<close> and \<^verbatim>\<open>az_free\<close> implement the allocator interface,
  the contract of both on every branch, and what \<^verbatim>\<open>free_mem_init\<close> and the break calls do.
\<close>

section \<open>The allocator interface\<close>

definition kernel_ok :: "mem_state \<Rightarrow> bool" where
  "kernel_ok s \<longleftrightarrow> mm_ok (g_free_memory s) \<and> stat_ok (stat s)"

definition block_region :: "MM \<Rightarrow> block \<Rightarrow> region" where
  "block_region m b = (addr_of m b, 4096 * 2 ^ fst b)"

definition kernel_live :: "mem_state \<Rightarrow> region set" where
  "kernel_live s = block_region (g_free_memory s) ` alloc_blocks (g_free_memory s)"

definition set_mem :: "memory \<Rightarrow> mem_state \<Rightarrow> mem_state" where
  "set_mem M s = s\<lparr>mem := M\<rparr>"

lemma in_block_region:
  assumes ok: "mm_ok m" and b: "k < nblocks m l"
  shows "in_region x (block_region m (l, k)) \<longleftrightarrow>
    unat (start_addr m) \<le> unat x \<and> (unat x - unat (start_addr m)) div 4096 \<in> pages (l, k)"
proof -
  note a = unat_addr_of [OF ok b]
  define c where "c = k * 2 ^ l"
  define w where "w = (2::nat) ^ l"
  have a1: "unat (addr_of m (l, k)) = unat (start_addr m) + 4096 * c"
    and a2: "unat (start_addr m) + 4096 * c + 4096 * w \<le> unat (end_addr m)"
    using a by (simp_all add: c_def w_def)
  have e: "unat (end_addr m) < 2 ^ 64" by (rule unat_qword_less)
  have pg: "p \<in> pages (l, k) \<longleftrightarrow> c \<le> p \<and> p < c + w" for p
    by (auto simp: pages_def block_pages_def c_def w_def algebra_simps)
  show ?thesis
  proof (cases "unat (addr_of m (l, k)) \<le> unat x")
    case True
    then have "unat (x - addr_of m (l, k)) = unat x - unat (addr_of m (l, k))"
      by (intro unat_sub) (simp add: word_le_nat_alt)
    then have "in_region x (block_region m (l, k)) \<longleftrightarrow> unat x - (unat (start_addr m) + 4096 * c) < 4096 * w"
      by (simp add: in_region_def block_region_def in_range_def a1 w_def)
    also have "\<dots> \<longleftrightarrow> c \<le> (unat x - unat (start_addr m)) div 4096 \<and> (unat x - unat (start_addr m)) div 4096 < c + w"
      using True unfolding a1 by (auto simp: div_less_iff_less_mult less_eq_div_iff_mult_less_eq)
    finally show ?thesis using True unfolding a1 pg by auto
  next
    case False
    then have x: "x < addr_of m (l, k)" by (simp add: word_less_nat_alt)
    have "unat (x - addr_of m (l, k)) = 2 ^ 64 + unat x - unat (addr_of m (l, k))"
      using x by (subst unat_sub_if') (simp add: word_less_nat_alt)
    then have "\<not> in_region x (block_region m (l, k))"
      using a1 a2 e False by (simp add: in_region_def block_region_def in_range_def w_def [symmetric])
    moreover have "\<not> c \<le> (unat x - unat (start_addr m)) div 4096 \<or> unat x < unat (start_addr m)"
      using False unfolding a1 by (auto simp: less_eq_div_iff_mult_less_eq)
    ultimately show ?thesis unfolding pg by auto
  qed
qed

lemma alloc_block_range: "b \<in> alloc_blocks m \<Longrightarrow> snd b < nblocks m (fst b)"
  by (auto simp: alloc_blocks_def)

lemma block_regions_disjoint:
  assumes ok: "mm_ok m" and b: "b \<in> alloc_blocks m" "b' \<in> alloc_blocks m" "b \<noteq> b'"
  shows "disjoint_regions (block_region m b) (block_region m b')"
proof -
  have "pages b \<inter> pages b' = {}"
    using tilesD_disjoint [OF buddy_invD(3) [OF mm_okD(1) [OF ok]], of b b'] b by auto
  then show ?thesis
    using in_block_region [OF ok, of "snd b" "fst b"] in_block_region [OF ok, of "snd b'" "fst b'"]
      alloc_block_range b(1,2) unfolding disjoint_regions_def by auto
qed

lemma block_region_inj:
  assumes ok: "mm_ok m" and b: "snd b < nblocks m (fst b)" "snd b' < nblocks m (fst b')"
    and eq: "block_region m b = block_region m b'"
  shows "b = b'"
proof -
  obtain l k l' k' where bs: "b = (l, k)" "b' = (l', k')" by force
  have "(2::nat) ^ l = 2 ^ l'" using eq by (simp add: block_region_def bs)
  then have l: "l' = l" by simp
  have "unat (addr_of m (l, k)) = unat (addr_of m (l, k'))" using eq by (simp add: block_region_def bs l)
  then have "k * 2 ^ l = k' * 2 ^ l" using unat_addr_of(1) [OF ok] b by (simp add: bs l)
  then show ?thesis by (simp add: bs l)
qed

lemma block_region_inj_on: "mm_ok m \<Longrightarrow> inj_on (block_region m) (alloc_blocks m)"
  by (intro inj_onI block_region_inj alloc_block_range)

lemma addr_of_nonzero:
  assumes "mm_ok m" "k < nblocks m l"
  shows "addr_of m (l, k) \<noteq> 0"
  using unat_addr_of(1) [OF assms] mm_okD(4) [OF assms(1)] by (auto simp: word_less_nat_alt)

lemma pages_free_range: "pages (l, k) \<subseteq> free_pages m \<Longrightarrow> k < nblocks m l"
  using pages_in_pool [of l k m] by (auto simp: free_pages_def)

lemma fresh_block:
  assumes "pages b \<subseteq> free_pages m"
  shows "b \<notin> alloc_blocks m"
  using assms pages_nonempty [of b] by (auto simp: free_pages_def alloc_pages_def)

lemma block_region_cong: "start_addr m' = start_addr m \<Longrightarrow> block_region m' = block_region m"
  by (simp add: block_region_def addr_of_def fun_eq_iff)

lemma az_alloc_law:
  assumes "kernel_ok s" "unat sz \<le> 2 ^ 30"
  shows "\<exists>r s'. az_alloc s sz = Some (r, s') \<and> kernel_ok s' \<and>
    (r = 0 \<and> s' = s \<or>
     r \<noteq> 0 \<and> (\<exists>n\<ge>unat sz. (r, n) \<notin> kernel_live s \<and> kernel_live s' = insert (r, n) (kernel_live s) \<and>
       mem s' = (\<lambda>x. if in_region x (r, n) then 0 else mem s x)))"
proof (cases "\<exists>k. pages (level_for sz, k) \<subseteq> free_pages (g_free_memory s)")
  case False
  then show ?thesis using az_alloc_fails assms by (auto simp: kernel_ok_def)
next
  case True
  let ?m = "g_free_memory s" and ?l = "level_for sz"
  have ok: "mm_ok ?m" "stat_ok (stat s)" using assms(1) by (simp_all add: kernel_ok_def)
  obtain k s' where r: "az_alloc s sz = Some (addr_of ?m (?l, k), s')" "pages (?l, k) \<subseteq> free_pages ?m"
    "alloc_blocks (g_free_memory s') = insert (?l, k) (alloc_blocks ?m)" "mm_ok (g_free_memory s')"
    "stat_ok (stat s')" "start_addr (g_free_memory s') = start_addr ?m"
    "mem s' = (\<lambda>x. if in_range x (addr_of ?m (?l, k)) (4096 * 2 ^ ?l) then 0 else mem s x)"
    using True by (elim exE) (rule az_alloc_succeeds [OF ok assms(2)]; assumption?; rule that; assumption)
  have k: "k < nblocks ?m ?l" using r(2) by (rule pages_free_range)
  have "block_region ?m (?l, k) \<notin> kernel_live s"
  proof
    assume "block_region ?m (?l, k) \<in> kernel_live s"
    then obtain b where b: "b \<in> alloc_blocks ?m" "block_region ?m (?l, k) = block_region ?m b"
      unfolding kernel_live_def by blast
    then have "(?l, k) = b"
      using block_region_inj [OF ok(1) _ alloc_block_range [OF b(1)] b(2)] k by simp
    then show False using fresh_block [OF r(2)] b(1) by simp
  qed
  moreover have "kernel_live s' = insert (block_region ?m (?l, k)) (kernel_live s)"
    by (simp add: kernel_live_def r(3) block_region_cong [OF r(6)])
  ultimately show ?thesis
    using r(1,4,5,7) addr_of_nonzero [OF ok(1) k] level_for_bound(2) [OF assms(2)]
    by (auto simp: kernel_ok_def block_region_def in_region_def)
qed

lemma az_free_law:
  assumes "kernel_ok s" "(r, n) \<in> kernel_live s"
  shows "\<exists>s'. az_free s r = Some (True, s') \<and> kernel_ok s' \<and> kernel_live s' = kernel_live s - {(r, n)} \<and>
    mem s' = mem s"
proof -
  let ?m = "g_free_memory s"
  have ok: "mm_ok ?m" "stat_ok (stat s)" using assms(1) by (simp_all add: kernel_ok_def)
  obtain l k where a: "(l, k) \<in> alloc_blocks ?m" "(r, n) = block_region ?m (l, k)"
    using assms(2) unfolding kernel_live_def by force
  obtain s' where s': "az_free s (addr_of ?m (l, k) + word_of_nat 0) = Some (True, s')"
    "alloc_blocks (g_free_memory s') = alloc_blocks ?m - {(l, k)}" "mm_ok (g_free_memory s')"
    "stat_ok (stat s')" "start_addr (g_free_memory s') = start_addr ?m" "mem s' = mem s"
    by (rule az_free_succeeds [OF ok a(1), of 0], simp, rule that)
  have "block_region ?m ` (alloc_blocks ?m - {(l, k)}) = kernel_live s - {(r, n)}"
    unfolding kernel_live_def a(2)
    using inj_on_image_set_diff [OF block_region_inj_on [OF ok(1)], of "alloc_blocks ?m" "{(l, k)}"] a(1)
    by auto
  then have "kernel_live s' = kernel_live s - {(r, n)}"
    unfolding kernel_live_def [of s'] s'(2) block_region_cong [OF s'(5)] .
  moreover have "r = addr_of ?m (l, k)" using a(2) by (simp add: block_region_def)
  ultimately show ?thesis using s'(1,3,4,6) by (simp add: kernel_ok_def)
qed

interpretation kmem: pool_allocator az_alloc az_free kernel_ok kernel_live mem set_mem
proof
  show "disjoint_regions a b" if "kernel_ok s" "a \<in> kernel_live s" "b \<in> kernel_live s" "a \<noteq> b" for s a b
    using that block_regions_disjoint [of "g_free_memory s"] by (auto simp: kernel_ok_def kernel_live_def)
qed (simp_all only: az_alloc_law az_free_law,
     simp_all add: kernel_ok_def kernel_live_def set_mem_def)

section \<open>Concrete states for the witnesses\<close>

text \<open>A zeroed machine whose loader reports 1 GB of kernel memory and 16 MB above it.\<close>

definition blank_stat :: stat_state where
  "blank_stat =
     \<lparr>g_ukid = 0,
      g_stat_area = \<lparr>core_used = (\<lambda>_. 0), core_load = (\<lambda>_. 0), memory_used = (\<lambda>_. 0),
        unikernel_cnt = 0,
        ukernel = (\<lambda>_. \<lparr>used = 0, uk_name = [], total_core_num = 0, core = (\<lambda>_. 0), mem_size = 0,
          mem_start = 0, mem_used = 0, start_time = 0\<rparr>)\<rparr>,
      stat_lock = \<lparr>lock = 0\<rparr>\<rparr>"

definition blank_mem :: mem_state where
  "blank_mem =
     \<lparr>g_free_memory = \<lparr>max_level = 0, smallest_block = 0, used_size = 0, start_addr = 0, end_addr = 0,
        block_index = (\<lambda>_. 0), bitmap = (\<lambda>_. \<lparr>bitmap_bytes = (\<lambda>_. 0), bitmap_count = 0\<rparr>),
        mm_spl = \<lparr>lock = 0\<rparr>\<rparr>,
      g_alloc_count = 0, g_free_count = 0, heap_end = 0, heap_lock = \<lparr>lock = 0\<rparr>, mem = (\<lambda>_. 0),
      stat = blank_stat\<rparr>"

definition booted :: mem_state where
  "booted = free_mem_init 0x100000000 0x141000000 blank_mem"

lemma booted_region: "region_pages 0x100000000 0x141000000 = 4096"
  by (simp add: region_pages_def)

lemma booted_region_ok: "region_ok 0x100000000 0x141000000"
  by (simp add: region_ok_def booted_region meta_pages_small)

lemma blank_stat_ok: "stat_ok blank_stat"
  by (simp add: stat_ok_def blank_stat_def)

lemma free_mem_init_stat [simp]: "stat (free_mem_init gs ge s) = stat s"
  by (simp add: free_mem_init_def Let_def)

lemma booted_ok: "kernel_ok booted"
  using free_mem_init_ok(1) [OF booted_region_ok, where s = blank_mem] blank_stat_ok
  by (simp add: kernel_ok_def booted_def blank_mem_def)

lemma booted_blocks: "smallest_block (g_free_memory booted) = 3584" "alloc_blocks (g_free_memory booted) = {}"
  using free_mem_init_ok(5) [OF booted_region_ok, where s = blank_mem]
    free_mem_init_ok(2) [OF booted_region_ok, where s = blank_mem]
  by (simp_all add: booted_def booted_region meta_pages_small)

lemma booted_free_pages: "free_pages (g_free_memory booted) = {..<3584}"
  by (simp add: free_pages_def alloc_pages_def booted_blocks pool_def)

lemma level_for_5000: "level_for 5000 = 1"
  by code_simp

lemma booted_alloc:
  obtains k s' where "az_alloc booted 5000 = Some (addr_of (g_free_memory booted) (1, k), s')"
    "addr_of (g_free_memory booted) (1, k) \<noteq> 0" "kernel_ok s'"
    "alloc_blocks (g_free_memory s') = {(1, k)}" "start_addr (g_free_memory s') = start_addr (g_free_memory booted)"
proof -
  have ok: "mm_ok (g_free_memory booted)" "stat_ok (stat booted)" using booted_ok by (simp_all add: kernel_ok_def)
  have sz: "unat (5000 :: qword) \<le> 2 ^ 30" by simp
  have j: "pages (level_for 5000, 0) \<subseteq> free_pages (g_free_memory booted)"
    by (simp add: level_for_5000 booted_free_pages pages_subset_iff)
  let ?m = "g_free_memory booted"
  obtain k s' where A: "az_alloc booted 5000 = Some (addr_of ?m (level_for 5000, k), s')"
    "pages (level_for 5000, k) \<subseteq> free_pages ?m"
    "alloc_blocks (g_free_memory s') = insert (level_for 5000, k) (alloc_blocks ?m)"
    "mm_ok (g_free_memory s')" "stat_ok (stat s')" "start_addr (g_free_memory s') = start_addr ?m"
    by (rule az_alloc_succeeds [OF ok sz j]; rule that; assumption)
  show thesis
    by (rule that [of k s'])
      (use A addr_of_nonzero [OF ok(1) pages_free_range [OF A(2)]] in
        \<open>simp_all add: level_for_5000 booted_blocks kernel_ok_def\<close>)
qed

section \<open>Properties\<close>

text \<open>C1. Contract of \<^verbatim>\<open>az_alloc\<close> for requests of at most 1 GB. The request is rounded up to the
  smallest level that holds it. If the pool has an aligned run of free pages of that size, the
  call returns such a run: it becomes allocated, exactly its bytes are zeroed, the invariant
  holds again (lock released, counts right) and the new use is published. Otherwise the call
  returns NULL and changes nothing. In particular fragmentation below the buddy limit, the
  bitmap search and the space check never turn away a request that fits.\<close>

theorem az_alloc_correct:
  assumes "kernel_ok s" "unat sz \<le> 2 ^ 30"
  shows "if \<exists>k. pages (level_for sz, k) \<subseteq> free_pages (g_free_memory s)
    then \<exists>k s'. az_alloc s sz = Some (addr_of (g_free_memory s) (level_for sz, k), s') \<and>
        pages (level_for sz, k) \<subseteq> free_pages (g_free_memory s) \<and>
        addr_of (g_free_memory s) (level_for sz, k) \<noteq> 0 \<and>
        alloc_blocks (g_free_memory s') = insert (level_for sz, k) (alloc_blocks (g_free_memory s)) \<and>
        kernel_ok s' \<and>
        mem s' = (\<lambda>x. if in_region x (block_region (g_free_memory s) (level_for sz, k)) then 0 else mem s x) \<and>
        published_mem (stat s') = used_size (g_free_memory s')
    else az_alloc s sz = Some (0, s)"
proof (cases "\<exists>k. pages (level_for sz, k) \<subseteq> free_pages (g_free_memory s)")
  case False
  then show ?thesis using az_alloc_fails assms by (auto simp: kernel_ok_def)
next
  case True
  have ok: "mm_ok (g_free_memory s)" "stat_ok (stat s)" using assms(1) by (simp_all add: kernel_ok_def)
  from True obtain j where j: "pages (level_for sz, j) \<subseteq> free_pages (g_free_memory s)" ..
  show ?thesis
    by (rule az_alloc_succeeds [OF ok assms(2) j])
      (use True in \<open>auto simp: kernel_ok_def block_region_def in_region_def
        intro!: exI addr_of_nonzero [OF ok(1)] pages_free_range\<close>)
qed

theorem az_alloc_correct_witness:
  "kernel_ok booted \<and> (\<exists>k s'. az_alloc booted 5000 = Some (addr_of (g_free_memory booted) (1, k), s') \<and>
     kernel_ok s' \<and> alloc_blocks (g_free_memory s') = {(1, k)})"
proof -
  have "pages (1, 0) \<subseteq> free_pages (g_free_memory booted)"
    by (simp add: booted_free_pages pages_subset_iff)
  then have "\<exists>k. pages (1, k) \<subseteq> free_pages (g_free_memory booted)" ..
  then show ?thesis
    using az_alloc_correct [of booted 5000] booted_ok by (auto simp: level_for_5000 booted_blocks)
qed

text \<open>C2. Contract of \<^verbatim>\<open>az_free\<close> on every branch: an address in the first page of an allocated
  block releases exactly that block and merges it with its free buddies (the invariant, which
  includes full merging, holds again); any other address of the pool, and NULL, is refused and
  nothing changes.\<close>

theorem az_free_correct:
  assumes "kernel_ok s"
  shows "(\<forall>l k off. (l, k) \<in> alloc_blocks (g_free_memory s) \<longrightarrow> off < 4096 \<longrightarrow>
      (\<exists>s'. az_free s (addr_of (g_free_memory s) (l, k) + word_of_nat off) = Some (True, s') \<and>
         alloc_blocks (g_free_memory s') = alloc_blocks (g_free_memory s) - {(l, k)} \<and>
         kernel_ok s' \<and> mem s' = mem s \<and> published_mem (stat s') = used_size (g_free_memory s'))) \<and>
    (\<forall>p off. p < smallest_block (g_free_memory s) \<longrightarrow> off < 4096 \<longrightarrow>
      (\<nexists>l k. (l, k) \<in> alloc_blocks (g_free_memory s) \<and> p = k * 2 ^ l) \<longrightarrow>
      az_free s (start_addr (g_free_memory s) + word_of_nat (4096 * p + off)) = Some (False, s)) \<and>
    az_free s 0 = Some (False, s)"
proof (intro conjI allI impI)
  have ok: "mm_ok (g_free_memory s)" "stat_ok (stat s)" using assms by (simp_all add: kernel_ok_def)
  show "az_free s 0 = Some (False, s)" by (rule az_free_NULL [OF ok(1)])
  show "az_free s (start_addr (g_free_memory s) + word_of_nat (4096 * p + off)) = Some (False, s)"
    if "p < smallest_block (g_free_memory s)" "off < 4096"
      "\<nexists>l k. (l, k) \<in> alloc_blocks (g_free_memory s) \<and> p = k * 2 ^ l" for p off
    by (rule az_free_refuses [OF ok(1) that])
  show "\<exists>s'. az_free s (addr_of (g_free_memory s) (l, k) + word_of_nat off) = Some (True, s') \<and>
      alloc_blocks (g_free_memory s') = alloc_blocks (g_free_memory s) - {(l, k)} \<and>
      kernel_ok s' \<and> mem s' = mem s \<and> published_mem (stat s') = used_size (g_free_memory s')"
    if "(l, k) \<in> alloc_blocks (g_free_memory s)" "off < 4096" for l k off
    by (rule az_free_succeeds [OF ok that]) (auto simp: kernel_ok_def intro!: exI)
qed

theorem az_free_correct_witness:
  "kernel_ok booted \<and> az_free booted 0 = Some (False, booted) \<and>
   az_free booted (start_addr (g_free_memory booted) + word_of_nat (4096 * 7 + 12)) = Some (False, booted)"
  using az_free_correct [OF booted_ok, THEN conjunct2, THEN conjunct1, rule_format, of 7 12]
    az_free_correct [OF booted_ok, THEN conjunct2, THEN conjunct2] booted_ok
  by (simp add: booted_blocks)



text \<open>C4. Allocating a block and releasing it gives back the allocator's metadata bit for bit:
  the merge loop undoes exactly what the split loop did.\<close>

theorem az_alloc_free_roundtrip:
  assumes "kernel_ok s" "unat sz \<le> 2 ^ 30" "az_alloc s sz = Some (r, s')" "r \<noteq> 0"
  shows "\<exists>s''. az_free s' r = Some (True, s'') \<and> g_free_memory s'' = g_free_memory s"
proof -
  let ?m = "g_free_memory s" and ?l = "level_for sz"
  have ok: "mm_ok ?m" "stat_ok (stat s)" using assms(1) by (simp_all add: kernel_ok_def)
  obtain j where j: "pages (?l, j) \<subseteq> free_pages ?m"
    using az_alloc_fails [OF ok(1) assms(2)] assms(3,4) by auto
  obtain k where k: "r = addr_of ?m (?l, k)" "pages (?l, k) \<subseteq> free_pages ?m"
    and s': "alloc_blocks (g_free_memory s') = insert (?l, k) (alloc_blocks ?m)"
      "mm_ok (g_free_memory s')" "stat_ok (stat s')" "start_addr (g_free_memory s') = start_addr ?m"
      "same_outside ?m (g_free_memory s')" "end_addr (g_free_memory s') = end_addr ?m"
      "block_index (g_free_memory s') = (block_index ?m)(k * 2 ^ ?l := word_of_nat ?l)"
    by (rule az_alloc_succeeds [OF ok assms(2) j]) (use assms(3) that in auto)
  have a: "(?l, k) \<in> alloc_blocks (g_free_memory s')" by (simp add: s'(1))
  have r': "addr_of (g_free_memory s') (?l, k) + word_of_nat 0 = r" by (simp add: k(1) addr_of_def s'(4))
  obtain s'' where s'': "az_free s' r = Some (True, s'')"
    "alloc_blocks (g_free_memory s'') = alloc_blocks (g_free_memory s') - {(?l, k)}"
    "mm_ok (g_free_memory s'')" "start_addr (g_free_memory s'') = start_addr (g_free_memory s')"
    "same_outside (g_free_memory s') (g_free_memory s'')"
    "end_addr (g_free_memory s'') = end_addr (g_free_memory s')"
    "block_index (g_free_memory s'') = (block_index (g_free_memory s'))(k * 2 ^ ?l := 0xFF)"
    by (rule az_free_succeeds [OF s'(2,3) a, of 0]) (use that r' in auto)
  have "block_index ?m (k * 2 ^ ?l) = 0xFF"
    using block_index_free_page [OF mm_okD(1) [OF ok(1)]] k(2) first_page [of k ?l] by blast
  then have "block_index (g_free_memory s'') = block_index ?m" by (auto simp: s''(7) s'(7))
  moreover have "alloc_blocks (g_free_memory s'') = alloc_blocks ?m"
    using fresh_block [OF k(2)] by (simp add: s''(2) s'(1))
  ultimately have "g_free_memory s'' = ?m"
    using MM_eqI [OF ok(1) s''(3) same_outside_trans [OF s'(5) s''(5)]] s'(4,6) s''(4,6) by simp
  with s''(1) show ?thesis by blast
qed

theorem az_alloc_free_roundtrip_witness:
  "\<exists>r s' s''. az_alloc booted 5000 = Some (r, s') \<and> r \<noteq> 0 \<and> az_free s' r = Some (True, s'') \<and>
     g_free_memory s'' = g_free_memory booted"
proof -
  obtain k s' where a: "az_alloc booted 5000 = Some (addr_of (g_free_memory booted) (1, k), s')"
    "addr_of (g_free_memory booted) (1, k) \<noteq> 0"
    by (rule booted_alloc)
  have "\<exists>s''. az_free s' (addr_of (g_free_memory booted) (1, k)) = Some (True, s'') \<and>
      g_free_memory s'' = g_free_memory booted"
    using az_alloc_free_roundtrip [OF booted_ok _ a] by simp
  then show ?thesis using a by blast
qed

text \<open>C5. The bitmap search that skips 64 bits at a time finds the same block as the plain search for
  the first set flag, and never reads a bit as free that \<^verbatim>\<open>get_bitmap_flag\<close> does not report.\<close>

theorem find_free_block_first:
  assumes "kernel_ok s" "l < max_level (g_free_memory s)"
  shows "find_free_block (g_free_memory s) l =
    find (\<lambda>k. get_bitmap_flag (g_free_memory s) l k = MM_TRUE) [0..<smallest_block (g_free_memory s) div 2 ^ l]"
proof -
  have "(\<lambda>k. get_bitmap_flag (g_free_memory s) l k = MM_TRUE) = raw_bit (g_free_memory s) l"
    by (simp add: get_bitmap_flag_eq fun_eq_iff)
  then show ?thesis
    using assms find_free_block_eq [of "{}" "g_free_memory s" l] mm_okD(1)
    by (simp add: kernel_ok_def nblocks_def)
qed

theorem find_free_block_first_witness:
  "kernel_ok booted \<and> 9 < max_level (g_free_memory booted) \<and>
   find_free_block (g_free_memory booted) 9 =
     find (\<lambda>k. get_bitmap_flag (g_free_memory booted) 9 k = MM_TRUE) [0..<7]"
proof -
  have "buddy_inv {} (g_free_memory booted)" using booted_ok mm_okD(1) by (simp add: kernel_ok_def)
  then have l: "9 < max_level (g_free_memory booted)"
    by (simp add: buddy_invD(2) nblocks_def booted_blocks)
  show ?thesis using find_free_block_first [OF booted_ok l] booted_ok l by (simp add: booted_blocks)
qed



text \<open>C7. Isolation of the kernel's clients: however allocations, releases and writes into live blocks
  by other clients interleave, the blocks \<open>K\<close> of a client stay allocated, keep their contents, and
  stay disjoint from every other live block; requests keep returning and live blocks can always
  be released.\<close>

theorem kernel_clients_isolated:
  assumes "kernel_ok s" "K \<subseteq> kernel_live s"
    and "client_steps az_alloc az_free kernel_live mem set_mem K s s'"
  shows "K \<subseteq> kernel_live s' \<and> (\<forall>r\<in>K. \<forall>x. in_region x r \<longrightarrow> mem s' x = mem s x) \<and>
    (\<forall>a\<in>kernel_live s'. \<forall>b\<in>kernel_live s'. a \<noteq> b \<longrightarrow> disjoint_regions a b) \<and>
    (\<forall>sz. unat sz \<le> 2 ^ 30 \<longrightarrow> az_alloc s' sz \<noteq> None) \<and>
    (\<forall>(r, n)\<in>kernel_live s'. \<exists>s''. az_free s' r = Some (True, s''))"
  using kmem.steps_keep [OF assms(3,1,2)] kmem.steps_disjoint [OF assms(3,1)]
    kmem.steps_progress [OF assms(3,1)] by auto

theorem kernel_clients_isolated_witness:
  "\<exists>r n s1 t s2. az_alloc booted 5000 = Some (r, s1) \<and> (r, n) \<in> kernel_live s1 \<and>
     az_alloc s1 4096 = Some (t, s2) \<and>
     client_steps az_alloc az_free kernel_live mem set_mem {(r, n)} s1 s2 \<and> (r, n) \<in> kernel_live s2"
proof -
  obtain k s1 where a: "az_alloc booted 5000 = Some (addr_of (g_free_memory booted) (1, k), s1)"
    "kernel_ok s1" "alloc_blocks (g_free_memory s1) = {(1, k)}"
    "start_addr (g_free_memory s1) = start_addr (g_free_memory booted)"
    by (rule booted_alloc)
  have l: "(addr_of (g_free_memory booted) (1, k), 8192) \<in> kernel_live s1"
    by (simp add: kernel_live_def a(3) block_region_cong [OF a(4)]) (simp add: block_region_def)
  obtain t s2 where t: "az_alloc s1 4096 = Some (t, s2)"
    using az_alloc_law [OF a(2), of 4096] by auto
  have c: "client_steps az_alloc az_free kernel_live mem set_mem
      {(addr_of (g_free_memory booted) (1, k), 8192)} s1 s2"
    by (rule client_steps.alloc [where alloc = az_alloc, OF _ _ t]) (simp_all add: client_steps.start)
  have "(addr_of (g_free_memory booted) (1, k), 8192) \<in> kernel_live s2"
    using kernel_clients_isolated [OF a(2) _ c] l by simp
  then show ?thesis using a(1) l t c by blast
qed





end
