(* ===== verification/ShmMM.thy ===== *)
theory ShmMM
  imports Memory
begin

text \<open>
  The allocator of the inter-process shared memory, \<^verbatim>\<open>kernel/shm/shm_mm.c\<close>. The file repeats the
  buddy allocator of \<^verbatim>\<open>kernel/memory.c\<close> on its own \<^verbatim>\<open>MM\<close> structure, which lies in shared memory
  (\<^verbatim>\<open>g_shminfo->shm_free_mem_mgt\<close>). Its functions are modelled from their own source and shown equal
  to the kernel's, so that the allocator interface holds for both.
\<close>

section \<open>Operations\<close>

record shm_pool =
  shm_free_mem_mgt :: MM
  shm_mem :: memory

definition shm_set_bitmap_flag :: "MM \<Rightarrow> nat \<Rightarrow> nat \<Rightarrow> byte \<Rightarrow> MM" where
  "shm_set_bitmap_flag m bl off flag =
     (let b = bitmap m bl;
          p = bitmap_bytes b;
          old = p (off div 8);
          mask = push_bit (off mod 8) 1
      in if flag = MM_TRUE then
           let b1 = (if old AND mask = 0 then b\<lparr>bitmap_count := bitmap_count b + 1\<rparr> else b)
           in m\<lparr>bitmap := (bitmap m)(bl := b1\<lparr>bitmap_bytes := p(off div 8 := old OR mask)\<rparr>)\<rparr>
         else
           let b1 = (if old AND mask \<noteq> 0 then b\<lparr>bitmap_count := bitmap_count b - 1\<rparr> else b)
           in m\<lparr>bitmap := (bitmap m)(bl := b1\<lparr>bitmap_bytes := p(off div 8 := old AND NOT mask)\<rparr>)\<rparr>)"

definition shm_get_bitmap_flag :: "MM \<Rightarrow> nat \<Rightarrow> nat \<Rightarrow> byte" where
  "shm_get_bitmap_flag m bl off =
     (if bitmap_bytes (bitmap m bl) (off div 8) AND push_bit (off mod 8) 1 \<noteq> 0
      then MM_TRUE else MM_FALSE)"

definition shm_align_buddy_block :: "MM \<Rightarrow> qword \<Rightarrow> qword" where
  "shm_align_buddy_block m sz =
     (case find (\<lambda>i. sz \<le> page_shl i) [0..<max_level m] of None \<Rightarrow> 0 | Some i \<Rightarrow> page_shl i)"

definition shm_block_list_index :: "MM \<Rightarrow> qword \<Rightarrow> nat option" where
  "shm_block_list_index m aligned_size = find (\<lambda>i. aligned_size \<le> page_shl i) [0..<max_level m]"

function shm_find_free_scan :: "byte carray \<Rightarrow> nat \<Rightarrow> nat \<Rightarrow> nat option" where
  "shm_find_free_scan p max_count i =
     (if i < max_count then
        if 0 < (max_count - i) div 64 \<and> load64 p (i div 8) = 0
        then shm_find_free_scan p max_count (i + 64)
        else if p (i div 8) AND push_bit (i mod 8) 1 \<noteq> 0 then Some i
        else shm_find_free_scan p max_count (Suc i)
      else None)"
  by pat_completeness auto
termination
  by (relation "measure (\<lambda>(p, max_count, i). max_count - i)") auto

definition shm_find_free_block :: "MM \<Rightarrow> nat \<Rightarrow> nat option" where
  "shm_find_free_block m bl =
     (if bitmap_count (bitmap m bl) = 0 then None
      else shm_find_free_scan (bitmap_bytes (bitmap m bl)) (drop_bit bl (smallest_block m)) 0)"

fun shm_split_blocks :: "MM \<Rightarrow> nat \<Rightarrow> nat \<Rightarrow> nat \<Rightarrow> MM \<times> nat" where
  "shm_split_blocks m 0 bl free_offset = (m, free_offset)"
| "shm_split_blocks m (Suc i) bl free_offset =
     (if bl \<le> i then
        shm_split_blocks (shm_set_bitmap_flag (shm_set_bitmap_flag m i (free_offset * 2) MM_FALSE)
                        i (free_offset * 2 + 1) MM_TRUE) i bl (free_offset * 2)
      else (m, free_offset))"

definition shm_alloc_buddy_block :: "MM \<Rightarrow> qword \<Rightarrow> nat option \<times> MM" where
  "shm_alloc_buddy_block m aligned_size =
     (case shm_block_list_index m aligned_size of
        None \<Rightarrow> (None, m)
      | Some bl \<Rightarrow>
          (case find (\<lambda>i. shm_find_free_block m i \<noteq> None) [bl..<max_level m] of
             None \<Rightarrow> (None, m)
           | Some i \<Rightarrow>
               (case shm_find_free_block m i of
                  None \<Rightarrow> (None, m)
                | Some fo \<Rightarrow>
                    (let m1 = shm_set_bitmap_flag m i fo MM_FALSE;
                         (m2, off) = (if bl < i then shm_split_blocks m1 i bl fo else (m1, fo))
                     in (Some off, m2)))))"

lemma shm_set_bitmap_flag_eq: "shm_set_bitmap_flag = set_bitmap_flag"
  by (intro ext) (simp add: shm_set_bitmap_flag_def set_bitmap_flag_def)

function shm_free_buddy_block :: "MM \<Rightarrow> nat \<Rightarrow> nat \<Rightarrow> bool \<times> MM" where
  "shm_free_buddy_block m i off =
     (if i < max_level m then
        let m1 = shm_set_bitmap_flag m i off MM_TRUE;
            buddy = (if off mod 2 = 0 then off + 1 else off - 1)
        in if shm_get_bitmap_flag m1 i buddy = MM_FALSE then (True, m1)
           else shm_free_buddy_block
                  (shm_set_bitmap_flag (shm_set_bitmap_flag m1 i buddy MM_FALSE) i off MM_FALSE)
                  (Suc i) (off div 2)
      else (True, m))"
  by pat_completeness auto
termination shm_free_buddy_block
  by (relation "measure (\<lambda>(m, i, off). max_level m - i)") (auto simp: Let_def shm_set_bitmap_flag_eq)

definition shm_alloc :: "'a shm_pool_scheme \<Rightarrow> qword \<Rightarrow> (qword \<times> 'a shm_pool_scheme) option" where
  "shm_alloc s sz =
     (case spinlock_lock (mm_spl (shm_free_mem_mgt s)) of
        None \<Rightarrow> None
      | Some l \<Rightarrow>
         (let m = (shm_free_mem_mgt s)\<lparr>mm_spl := l\<rparr>;
              aligned_size = shm_align_buddy_block m sz
          in if aligned_size = 0 then Some (0, s\<lparr>shm_free_mem_mgt := mm_unlock m\<rparr>)
             else if end_addr m < start_addr m + used_size m + aligned_size
             then Some (0, s\<lparr>shm_free_mem_mgt := mm_unlock m\<rparr>)
             else
               (case shm_alloc_buddy_block m aligned_size of
                  (None, m1) \<Rightarrow> Some (0, s\<lparr>shm_free_mem_mgt := mm_unlock m1\<rparr>)
                | (Some bl_offset, m1) \<Rightarrow>
                   (let bl_index = (case shm_block_list_index m1 aligned_size of
                                      None \<Rightarrow> 0xFF | Some i \<Rightarrow> word_of_nat i);
                        rel_address = aligned_size * word_of_nat bl_offset;
                        array_offset = int_of_qword (rel_address div word_of_nat PAGE_MIN_SIZE);
                        ret_addr = rel_address + start_addr m1
                    in if array_offset < 0 then None
                       else
                         (let m2 = m1\<lparr>block_index := (block_index m1)(nat array_offset := bl_index),
                                      used_size := used_size m1 + aligned_size\<rparr>
                          in Some (ret_addr,
                               s\<lparr>shm_mem := lk_memset (shm_mem s) ret_addr 0 (int_of_qword aligned_size),
                                 shm_free_mem_mgt := mm_unlock m2\<rparr>))))))"

definition shm_free :: "'a shm_pool_scheme \<Rightarrow> qword \<Rightarrow> (bool \<times> 'a shm_pool_scheme) option" where
  "shm_free s address =
     (case spinlock_lock (mm_spl (shm_free_mem_mgt s)) of
        None \<Rightarrow> None
      | Some l \<Rightarrow>
         (let m = (shm_free_mem_mgt s)\<lparr>mm_spl := l\<rparr>;
              rel_address = address - start_addr m;
              array_offset = int_of_qword (rel_address div word_of_nat PAGE_MIN_SIZE)
          in if address = 0 then Some (False, s\<lparr>shm_free_mem_mgt := mm_unlock m\<rparr>)
             else if array_offset < 0 then None
             else if block_index m (nat array_offset) = 0xFF
             then Some (False, s\<lparr>shm_free_mem_mgt := mm_unlock m\<rparr>)
             else
               (let bl = unat (block_index m (nat array_offset));
                    m1 = m\<lparr>block_index := (block_index m)(nat array_offset := 0xFF)\<rparr>;
                    block_size = page_shl bl
                in if block_size = 0 then Some (False, s\<lparr>shm_free_mem_mgt := m1\<rparr>)
                   else
                     (let bitmap_offset = int_of_qword (rel_address div block_size)
                      in if bitmap_offset < 0 then None
                         else
                           (case shm_free_buddy_block m1 bl (nat bitmap_offset) of
                              (True, m2) \<Rightarrow>
                                Some (True, s\<lparr>shm_free_mem_mgt :=
                                  mm_unlock (m2\<lparr>used_size := used_size m2 - block_size\<rparr>)\<rparr>)
                            | (False, m2) \<Rightarrow> Some (False, s\<lparr>shm_free_mem_mgt := mm_unlock m2\<rparr>))))))"

function shm_bitmap_size_loop :: "nat \<Rightarrow> nat \<Rightarrow> dword \<Rightarrow> dword" where
  "shm_bitmap_size_loop n i acc =
     (if 0 < drop_bit i n
      then shm_bitmap_size_loop n (Suc i) (acc + 16 + word_of_nat ((drop_bit i n + 7) div 8))
      else acc)"
  by pat_completeness auto
termination
proof (relation "measure (\<lambda>(n, i, acc). drop_bit i n)")
  fix n i :: nat and acc :: dword
  assume "0 < drop_bit i n"
  then show "((n, Suc i, acc + 16 + word_of_nat ((drop_bit i n + 7) div 8)), n, i, acc)
      \<in> measure (\<lambda>(n, i, acc). drop_bit i n)"
    by (simp add: drop_bit_Suc drop_bit_half)
qed simp

definition shm_bitmap_size :: "qword \<Rightarrow> dword" where
  "shm_bitmap_size free_mem_size =
     (let n = unat (free_mem_size div word_of_nat PAGE_MIN_SIZE)
      in (word_of_nat n + shm_bitmap_size_loop n 0 0 + word_of_nat PAGE_MIN_SIZE - 1)
           div word_of_nat PAGE_MIN_SIZE)"

text \<open>
  The layout constants of \<^verbatim>\<open>include/knl/arch.h\<close>. The size of \<^verbatim>\<open>struct shm_info_s\<close>, which precedes the
  pool, depends on the compiler's layout and is an argument.
\<close>

definition CONFIG_SHARED_MEMORY :: qword where "CONFIG_SHARED_MEMORY = 0xFFFF800000000000"
definition APP_START_OFFSET :: qword where "APP_START_OFFSET = push_bit 20 2"
definition APP_SIZE :: qword where "APP_SIZE = push_bit 20 510"
definition IPC_START_OFFSET :: qword where "IPC_START_OFFSET = APP_START_OFFSET + APP_SIZE"
definition IPC_SIZE :: qword where "IPC_SIZE = push_bit 20 512"

definition CONFIG_SHM_SHARED_MEMORY :: qword where
  "CONFIG_SHM_SHARED_MEMORY = CONFIG_SHARED_MEMORY + IPC_START_OFFSET"

lemmas shm_layout_defs = CONFIG_SHM_SHARED_MEMORY_def CONFIG_SHARED_MEMORY_def APP_START_OFFSET_def
  APP_SIZE_def IPC_START_OFFSET_def IPC_SIZE_def

definition shm_free_mem_init :: "nat \<Rightarrow> 'a shm_pool_scheme \<Rightarrow> 'a shm_pool_scheme" where
  "shm_free_mem_init info_size s =
     (let page_count = info_size div PAGE_MIN_SIZE + (if 0 < info_size mod PAGE_MIN_SIZE then 1 else 0);
          shm_free_mem_start = CONFIG_SHM_SHARED_MEMORY + word_of_nat (page_count * PAGE_MIN_SIZE);
          shm_free_mem_end = CONFIG_SHM_SHARED_MEMORY + IPC_SIZE;
          shm_free_mem_size = shm_free_mem_end - shm_free_mem_start;
          bitmap_pages = (shm_bitmap_size shm_free_mem_size + (512 - 1)) AND NOT (512 - 1);
          blocks = nat (int_of_qword (shm_free_mem_size div word_of_nat PAGE_MIN_SIZE - scast bitmap_pages));
          levels = count_levels blocks 0;
          m = shm_free_mem_mgt s
      in s\<lparr>shm_free_mem_mgt := m\<lparr>
             smallest_block := blocks,
             max_level := levels,
             block_index := (\<lambda>p. if p < blocks then 0xFF else block_index m p),
             bitmap := (\<lambda>j. if j < levels then init_bitmap (bitmap m j) (drop_bit j blocks)
                            else bitmap m j),
             start_addr := shm_free_mem_start + scast (bitmap_pages * word_of_nat PAGE_MIN_SIZE),
             end_addr := shm_free_mem_end,
             used_size := 0,
             mm_spl := spinlock_init (mm_spl m)\<rparr>\<rparr>)"

text \<open>The size of the block behind a segment, as \<^verbatim>\<open>shm_extend\<close> estimates it.\<close>

definition shm_get_buddy_block_size :: "qword \<Rightarrow> qword" where
  "shm_get_buddy_block_size sz =
     (case find (\<lambda>i. sz < page_shl i) [0..<32] of None \<Rightarrow> 0 | Some i \<Rightarrow> page_shl i)"

declare shm_find_free_scan.simps [simp del] shm_free_buddy_block.simps [simp del]
  shm_bitmap_size_loop.simps [simp del]

section \<open>The same functions as the kernel's\<close>

lemma shm_get_bitmap_flag_eq: "shm_get_bitmap_flag = get_bitmap_flag"
  by (intro ext) (simp add: shm_get_bitmap_flag_def get_bitmap_flag_def)

lemma shm_align_buddy_block_eq: "shm_align_buddy_block = align_buddy_block"
  by (intro ext) (simp add: shm_align_buddy_block_def align_buddy_block_def)

lemma shm_block_list_index_eq: "shm_block_list_index = block_list_index"
  by (intro ext) (simp add: shm_block_list_index_def block_list_index_def)

lemma shm_find_free_scan_eq: "shm_find_free_scan p n i = find_free_scan p n i"
proof (induction p n i rule: shm_find_free_scan.induct)
  case (1 p n i)
  then show ?case
    by (subst shm_find_free_scan.simps, subst find_free_scan.simps) auto
qed

lemma shm_find_free_block_eq: "shm_find_free_block = find_free_block"
  by (intro ext) (simp add: shm_find_free_block_def find_free_block_def shm_find_free_scan_eq)

lemma shm_split_blocks_eq: "shm_split_blocks m i bl k = split_blocks m i bl k"
  by (induction m i bl k rule: shm_split_blocks.induct) (simp_all add: shm_set_bitmap_flag_eq)

lemma shm_alloc_buddy_block_eq: "shm_alloc_buddy_block = alloc_buddy_block"
  unfolding shm_alloc_buddy_block_def [abs_def] alloc_buddy_block_def [abs_def] shm_block_list_index_eq
    shm_find_free_block_eq shm_split_blocks_eq shm_set_bitmap_flag_eq ..

lemma shm_free_buddy_block_eq: "shm_free_buddy_block m i k = free_buddy_block m i k"
proof (induction m i k rule: shm_free_buddy_block.induct)
  case (1 m i k)
  then show ?case
    by (subst shm_free_buddy_block.simps, subst free_buddy_block.simps)
      (auto simp: Let_def shm_set_bitmap_flag_eq shm_get_bitmap_flag_eq)
qed

lemma shm_bitmap_size_loop_eq: "shm_bitmap_size_loop n i acc = bitmap_size_loop n i acc"
proof (induction n i acc rule: shm_bitmap_size_loop.induct)
  case (1 n i acc)
  then show ?case by (subst shm_bitmap_size_loop.simps, subst bitmap_size_loop.simps) auto
qed

lemma shm_bitmap_size_eq: "shm_bitmap_size = bitmap_size"
  by (intro ext) (simp add: shm_bitmap_size_def bitmap_size_def shm_bitmap_size_loop_eq)

lemmas shm_eqs = shm_align_buddy_block_eq shm_block_list_index_eq shm_alloc_buddy_block_eq
  shm_free_buddy_block_eq shm_bitmap_size_eq

text \<open>A kernel state around a shared-memory pool, and the pool read back from it.\<close>

definition as_kernel :: "'a shm_pool_scheme \<Rightarrow> mem_state" where
  "as_kernel s = blank_mem\<lparr>g_free_memory := shm_free_mem_mgt s, mem := shm_mem s\<rparr>"

definition from_kernel :: "'a shm_pool_scheme \<Rightarrow> mem_state \<Rightarrow> 'a shm_pool_scheme" where
  "from_kernel s t = s\<lparr>shm_free_mem_mgt := g_free_memory t, shm_mem := mem t\<rparr>"

lemma as_kernel_fields [simp]:
  "g_free_memory (as_kernel s) = shm_free_mem_mgt s" "mem (as_kernel s) = shm_mem s"
  "stat (as_kernel s) = blank_stat"
  by (simp_all add: as_kernel_def blank_mem_def)

lemma from_kernel_same [simp]: "from_kernel s (as_kernel s) = s"
  by (simp add: from_kernel_def)

lemma set_mem_info_blank: "\<exists>st. set_mem_info blank_stat n = Some st"
  by (rule set_mem_info_ok [OF blank_stat_ok]) blast

lemma shm_alloc_eq:
  "shm_alloc s sz = map_option (\<lambda>(r, t). (r, from_kernel s t)) (az_alloc (as_kernel s) sz)"
proof -
  obtain st where st: "set_mem_info blank_stat n = Some (st n)" for n
    using set_mem_info_blank by metis
  show ?thesis
    unfolding shm_alloc_def az_alloc_def shm_eqs as_kernel_fields Let_def st
    by (simp add: from_kernel_def as_kernel_def split: option.split prod.split)
qed

lemma shm_free_eq:
  "shm_free s a = map_option (\<lambda>(r, t). (r, from_kernel s t)) (az_free (as_kernel s) a)"
proof -
  obtain st where st: "set_mem_info blank_stat n = Some (st n)" for n
    using set_mem_info_blank by metis
  show ?thesis
    unfolding shm_free_def az_free_def shm_eqs as_kernel_fields Let_def st
    by (simp add: from_kernel_def as_kernel_def split: option.split prod.split bool.split)
qed

lemma round_up_div: "(n + 4095) div 4096 = n div 4096 + (if 0 < n mod 4096 then 1 else 0)" for n :: nat
proof -
  define q t where "q = n div 4096" and "t = n mod 4096"
  have n: "n = 4096 * q + t" "t < 4096" by (simp_all add: q_def t_def)
  have "(4096 * q + t + 4095) div 4096 = q + (if 0 < t then 1 else 0)"
    using n(2) by (intro div_nat_eqI) auto
  then show ?thesis by (simp add: q_def t_def)
qed

lemma shm_free_mem_init_eq:
  "shm_free_mem_mgt (shm_free_mem_init info_size s) =
     init_pool (CONFIG_SHM_SHARED_MEMORY + word_of_nat (4096 * ((info_size + 4095) div 4096)))
       (CONFIG_SHM_SHARED_MEMORY + IPC_SIZE) (shm_free_mem_mgt s)"
proof -
  let ?c = "(info_size + 4095) div 4096"
  have "info_size div PAGE_MIN_SIZE + (if 0 < info_size mod PAGE_MIN_SIZE then 1 else 0) = ?c"
    unfolding round_up_div by (simp add: PAGE_MIN_SIZE_def)
  then have pc: "(info_size div PAGE_MIN_SIZE + (if 0 < info_size mod PAGE_MIN_SIZE then 1 else 0)) *
      PAGE_MIN_SIZE = 4096 * ?c"
    by (simp only: PAGE_MIN_SIZE_def mult.commute)
  show ?thesis
    unfolding shm_free_mem_init_def init_pool_def Let_def shm_bitmap_size_eq pc by simp
qed

section \<open>The allocator interface for shared memory\<close>

definition shm_ok :: "'a shm_pool_scheme \<Rightarrow> bool" where
  "shm_ok s \<longleftrightarrow> mm_ok (shm_free_mem_mgt s)"

definition shm_live :: "'a shm_pool_scheme \<Rightarrow> region set" where
  "shm_live s = block_region (shm_free_mem_mgt s) ` alloc_blocks (shm_free_mem_mgt s)"

definition set_shm_mem :: "memory \<Rightarrow> 'a shm_pool_scheme \<Rightarrow> 'a shm_pool_scheme" where
  "set_shm_mem M s = s\<lparr>shm_mem := M\<rparr>"

lemma as_kernel_ok: "kernel_ok (as_kernel s) \<longleftrightarrow> shm_ok s"
  by (simp add: kernel_ok_def shm_ok_def blank_stat_ok)

lemma as_kernel_live: "kernel_live (as_kernel s) = shm_live s"
  by (simp add: kernel_live_def shm_live_def)

lemma from_kernel_fields [simp]:
  "shm_free_mem_mgt (from_kernel s t) = g_free_memory t" "shm_mem (from_kernel s t) = mem t"
  by (simp_all add: from_kernel_def)

lemma from_kernel_live: "shm_live (from_kernel s t) = kernel_live t"
  by (simp add: shm_live_def kernel_live_def)

interpretation smem: pool_allocator shm_alloc shm_free shm_ok shm_live shm_mem set_shm_mem
proof
  fix s :: "'a shm_pool_scheme" and sz :: qword
  assume "shm_ok s" "unat sz \<le> 2 ^ 30"
  then obtain r t where t: "az_alloc (as_kernel s) sz = Some (r, t)" "kernel_ok t"
    and c: "r = 0 \<and> t = as_kernel s \<or> r \<noteq> 0 \<and> (\<exists>n\<ge>unat sz. (r, n) \<notin> shm_live s \<and>
      kernel_live t = insert (r, n) (shm_live s) \<and>
      mem t = (\<lambda>x. if in_region x (r, n) then 0 else shm_mem s x))"
    using az_alloc_law [of "as_kernel s" sz, unfolded as_kernel_ok as_kernel_live as_kernel_fields]
    by blast
  show "\<exists>r s'. shm_alloc s sz = Some (r, s') \<and> shm_ok s' \<and>
      (r = 0 \<and> s' = s \<or> r \<noteq> 0 \<and> (\<exists>n\<ge>unat sz. (r, n) \<notin> shm_live s \<and> shm_live s' = insert (r, n) (shm_live s) \<and>
        shm_mem s' = (\<lambda>x. if in_region x (r, n) then 0 else shm_mem s x)))"
    using t c by (intro exI [of _ r] exI [of _ "from_kernel s t"])
      (auto simp: shm_alloc_eq shm_ok_def kernel_ok_def from_kernel_live)
next
  fix s :: "'a shm_pool_scheme" and r n
  assume "shm_ok s" "(r, n) \<in> shm_live s"
  then obtain t where t: "az_free (as_kernel s) r = Some (True, t)" "kernel_ok t"
    "kernel_live t = shm_live s - {(r, n)}" "mem t = shm_mem s"
    using az_free_law [of "as_kernel s" r n] by (auto simp: as_kernel_ok as_kernel_live)
  then show "\<exists>s'. shm_free s r = Some (True, s') \<and> shm_ok s' \<and> shm_live s' = shm_live s - {(r, n)} \<and>
      shm_mem s' = shm_mem s"
    by (intro exI [of _ "from_kernel s t"])
      (auto simp: shm_free_eq shm_ok_def kernel_ok_def from_kernel_live)
next
  fix s :: "'a shm_pool_scheme" and a b
  assume "shm_ok s" "a \<in> shm_live s" "b \<in> shm_live s" "a \<noteq> b"
  then show "disjoint_regions a b"
    using kmem.live_disjoint [of "as_kernel s" a b] by (simp add: as_kernel_ok as_kernel_live)
qed (simp_all add: shm_ok_def shm_live_def set_shm_mem_def)

section \<open>Properties\<close>

definition blank_pool :: shm_pool where
  "blank_pool = \<lparr>shm_free_mem_mgt = g_free_memory blank_mem, shm_mem = (\<lambda>_. 0)\<rparr>"

lemma shm_span:
  assumes "info_size \<le> 2 ^ 28"
  shows "span_ok (CONFIG_SHM_SHARED_MEMORY + word_of_nat (4096 * ((info_size + 4095) div 4096)))
      (CONFIG_SHM_SHARED_MEMORY + IPC_SIZE)"
    "span_pages (CONFIG_SHM_SHARED_MEMORY + word_of_nat (4096 * ((info_size + 4095) div 4096)))
      (CONFIG_SHM_SHARED_MEMORY + IPC_SIZE) = 131072 - (info_size + 4095) div 4096"
proof -
  let ?c = "(info_size + 4095) div 4096"
  have c: "?c \<le> 65536" using assms div_le_mono [of "info_size + 4095" "2 ^ 28 + 4095" 4096] by simp
  have base: "unat CONFIG_SHM_SHARED_MEMORY = 18446603336758067200"
    "unat (CONFIG_SHM_SHARED_MEMORY + IPC_SIZE) = 18446603336758067200 + 4096 * 131072"
    by (simp_all add: shm_layout_defs push_bit_eq_mult)
  have "CONFIG_SHM_SHARED_MEMORY + word_of_nat (4096 * ?c) =
      word_of_nat (unat CONFIG_SHM_SHARED_MEMORY + 4096 * ?c)"
    by simp
  then have st: "unat (CONFIG_SHM_SHARED_MEMORY + word_of_nat (4096 * ?c)) = 18446603336758067200 + 4096 * ?c"
    using c unfolding base(1) by (simp only:) (intro unat_word_of_nat_small, simp)
  show p: "span_pages (CONFIG_SHM_SHARED_MEMORY + word_of_nat (4096 * ?c)) (CONFIG_SHM_SHARED_MEMORY + IPC_SIZE)
      = 131072 - ?c"
    unfolding span_pages_def st base(2) by (simp flip: diff_mult_distrib2)
  have "meta_pages (131072 - ?c) = 512" using c by (intro meta_pages_small) simp_all
  then show "span_ok (CONFIG_SHM_SHARED_MEMORY + word_of_nat (4096 * ?c)) (CONFIG_SHM_SHARED_MEMORY + IPC_SIZE)"
    using c unfolding span_ok_def p st base(2) by (simp; linarith)
qed

lemma shm_init_ok:
  assumes "info_size \<le> 2 ^ 28"
  shows "shm_ok (shm_free_mem_init info_size s)" "alloc_blocks (shm_free_mem_mgt (shm_free_mem_init info_size s)) = {}"
  using init_pool_ok [OF shm_span(1) [OF assms]] by (simp_all only: shm_ok_def shm_free_mem_init_eq)

text \<open>C15. The shared-memory allocator is the kernel's allocator on its own pool: \<^verbatim>\<open>shm_alloc\<close> and
  \<^verbatim>\<open>shm_free\<close> return what \<^verbatim>\<open>az_alloc\<close> and \<^verbatim>\<open>az_free\<close> return and leave the same metadata and memory,
  on every input and every branch, so that all results on the kernel's allocator carry over.\<close>

theorem shm_allocator_equivalent:
  "shm_alloc s sz = map_option (\<lambda>(r, t). (r, from_kernel s t)) (az_alloc (as_kernel s) sz) \<and>
   shm_free s a = map_option (\<lambda>(b, t). (b, from_kernel s t)) (az_free (as_kernel s) a)"
  by (simp only: shm_alloc_eq shm_free_eq)



end
