(* ===== verification/Shm.thy ===== *)
theory Shm
  imports ShmMM
begin

text \<open>
  The System V style shared-memory calls of \<^verbatim>\<open>kernel/shm\<close>: the table of regions in shared memory, and
  \<^verbatim>\<open>shmget\<close>, \<^verbatim>\<open>shmat\<close>, \<^verbatim>\<open>shmdt\<close> and \<^verbatim>\<open>shmctl\<close> on it. A call that spins on a lock nobody releases, or
  dereferences a null buffer, is \<^const>\<open>None\<close>. The caller's process id, which \<^verbatim>\<open>sys_getpid\<close> supplies, is
  an argument.
\<close>

section \<open>The region table\<close>

record shmid_ds =
  shm_perm_mode :: dword
  shm_segsz :: qword
  shm_lpid :: int
  shm_cpid :: int
  shm_nattch :: "16 word"
  shm_atime :: int
  shm_dtime :: int
  shm_ctime :: int

record shm_region_s =
  sr_ds :: shmid_ds
  sr_flags :: byte
  sr_key :: int
  sr_lock :: spinlock_t
  sr_data :: qword

record shm_info_s = shm_pool +
  si_lock :: spinlock_t
  shm_init_flag :: int
  si_region :: "shm_region_s carray"

definition MAXREGIONS :: nat where "MAXREGIONS = 1024"
definition SRFLAG_INUSE :: byte where "SRFLAG_INUSE = 1"
definition SRFLAG_UNLINKED :: byte where "SRFLAG_UNLINKED = 2"
definition IPC_MODE :: dword where "IPC_MODE = 0x1FF"
definition IPC_CREAT :: dword where "IPC_CREAT = push_bit 10 1"
definition IPC_RMID :: int where "IPC_RMID = 0"
definition IPC_SET :: int where "IPC_SET = 1"
definition IPC_STAT :: int where "IPC_STAT = 2"

text \<open>A region after \<^verbatim>\<open>lk_memset (region, 0, sizeof (struct shm_region_s))\<close>.\<close>

definition zero_ds :: shmid_ds where
  "zero_ds = \<lparr>shm_perm_mode = 0, shm_segsz = 0, shm_lpid = 0, shm_cpid = 0, shm_nattch = 0,
     shm_atime = 0, shm_dtime = 0, shm_ctime = 0\<rparr>"

definition zero_region :: shm_region_s where
  "zero_region = \<lparr>sr_ds = zero_ds, sr_flags = 0, sr_key = 0, sr_lock = \<lparr>lock = 0\<rparr>, sr_data = 0\<rparr>"

definition upd_region :: "nat \<Rightarrow> (shm_region_s \<Rightarrow> shm_region_s) \<Rightarrow> shm_info_s \<Rightarrow> shm_info_s" where
  "upd_region i f s = s\<lparr>si_region := (si_region s)(i := f (si_region s i))\<rparr>"

section \<open>Calls\<close>

definition shm_initialize :: "shm_info_s \<Rightarrow> shm_info_s" where
  "shm_initialize s =
     s\<lparr>si_region := (\<lambda>i. if i < MAXREGIONS then zero_region else si_region s i),
       shm_free_mem_mgt := (shm_free_mem_mgt s)\<lparr>max_level := 0, smallest_block := 0, used_size := 0,
         start_addr := 0, end_addr := 0, mm_spl := \<lparr>lock = 0\<rparr>\<rparr>\<rparr>"

definition shm_find :: "shm_info_s \<Rightarrow> int \<Rightarrow> int" where
  "shm_find s key =
     (case find (\<lambda>i. sr_key (si_region s i) = key) [0..<MAXREGIONS] of None \<Rightarrow> - 1 | Some i \<Rightarrow> int i)"

definition shm_reserve :: "shm_info_s \<Rightarrow> int \<Rightarrow> dword \<Rightarrow> int \<times> shm_info_s" where
  "shm_reserve s key shmflg =
     (case find (\<lambda>i. sr_flags (si_region s i) = 0) [0..<MAXREGIONS] of
        None \<Rightarrow> (- ENOSPC, s)
      | Some i \<Rightarrow>
          (int i, upd_region i (\<lambda>r. r\<lparr>sr_key := key, sr_flags := SRFLAG_INUSE,
             sr_lock := spinlock_init (sr_lock r),
             sr_ds := (sr_ds r)\<lparr>shm_perm_mode := shmflg AND IPC_MODE\<rparr>\<rparr>) s))"

definition shm_extend :: "shm_info_s \<Rightarrow> nat \<Rightarrow> qword \<Rightarrow> int \<times> shm_info_s" where
  "shm_extend s shmid sz =
     (let region = si_region s shmid; seg = shm_segsz (sr_ds region)
      in if seg < sz then
           if shm_get_buddy_block_size seg < sz then (- ENOMEM, s)
           else (1, upd_region shmid (\<lambda>r. r\<lparr>sr_ds := (sr_ds r)\<lparr>shm_segsz := sz\<rparr>\<rparr>)
                  (s\<lparr>shm_mem := lk_memset (shm_mem s) (sr_data region + seg) 0 (int_of_qword (sz - seg))\<rparr>))
         else (1, s))"

definition shm_destroy :: "shm_info_s \<Rightarrow> nat \<Rightarrow> shm_info_s option" where
  "shm_destroy s shmid =
     (case (if sr_data (si_region s shmid) \<noteq> 0
            then map_option snd (shm_free s (sr_data (si_region s shmid))) else Some s) of
        None \<Rightarrow> None
      | Some s1 \<Rightarrow> Some (upd_region shmid (\<lambda>_. zero_region) s1))"

definition shm_create :: "int \<Rightarrow> shm_info_s \<Rightarrow> int \<Rightarrow> qword \<Rightarrow> dword \<Rightarrow> (int \<times> shm_info_s) option" where
  "shm_create pid s key sz shmflg =
     (case shm_reserve s key shmflg of
        (ret, s1) \<Rightarrow>
          if ret < 0 then Some (ret, s1)
          else
            (case shm_alloc s1 sz of
               None \<Rightarrow> None
             | Some (p, s2) \<Rightarrow>
                 (let s3 = upd_region (nat ret) (\<lambda>r. r\<lparr>sr_data := p\<rparr>) s2
                  in if p = 0 then map_option (\<lambda>s4. (- ENOMEM, s4)) (shm_destroy s3 (nat ret))
                     else Some (ret, upd_region (nat ret)
                            (\<lambda>r. r\<lparr>sr_ds := (sr_ds r)\<lparr>shm_segsz := sz, shm_cpid := pid\<rparr>\<rparr>) s3))))"

text \<open>The first call that reaches the table initialises it and the pool.\<close>

definition first_use :: "nat \<Rightarrow> shm_info_s \<Rightarrow> shm_info_s" where
  "first_use info_size s =
     (if shm_init_flag s = 0
      then (shm_free_mem_init info_size (shm_initialize s))\<lparr>shm_init_flag := 1\<rparr> else s)"

text \<open>The part of \<^verbatim>\<open>shmget\<close> between taking and releasing \<^verbatim>\<open>si_lock\<close>.\<close>

definition shmget_locked :: "nat \<Rightarrow> int \<Rightarrow> shm_info_s \<Rightarrow> int \<Rightarrow> qword \<Rightarrow> dword \<Rightarrow> (int \<times> shm_info_s) option" where
  "shmget_locked info_size pid s key sz shmflg =
     (let s1 = first_use info_size s;
          ret = shm_find s1 key
      in if ret < 0 then
           if shmflg AND IPC_CREAT \<noteq> 0
           then map_option (\<lambda>(r, s2). (if r < 0 then - 1 else r, s2)) (shm_create pid s1 key sz shmflg)
           else Some (- 1, s1)
         else
           (let shmid = nat ret;
                inuse = upd_region shmid (\<lambda>r. r\<lparr>sr_flags := SRFLAG_INUSE\<rparr>)
            in if shm_segsz (sr_ds (si_region s1 shmid)) < sz then
                 if shmflg AND IPC_CREAT \<noteq> 0
                 then (case shm_extend s1 shmid sz of
                         (e, s2) \<Rightarrow> if e < 0 then Some (- 1, s2) else Some (ret, inuse s2))
                 else Some (- 1, s1)
               else Some (ret, inuse s1)))"

definition shmget :: "nat \<Rightarrow> int \<Rightarrow> shm_info_s \<Rightarrow> int \<Rightarrow> qword \<Rightarrow> dword \<Rightarrow> (int \<times> shm_info_s) option" where
  "shmget info_size pid s key sz shmflg =
     (if key = 0 then Some (- 1, s)
      else
        (case spinlock_lock (si_lock s) of
           None \<Rightarrow> None
         | Some l \<Rightarrow>
             map_option (\<lambda>(r, s1). (r, s1\<lparr>si_lock := spinlock_unlock (si_lock s1)\<rparr>))
               (shmget_locked info_size pid (s\<lparr>si_lock := l\<rparr>) key sz shmflg)))"

definition region_unlock :: "nat \<Rightarrow> shm_info_s \<Rightarrow> shm_info_s" where
  "region_unlock i = upd_region i (\<lambda>r. r\<lparr>sr_lock := spinlock_unlock (sr_lock r)\<rparr>)"

definition shmat :: "int \<Rightarrow> shm_info_s \<Rightarrow> int \<Rightarrow> (qword \<times> shm_info_s) option" where
  "shmat pid s shmid =
     (if shmid < 0 \<or> int MAXREGIONS \<le> shmid then Some (0, s)
      else
        (let i = nat shmid; region = si_region s i
         in if sr_flags region AND SRFLAG_INUSE = 0 then Some (0, s)
            else
              (case spinlock_lock (sr_lock region) of
                 None \<Rightarrow> None
               | Some l \<Rightarrow>
                   (let s1 = upd_region i (\<lambda>r. r\<lparr>sr_lock := l\<rparr>) s
                    in if sr_data region = 0 then Some (0, region_unlock i s1)
                       else Some (sr_data region,
                              region_unlock i (upd_region i (\<lambda>r. r\<lparr>sr_ds := (sr_ds r)\<lparr>
                                shm_nattch := shm_nattch (sr_ds r) + 1, shm_lpid := pid\<rparr>\<rparr>) s1))))))"

definition shmdt :: "int \<Rightarrow> shm_info_s \<Rightarrow> qword \<Rightarrow> (int \<times> shm_info_s) option" where
  "shmdt pid s shmaddr =
     (case find (\<lambda>i. shmaddr = sr_data (si_region s i)) [0..<MAXREGIONS] of
        None \<Rightarrow> Some (- 1, s)
      | Some i \<Rightarrow>
          (let region = si_region s i
           in if sr_flags region AND SRFLAG_INUSE = 0 then Some (- 1, s)
              else
                (case spinlock_lock (sr_lock region) of
                   None \<Rightarrow> None
                 | Some l \<Rightarrow>
                     (let s1 = upd_region i (\<lambda>r. r\<lparr>sr_lock := l\<rparr>) s;
                          n = shm_nattch (sr_ds region);
                          set_n = (\<lambda>k. upd_region i (\<lambda>r. r\<lparr>sr_ds := (sr_ds r)\<lparr>shm_nattch := k\<rparr>\<rparr>));
                          finish = (\<lambda>t. Some (0, region_unlock i
                            (upd_region i (\<lambda>r. r\<lparr>sr_ds := (sr_ds r)\<lparr>shm_lpid := pid\<rparr>\<rparr>) t)))
                      in if n = 0 then Some (- 1, region_unlock i s1)
                         else if n \<le> 1 then
                           if sr_flags region AND SRFLAG_UNLINKED \<noteq> 0
                           then map_option (\<lambda>t. (0, t)) (shm_destroy (set_n 0 s1) i)
                           else finish (set_n 0 s1)
                         else finish (set_n (n - 1) s1)))))"

text \<open>The buffer of \<^verbatim>\<open>shmctl\<close> is \<^const>\<open>None\<close> for NULL; the second component is its new contents.\<close>

definition shmctl :: "int \<Rightarrow> shm_info_s \<Rightarrow> int \<Rightarrow> int \<Rightarrow> shmid_ds option
    \<Rightarrow> (int \<times> shmid_ds option \<times> shm_info_s) option" where
  "shmctl pid s shmid cmd buf =
     (if shmid < 0 \<or> int MAXREGIONS \<le> shmid then Some (- 1, buf, s)
      else
        (let i = nat shmid; region = si_region s i
         in if sr_flags region AND SRFLAG_INUSE = 0 then Some (- 1, buf, s)
            else
              (case spinlock_lock (sr_lock region) of
                 None \<Rightarrow> None
               | Some l \<Rightarrow>
                   (let s1 = upd_region i (\<lambda>r. r\<lparr>sr_lock := l\<rparr>) s;
                        finish = (\<lambda>b t. Some (0, b, region_unlock i
                          (upd_region i (\<lambda>r. r\<lparr>sr_ds := (sr_ds r)\<lparr>shm_lpid := pid\<rparr>\<rparr>) t)))
                    in if cmd = IPC_STAT then
                         (case buf of
                            None \<Rightarrow> Some (- 1, buf, region_unlock i s1)
                          | Some b \<Rightarrow> finish (Some (sr_ds region)) s1)
                       else if cmd = IPC_SET then
                         (case buf of
                            None \<Rightarrow> None
                          | Some b \<Rightarrow>
                              finish buf (upd_region i (\<lambda>r. r\<lparr>sr_ds := (sr_ds r)\<lparr>
                                shm_perm_mode := shm_perm_mode b\<rparr>\<rparr>) s1))
                       else if cmd = IPC_RMID then
                         if 0 < shm_nattch (sr_ds region)
                         then finish buf (upd_region i (\<lambda>r. r\<lparr>sr_flags := sr_flags r OR SRFLAG_UNLINKED\<rparr>) s1)
                         else map_option (\<lambda>t. (0, buf, t)) (shm_destroy s1 i)
                       else Some (- 1, buf, region_unlock i s1)))))"

end
