(* ===== verification/ShmProps.thy ===== *)
theory ShmProps
  imports Shm
begin

text \<open>
  The invariant of the region table (every used region has its own key and its own live block of
  the pool, and every live block belongs to a used region), its preservation by all four calls,
  and their behaviour.
\<close>

section \<open>The invariant\<close>

definition used_regions :: "shm_info_s \<Rightarrow> nat set" where
  "used_regions s = {i. i < MAXREGIONS \<and> sr_flags (si_region s i) \<noteq> 0}"

definition region_good :: "shm_region_s \<Rightarrow> bool" where
  "region_good r \<longleftrightarrow> sr_flags r AND SRFLAG_INUSE \<noteq> 0 \<and> sr_key r \<noteq> 0 \<and> sr_data r \<noteq> 0 \<and> lock (sr_lock r) = 0"

definition table_ok :: "shm_info_s \<Rightarrow> bool" where
  "table_ok s \<longleftrightarrow>
     shm_ok s \<and>
     (\<forall>i<MAXREGIONS. sr_flags (si_region s i) = 0 \<longrightarrow> si_region s i = zero_region) \<and>
     (\<forall>i\<in>used_regions s. region_good (si_region s i)) \<and>
     inj_on (\<lambda>i. sr_key (si_region s i)) (used_regions s) \<and>
     inj_on (\<lambda>i. sr_data (si_region s i)) (used_regions s) \<and>
     (\<lambda>i. sr_data (si_region s i)) ` used_regions s = fst ` shm_live s"

lemma table_okD:
  assumes "table_ok s"
  shows "shm_ok s"
    "i < MAXREGIONS \<Longrightarrow> sr_flags (si_region s i) = 0 \<Longrightarrow> si_region s i = zero_region"
    "i \<in> used_regions s \<Longrightarrow> region_good (si_region s i)"
    "inj_on (\<lambda>i. sr_key (si_region s i)) (used_regions s)"
    "inj_on (\<lambda>i. sr_data (si_region s i)) (used_regions s)"
    "(\<lambda>i. sr_data (si_region s i)) ` used_regions s = fst ` shm_live s"
  using assms by (auto simp: table_ok_def)

lemma region_goodD:
  assumes "region_good r"
  shows "sr_flags r AND SRFLAG_INUSE \<noteq> 0" "sr_flags r \<noteq> 0" "sr_key r \<noteq> 0" "sr_data r \<noteq> 0" "lock (sr_lock r) = 0"
  using assms by (auto simp: region_good_def)

lemma used_iff: "i \<in> used_regions s \<longleftrightarrow> i < MAXREGIONS \<and> sr_flags (si_region s i) \<noteq> 0"
  by (simp add: used_regions_def)

lemma inuse_bit_used: "table_ok s \<Longrightarrow> i < MAXREGIONS \<Longrightarrow>
    sr_flags (si_region s i) AND SRFLAG_INUSE \<noteq> 0 \<longleftrightarrow> i \<in> used_regions s"
  using table_okD(3) [of s i] by (auto simp: used_iff region_good_def)

section \<open>Updates of one region\<close>

lemma upd_region_fields [simp]:
  "shm_free_mem_mgt (upd_region i f s) = shm_free_mem_mgt s" "shm_mem (upd_region i f s) = shm_mem s"
  "si_lock (upd_region i f s) = si_lock s" "shm_init_flag (upd_region i f s) = shm_init_flag s"
  "si_region (upd_region i f s) = (si_region s)(i := f (si_region s i))"
  by (simp_all add: upd_region_def)

lemma upd_region_upd [simp]: "upd_region i f (upd_region i g s) = upd_region i (\<lambda>r. f (g r)) s"
  by (simp add: upd_region_def)

lemma upd_region_live [simp]: "shm_live (upd_region i f s) = shm_live s"
  by (simp add: shm_live_def)

lemma upd_region_ok [simp]: "shm_ok (upd_region i f s) = shm_ok s"
  by (simp add: shm_ok_def)

lemma table_ok_upd:
  assumes t: "table_ok s" and u: "i \<in> used_regions s"
    and f: "region_good (f (si_region s i))" "sr_key (f (si_region s i)) = sr_key (si_region s i)"
      "sr_data (f (si_region s i)) = sr_data (si_region s i)"
  shows "table_ok (upd_region i f s)" "used_regions (upd_region i f s) = used_regions s"
proof -
  show U: "used_regions (upd_region i f s) = used_regions s"
    using u region_goodD(2) [OF f(1)] by (auto simp: used_regions_def)
  have k: "(\<lambda>j. sr_key (si_region (upd_region i f s) j)) = (\<lambda>j. sr_key (si_region s j))"
    "(\<lambda>j. sr_data (si_region (upd_region i f s) j)) = (\<lambda>j. sr_data (si_region s j))"
    using f by auto
  show "table_ok (upd_region i f s)"
    unfolding table_ok_def U k using table_okD [OF t] f(1) region_goodD(2) [OF f(1)] by auto
qed

lemma shm_free_upd_region:
  "shm_free (upd_region i f s) a = map_option (\<lambda>(b, t). (b, upd_region i f t)) (shm_free s a)"
proof -
  have "as_kernel (upd_region i f s) = as_kernel s" by (simp add: as_kernel_def)
  moreover have "from_kernel (upd_region i f s) t = upd_region i f (from_kernel s t)" for t
    by (simp add: from_kernel_def upd_region_def)
  ultimately show ?thesis
    by (cases "az_free (as_kernel s) a") (auto simp: shm_free_eq)
qed

lemma shm_destroy_upd:
  assumes "sr_data (f (si_region s i)) = sr_data (si_region s i)"
  shows "shm_destroy (upd_region i f s) i = shm_destroy s i"
  using assms by (simp add: shm_destroy_def shm_free_upd_region option.map_comp comp_def case_prod_beta
      split: option.split)

section \<open>The pool under the table\<close>

text \<open>Live blocks have distinct addresses, so a region's address determines its block.\<close>

lemma live_address_inj:
  assumes "shm_ok s" "(a, n) \<in> shm_live s" "(a, n') \<in> shm_live s"
  shows "n = n'"
proof (rule ccontr)
  assume "n \<noteq> n'"
  then have "disjoint_regions (a, n) (a, n')" using smem.live_disjoint assms by blast
  moreover have "0 < n" "0 < n'" using assms(2,3) by (auto simp: shm_live_def block_region_def)
  then have "in_region a (a, n)" "in_region a (a, n')" by (simp_all add: in_region_def in_range_def)
  ultimately show False by (auto simp: disjoint_regions_def)
qed

lemma live_fst_inj: "shm_ok s \<Longrightarrow> inj_on fst (shm_live s)"
  by (auto intro!: inj_onI dest: live_address_inj)

lemma shm_alloc_frame:
  assumes "shm_alloc s sz = Some (r, s')"
  shows "si_region s' = si_region s" "si_lock s' = si_lock s" "shm_init_flag s' = shm_init_flag s"
  using assms by (auto simp: shm_alloc_eq from_kernel_def)

lemma shm_free_frame:
  assumes "shm_free s a = Some (b, s')"
  shows "si_region s' = si_region s" "si_lock s' = si_lock s" "shm_init_flag s' = shm_init_flag s"
  using assms by (auto simp: shm_free_eq from_kernel_def)

lemma inj_on_field_cong:
  "(\<And>j. j \<in> A \<Longrightarrow> f j = g j) \<Longrightarrow> inj_on (\<lambda>j. h (g j)) A \<Longrightarrow> inj_on (\<lambda>j. h (f j)) A"
  by (simp add: inj_on_def)

lemma shm_destroy_used:
  assumes t: "table_ok s" and u: "i \<in> used_regions s"
  obtains s' where "shm_destroy s i = Some s'" "table_ok s'" "si_region s' = (si_region s)(i := zero_region)"
    "si_lock s' = si_lock s" "shm_init_flag s' = shm_init_flag s"
    "fst ` shm_live s' = fst ` shm_live s - {sr_data (si_region s i)}"
proof -
  let ?a = "sr_data (si_region s i)"
  have nz: "?a \<noteq> 0" using region_goodD(4) [OF table_okD(3) [OF t u]] .
  have "?a \<in> (\<lambda>j. sr_data (si_region s j)) ` used_regions s" using u by (rule imageI)
  then have "?a \<in> fst ` shm_live s" using table_okD(6) [OF t] by simp
  then obtain n where n: "(?a, n) \<in> shm_live s" by auto
  obtain s1 where s1: "shm_free s ?a = Some (True, s1)" "shm_ok s1" "shm_live s1 = shm_live s - {(?a, n)}"
    using smem.free_law [OF table_okD(1) [OF t] n] by blast
  note fr = shm_free_frame [OF s1(1)]
  let ?s' = "upd_region i (\<lambda>_. zero_region) s1"
  have live: "fst ` shm_live ?s' = fst ` shm_live s - {?a}"
    using inj_on_image_set_diff [OF live_fst_inj [OF table_okD(1) [OF t]], of "shm_live s" "{(?a, n)}"] n
    by (simp add: s1(3))
  have U: "used_regions ?s' = used_regions s - {i}"
    by (auto simp: used_regions_def fr zero_region_def)
  have reg: "si_region ?s' j = si_region s j" if "j \<in> used_regions s - {i}" for j using that by (simp add: fr)
  have inj: "inj_on (\<lambda>j. sr_key (si_region ?s' j)) (used_regions s - {i})"
    by (rule inj_on_field_cong [OF reg], assumption) (rule inj_on_subset [OF table_okD(4) [OF t] Diff_subset])
  have inj': "inj_on (\<lambda>j. sr_data (si_region ?s' j)) (used_regions s - {i})"
    by (rule inj_on_field_cong [OF reg], assumption) (rule inj_on_subset [OF table_okD(5) [OF t] Diff_subset])
  have "(\<lambda>j. sr_data (si_region ?s' j)) ` (used_regions s - {i}) =
      (\<lambda>j. sr_data (si_region s j)) ` (used_regions s - {i})"
    by (rule image_cong) (simp_all add: reg del: upd_region_fields)
  also have "\<dots> = (\<lambda>j. sr_data (si_region s j)) ` used_regions s - {?a}"
    using u inj_on_image_set_diff [OF table_okD(5) [OF t], of "used_regions s" "{i}"] by simp
  finally have "(\<lambda>j. sr_data (si_region ?s' j)) ` (used_regions s - {i}) =
      (\<lambda>j. sr_data (si_region s j)) ` used_regions s - {?a}" .
  then have im: "(\<lambda>j. sr_data (si_region ?s' j)) ` (used_regions s - {i}) = fst ` shm_live ?s'"
    using live table_okD(6) [OF t] by simp
  have "table_ok ?s'"
    unfolding table_ok_def U
  proof (intro conjI allI impI ballI)
    show "si_region ?s' j = zero_region" if "j < MAXREGIONS" "sr_flags (si_region ?s' j) = 0" for j
      using that table_okD(2) [OF t, of j] by (simp add: fr split: if_splits)
    show "region_good (si_region ?s' j)" if "j \<in> used_regions s - {i}" for j
      using table_okD(3) [OF t, of j] that by (simp add: reg del: upd_region_fields)
  qed (use inj inj' im s1(2) in \<open>simp_all del: upd_region_fields\<close>)
  moreover have "shm_destroy s i = Some ?s'" using nz s1(1) by (simp add: shm_destroy_def)
  ultimately show thesis
    using live by (intro that [of ?s']) (simp_all add: fr)
qed

section \<open>The calls keep the invariant\<close>

lemma lock_region:
  assumes "table_ok s" "i \<in> used_regions s"
  shows "spinlock_lock (sr_lock (si_region s i)) = Some ((sr_lock (si_region s i))\<lparr>lock := 1\<rparr>)"
  using region_goodD(5) [OF table_okD(3) [OF assms]] by (simp add: spinlock_lock_free)

lemma unlock_region_lock [simp]: "lock l = 0 \<Longrightarrow> spinlock_unlock (l\<lparr>lock := x\<rparr>) = l"
  by (simp add: spinlock_unlock_def)

text \<open>Taking a region's lock, changing its description and releasing the lock.\<close>

lemma region_good_ds:
  "region_good r \<Longrightarrow> region_good (r\<lparr>sr_ds := d\<rparr>)"
  "region_good r \<Longrightarrow> region_good (r\<lparr>sr_lock := spinlock_unlock l, sr_ds := d\<rparr>)"
  by (simp_all add: region_good_def)

lemma shmat_used:
  assumes t: "table_ok s" and u: "i \<in> used_regions s"
  shows "shmat pid s (int i) = Some (sr_data (si_region s i),
    upd_region i (\<lambda>r. r\<lparr>sr_ds := (sr_ds r)\<lparr>shm_nattch := shm_nattch (sr_ds r) + 1, shm_lpid := pid\<rparr>\<rparr>) s)"
proof -
  note g = region_goodD [OF table_okD(3) [OF t u]]
  have "i < MAXREGIONS" using u by (simp add: used_iff)
  then show ?thesis
    using g by (simp add: shmat_def Let_def lock_region [OF t u] region_unlock_def upd_region_def fun_eq_iff)
qed

lemma shmat_unused:
  assumes t: "table_ok s" and u: "\<not> (0 \<le> shmid \<and> nat shmid \<in> used_regions s)"
  shows "shmat pid s shmid = Some (0, s)"
proof (cases "shmid < 0 \<or> int MAXREGIONS \<le> shmid")
  case True
  then show ?thesis by (simp add: shmat_def)
next
  case False
  then have "sr_flags (si_region s (nat shmid)) = 0" using u by (auto simp: used_iff nat_less_iff)
  then show ?thesis by (simp add: shmat_def Let_def)
qed

lemma table_ok_ds:
  assumes "table_ok s" "i \<in> used_regions s"
  shows "table_ok (upd_region i (\<lambda>r. r\<lparr>sr_ds := f r\<rparr>) s)"
  using table_okD(3) [OF assms] by (intro table_ok_upd assms region_good_ds) simp_all

lemma shmdt_cases:
  assumes t: "table_ok s"
  obtains (unknown) "shmdt pid s a = Some (- 1, s)" "\<forall>i\<in>used_regions s. sr_data (si_region s i) = a \<longrightarrow>
      shm_nattch (sr_ds (si_region s i)) = 0"
  | (found) i where "i \<in> used_regions s" "sr_data (si_region s i) = a" "shm_nattch (sr_ds (si_region s i)) \<noteq> 0"
proof (cases "\<exists>i\<in>used_regions s. sr_data (si_region s i) = a \<and> shm_nattch (sr_ds (si_region s i)) \<noteq> 0")
  case True
  then show thesis using found by blast
next
  case no: False
  have "shmdt pid s a = Some (- 1, s)"
  proof (cases "find (\<lambda>i. a = sr_data (si_region s i)) [0..<MAXREGIONS]")
    case None
    then show ?thesis by (simp add: shmdt_def)
  next
    case (Some i)
    then have i: "i < MAXREGIONS" "a = sr_data (si_region s i)" by (auto simp: find_upt_Some_iff)
    show ?thesis
    proof (cases "i \<in> used_regions s")
      case True
      then have n: "shm_nattch (sr_ds (si_region s i)) = 0" using no i by blast
      have "upd_region i (\<lambda>r. r\<lparr>sr_lock := spinlock_unlock ((sr_lock (si_region s i))\<lparr>lock := 1\<rparr>)\<rparr>) s = s"
        using region_goodD(5) [OF table_okD(3) [OF t True]] by (simp add: upd_region_def)
      then show ?thesis
        using Some n region_goodD(1) [OF table_okD(3) [OF t True]]
        by (simp add: shmdt_def Let_def lock_region [OF t True] region_unlock_def)
    next
      case False
      then have "sr_flags (si_region s i) = 0" using i by (simp add: used_iff)
      then show ?thesis using Some by (simp add: shmdt_def Let_def)
    qed
  qed
  then show thesis using unknown no by blast
qed

lemma word_le_one_iff: "n \<noteq> 0 \<Longrightarrow> n \<le> 1 \<longleftrightarrow> n = 1" for n :: "16 word"
  unfolding word_le_nat_alt word_unat_eq_iff by auto

lemma shmdt_found:
  assumes t: "table_ok s" and u: "i \<in> used_regions s" and n: "shm_nattch (sr_ds (si_region s i)) \<noteq> 0"
  shows "shmdt pid s (sr_data (si_region s i)) =
    (if shm_nattch (sr_ds (si_region s i)) = 1 \<and> sr_flags (si_region s i) AND SRFLAG_UNLINKED \<noteq> 0
     then map_option (\<lambda>t. (0, t)) (shm_destroy s i)
     else Some (0, upd_region i (\<lambda>r. r\<lparr>sr_ds := (sr_ds r)\<lparr>
       shm_nattch := shm_nattch (sr_ds r) - 1, shm_lpid := pid\<rparr>\<rparr>) s))"
proof -
  let ?r = "si_region s i"
  note g = region_goodD [OF table_okD(3) [OF t u]]
  have i: "i < MAXREGIONS" using u by (simp add: used_iff)
  have "find (\<lambda>j. sr_data ?r = sr_data (si_region s j)) [0..<MAXREGIONS] = Some i"
  proof -
    have "sr_data ?r \<noteq> sr_data (si_region s j)" if "j < i" for j
    proof (cases "j \<in> used_regions s")
      case True
      then show ?thesis using inj_onD [OF table_okD(5) [OF t]] u that by fastforce
    next
      case False
      then have "si_region s j = zero_region" using table_okD(2) [OF t, of j] i that by (simp add: used_iff)
      then show ?thesis using g(4) by (simp add: zero_region_def)
    qed
    then show ?thesis using i by (simp add: find_upt_Some_iff)
  qed
  moreover have "shm_nattch (sr_ds ?r) \<le> 1 \<longleftrightarrow> shm_nattch (sr_ds ?r) = 1"
    using n by (rule word_le_one_iff)
  moreover have "shm_destroy (upd_region i (\<lambda>r. r\<lparr>sr_lock := l, sr_ds := f r\<rparr>) s) i = shm_destroy s i" for l f
    by (rule shm_destroy_upd) simp
  ultimately have
    "shmdt pid s (sr_data ?r) =
       (if shm_nattch (sr_ds ?r) = 1 \<and> sr_flags ?r AND SRFLAG_UNLINKED \<noteq> 0
        then map_option (\<lambda>t. (0, t)) (shm_destroy s i)
        else Some (0, upd_region i (\<lambda>r. r\<lparr>sr_ds := (sr_ds r)\<lparr>shm_nattch := shm_nattch (sr_ds ?r) - 1, shm_lpid := pid\<rparr>,
          sr_lock := spinlock_unlock ((sr_lock ?r)\<lparr>lock := 1\<rparr>)\<rparr>) s))"
    using g(1) n by (simp add: shmdt_def Let_def lock_region [OF t u] region_unlock_def)
  moreover have "upd_region i (\<lambda>r. r\<lparr>sr_ds := (sr_ds r)\<lparr>shm_nattch := shm_nattch (sr_ds ?r) - 1, shm_lpid := pid\<rparr>,
      sr_lock := spinlock_unlock ((sr_lock ?r)\<lparr>lock := 1\<rparr>)\<rparr>) s =
    upd_region i (\<lambda>r. r\<lparr>sr_ds := (sr_ds r)\<lparr>shm_nattch := shm_nattch (sr_ds r) - 1, shm_lpid := pid\<rparr>\<rparr>) s"
    using g(5) by (simp add: upd_region_def)
  ultimately show ?thesis by (simp only:)
qed

section \<open>Creating a region\<close>

lemma inj_on_insert_fresh: "inj_on f A \<Longrightarrow> \<forall>j\<in>A. f j \<noteq> f i \<Longrightarrow> inj_on f (insert i A)"
  by (force simp: inj_on_insert)

lemma table_ok_new:
  assumes t: "table_ok s" and i: "i < MAXREGIONS" "i \<notin> used_regions s"
    and k: "key \<noteq> 0" "\<forall>j\<in>used_regions s. sr_key (si_region s j) \<noteq> key"
    and a: "(p, n) \<notin> shm_live s" "shm_live s2 = insert (p, n) (shm_live s)" "shm_ok s2" "p \<noteq> 0"
    and reg: "si_region s2 = (si_region s)(i := r)"
    and r: "region_good r" "sr_key r = key" "sr_data r = p"
  shows "table_ok s2" "used_regions s2 = insert i (used_regions s)"
proof -
  show U: "used_regions s2 = insert i (used_regions s)"
    using i region_goodD(2) [OF r(1)] by (auto simp: used_regions_def reg)
  have old: "si_region s2 j = si_region s j" if "j \<in> used_regions s" for j
    using that i(2) by (auto simp: reg)
  have new: "si_region s2 i = r" by (simp add: reg)
  have "p \<notin> fst ` shm_live s"
  proof
    assume "p \<in> fst ` shm_live s"
    then obtain b where b: "(p, b) \<in> shm_live s" by auto
    then have "b = n" using live_address_inj [OF a(3), of p b n] by (simp add: a(2))
    then show False using a(1) b by simp
  qed
  then have fresh: "\<forall>j\<in>used_regions s. sr_data (si_region s j) \<noteq> p"
    using table_okD(6) [OF t] by auto
  have ki: "inj_on (\<lambda>j. sr_key (si_region s2 j)) (used_regions s)"
    by (rule inj_on_field_cong [OF old], assumption) (rule table_okD(4) [OF t])
  have di: "inj_on (\<lambda>j. sr_data (si_region s2 j)) (used_regions s)"
    by (rule inj_on_field_cong [OF old], assumption) (rule table_okD(5) [OF t])
  have im: "(\<lambda>j. sr_data (si_region s2 j)) ` used_regions s = fst ` shm_live s"
    using table_okD(6) [OF t] by (simp add: old cong: image_cong)
  show "table_ok s2"
    unfolding table_ok_def U
  proof (intro conjI allI impI ballI)
    show "shm_ok s2" by (rule a(3))
    show "si_region s2 j = zero_region" if "j < MAXREGIONS" "sr_flags (si_region s2 j) = 0" for j
      using that table_okD(2) [OF t, of j] region_goodD(2) [OF r(1)] by (auto simp: reg split: if_splits)
    show "region_good (si_region s2 j)" if "j \<in> insert i (used_regions s)" for j
      using that table_okD(3) [OF t, of j] r(1) by (auto simp: reg)
    show "inj_on (\<lambda>j. sr_key (si_region s2 j)) (insert i (used_regions s))"
      using k(2) by (intro inj_on_insert_fresh [OF ki]) (simp add: old new r(2))
    show "inj_on (\<lambda>j. sr_data (si_region s2 j)) (insert i (used_regions s))"
      using fresh by (intro inj_on_insert_fresh [OF di]) (simp add: old new r(3))
    show "(\<lambda>j. sr_data (si_region s2 j)) ` insert i (used_regions s) = fst ` shm_live s2"
      using im by (simp add: a(2) reg r(3))
  qed
qed

definition new_region :: "int \<Rightarrow> int \<Rightarrow> qword \<Rightarrow> dword \<Rightarrow> qword \<Rightarrow> shm_region_s" where
  "new_region pid key sz shmflg p =
     zero_region\<lparr>sr_key := key, sr_flags := SRFLAG_INUSE, sr_data := p,
       sr_ds := zero_ds\<lparr>shm_perm_mode := shmflg AND IPC_MODE, shm_segsz := sz, shm_cpid := pid\<rparr>\<rparr>"

lemma new_region_good: "key \<noteq> 0 \<Longrightarrow> p \<noteq> 0 \<Longrightarrow> region_good (new_region pid key sz flg p)"
  by (simp add: region_good_def new_region_def zero_region_def SRFLAG_INUSE_def)

text \<open>
  The outcomes of \<^verbatim>\<open>shm_create\<close>: no table entry left or no memory left (nothing changes), or a new
  region in the first unused entry with a fresh block.
\<close>

lemma shm_alloc_zero:
  assumes ok: "shm_ok s" and sz: "unat sz \<le> 2 ^ 30" and z: "shm_alloc s sz = Some (0, s')"
  shows "\<not> pages (level_for sz, j) \<subseteq> free_pages (shm_free_mem_mgt s)"
proof
  let ?t = "as_kernel s" and ?l = "level_for sz"
  assume a: "pages (?l, j) \<subseteq> free_pages (shm_free_mem_mgt s)"
  have o: "mm_ok (g_free_memory ?t)" "stat_ok (stat ?t)"
    using ok by (simp_all flip: as_kernel_ok add: kernel_ok_def)
  have j: "pages (?l, j) \<subseteq> free_pages (g_free_memory ?t)" using a by simp
  obtain k t' where "az_alloc ?t sz = Some (addr_of (g_free_memory ?t) (?l, k), t')"
    "pages (?l, k) \<subseteq> free_pages (g_free_memory ?t)"
    by (rule az_alloc_succeeds [OF o sz j]; rule that; assumption)
  then show False
    using z addr_of_nonzero [OF o(1) pages_free_range, of ?l k] by (simp add: shm_alloc_eq)
qed

lemma shm_alloc_size:
  assumes ok: "shm_ok s" and sz: "unat sz \<le> 2 ^ 30" and a: "shm_alloc s sz = Some (p, s')" "p \<noteq> 0"
    and l: "(p, n) \<notin> shm_live s" "shm_live s' = insert (p, n) (shm_live s)"
  shows "n = 4096 * 2 ^ level_for sz"
proof (cases "\<exists>j. pages (level_for sz, j) \<subseteq> free_pages (g_free_memory (as_kernel s))")
  let ?t = "as_kernel s" and ?l = "level_for sz"
  have o: "mm_ok (g_free_memory ?t)" "stat_ok (stat ?t)"
    using ok by (simp_all flip: as_kernel_ok add: kernel_ok_def)
  {
    case True
    then obtain j where j: "pages (?l, j) \<subseteq> free_pages (g_free_memory ?t)" by blast
    obtain k t' where t': "az_alloc ?t sz = Some (addr_of (g_free_memory ?t) (?l, k), t')"
      "alloc_blocks (g_free_memory t') = insert (?l, k) (alloc_blocks (g_free_memory ?t))"
      "start_addr (g_free_memory t') = start_addr (g_free_memory ?t)"
      by (rule az_alloc_succeeds [OF o sz j]; rule that; assumption)
    have "s' = from_kernel s t'" using a(1) t'(1) by (simp add: shm_alloc_eq)
    then have "shm_live s' = insert (block_region (g_free_memory ?t) (?l, k)) (shm_live s)"
      by (simp add: from_kernel_live flip: as_kernel_live)
        (simp add: kernel_live_def t'(2) block_region_cong [OF t'(3)])
    then have "(p, n) = block_region (g_free_memory ?t) (?l, k)" using l by auto
    then show ?thesis by (simp add: block_region_def)
  next
    case False
    then show ?thesis using az_alloc_fails [OF o(1) sz] a by (simp add: shm_alloc_eq)
  }
qed

lemma shm_create_cases:
  assumes t: "table_ok s" and sz: "unat sz \<le> 2 ^ 30" and k: "key \<noteq> 0" "\<forall>j\<in>used_regions s. sr_key (si_region s j) \<noteq> key"
  obtains (full) "used_regions s = {..<MAXREGIONS}" "shm_create pid s key sz flg = Some (- ENOSPC, s)"
  | (nomem) "shm_create pid s key sz flg = Some (- ENOMEM, s)"
      "\<And>j. \<not> pages (level_for sz, j) \<subseteq> free_pages (shm_free_mem_mgt s)"
  | (new) i p n s' where "i < MAXREGIONS" "i \<notin> used_regions s" "shm_create pid s key sz flg = Some (int i, s')"
      "si_region s' = (si_region s)(i := new_region pid key sz flg p)" "p \<noteq> 0" "n = 4096 * 2 ^ level_for sz"
      "shm_live s' = insert (p, n) (shm_live s)" "table_ok s'" "used_regions s' = insert i (used_regions s)"
      "si_lock s' = si_lock s" "shm_init_flag s' = shm_init_flag s"
proof (cases "find (\<lambda>i. sr_flags (si_region s i) = 0) [0..<MAXREGIONS]")
  case None
  then have "used_regions s = {..<MAXREGIONS}" by (auto simp: find_upt_None_iff used_regions_def)
  then show thesis using full None by (simp add: shm_create_def shm_reserve_def ENOSPC_def)
next
  case (Some i)
  then have i: "i < MAXREGIONS" "sr_flags (si_region s i) = 0" by (auto simp: find_upt_Some_iff)
  then have z: "si_region s i = zero_region" "i \<notin> used_regions s"
    using table_okD(2) [OF t] by (simp_all add: used_iff)
  define f where "f = (\<lambda>r :: shm_region_s. r\<lparr>sr_key := key, sr_flags := SRFLAG_INUSE, sr_lock := spinlock_init (sr_lock r),
    sr_ds := (sr_ds r)\<lparr>shm_perm_mode := flg AND IPC_MODE\<rparr>\<rparr>)"
  let ?s1 = "upd_region i f s"
  have res: "shm_reserve s key flg = (int i, ?s1)" using Some by (simp add: shm_reserve_def f_def)
  have ok1: "shm_ok ?s1" using table_okD(1) [OF t] by simp
  obtain p s2 where al: "shm_alloc ?s1 sz = Some (p, s2)" "shm_ok s2"
    and c: "p = 0 \<and> s2 = ?s1 \<or> p \<noteq> 0 \<and> (\<exists>n\<ge>unat sz. (p, n) \<notin> shm_live s \<and> shm_live s2 = insert (p, n) (shm_live s))"
    using smem.alloc_law [OF ok1 sz] by auto
  note fr = shm_alloc_frame [OF al(1)]
  show thesis
  proof (cases "p = 0")
    case True
    have "upd_region i (\<lambda>_. zero_region) s = s" using z(1) by (simp add: upd_region_def fun_upd_idem)
    then have "shm_create pid s key sz flg = Some (- ENOMEM, s)"
      using True c al(1) by (simp add: shm_create_def res Let_def shm_destroy_def)
    moreover have "\<not> pages (level_for sz, j) \<subseteq> free_pages (shm_free_mem_mgt s)" for j
      using shm_alloc_zero [OF ok1 sz, of s2 j] al(1) True by simp
    ultimately show thesis by (rule nomem)
  next
    case False
    then obtain n where n: "unat sz \<le> n" "(p, n) \<notin> shm_live s" "shm_live s2 = insert (p, n) (shm_live s)"
      using c by blast
    let ?s' = "upd_region i (\<lambda>r. r\<lparr>sr_data := p, sr_ds := (sr_ds r)\<lparr>shm_segsz := sz, shm_cpid := pid\<rparr>\<rparr>) s2"
    have cr: "shm_create pid s key sz flg = Some (int i, ?s')"
      using False al(1) by (simp add: shm_create_def res Let_def)
    have reg: "si_region ?s' = (si_region s)(i := new_region pid key sz flg p)"
      by (simp add: fr f_def z(1) new_region_def zero_region_def spinlock_init_def)
    note T = table_ok_new [OF t i(1) z(2) k n(2) _ _ False reg new_region_good [OF k(1) False]]
    have T': "table_ok ?s'" "used_regions ?s' = insert i (used_regions s)"
      using T n(3) al(2) by (simp_all add: new_region_def)
    show thesis
      using shm_alloc_size [OF ok1 sz al(1) False, of n] n(2,3)
      by (intro new [OF i(1) z(2) cr reg False]) (use n(3) T' fr in simp_all)
  qed
qed

section \<open>shmget\<close>

lemma shm_find_cases:
  assumes t: "table_ok s" and k: "key \<noteq> 0"
  obtains (absent) "shm_find s key = - 1" "\<forall>j\<in>used_regions s. sr_key (si_region s j) \<noteq> key"
  | (found) i where "shm_find s key = int i" "i \<in> used_regions s" "sr_key (si_region s i) = key"
proof (cases "find (\<lambda>i. sr_key (si_region s i) = key) [0..<MAXREGIONS]")
  case None
  then have "shm_find s key = - 1" by (simp add: shm_find_def)
  then show thesis using None by (intro absent) (auto simp: find_upt_None_iff used_iff)
next
  case (Some i)
  then have i: "i < MAXREGIONS" "sr_key (si_region s i) = key" by (auto simp: find_upt_Some_iff)
  moreover have "sr_flags (si_region s i) \<noteq> 0"
    using table_okD(2) [OF t i(1)] i(2) k by (auto simp: zero_region_def)
  ultimately show thesis using Some found by (simp add: shm_find_def used_iff)
qed

lemma shm_find_key:
  assumes t: "table_ok s" and u: "i \<in> used_regions s"
  shows "shm_find s (sr_key (si_region s i)) = int i"
proof -
  have k: "sr_key (si_region s i) \<noteq> 0" using region_goodD(3) [OF table_okD(3) [OF t u]] .
  show ?thesis
  proof (rule shm_find_cases [OF t k])
    assume "\<forall>j\<in>used_regions s. sr_key (si_region s j) \<noteq> sr_key (si_region s i)"
    then show ?thesis using u by blast
  next
    fix j assume found: "shm_find s (sr_key (si_region s i)) = int j" "j \<in> used_regions s"
      "sr_key (si_region s j) = sr_key (si_region s i)"
    then show ?thesis using inj_onD [OF table_okD(4) [OF t], of j i] u by simp
  qed
qed

lemma mem_update_simps [simp]:
  "used_regions (s\<lparr>shm_mem := M\<rparr>) = used_regions s" "shm_live (s\<lparr>shm_mem := M\<rparr>) = shm_live s"
  "table_ok (s\<lparr>shm_mem := M\<rparr>) = table_ok s"
  by (simp_all add: used_regions_def shm_live_def table_ok_def shm_ok_def)

lemma si_lock_update_simps [simp]:
  "used_regions (s\<lparr>si_lock := l\<rparr>) = used_regions s" "shm_live (s\<lparr>si_lock := l\<rparr>) = shm_live s"
  "table_ok (s\<lparr>si_lock := l\<rparr>) = table_ok s"
  by (simp_all add: used_regions_def shm_live_def table_ok_def shm_ok_def)

lemma init_flag_update_simps [simp]:
  "used_regions (s\<lparr>shm_init_flag := l\<rparr>) = used_regions s" "shm_live (s\<lparr>shm_init_flag := l\<rparr>) = shm_live s"
  "table_ok (s\<lparr>shm_init_flag := l\<rparr>) = table_ok s"
  by (simp_all add: used_regions_def shm_live_def table_ok_def shm_ok_def)

definition shm_wf :: "shm_info_s \<Rightarrow> bool" where
  "shm_wf s \<longleftrightarrow> lock (si_lock s) = 0 \<and> (shm_init_flag s \<noteq> 0 \<longrightarrow> table_ok s)"

lemma first_use_ok:
  assumes "shm_init_flag s \<noteq> 0 \<longrightarrow> table_ok s" "info_size \<le> 2 ^ 28"
  shows "table_ok (first_use info_size s)" "shm_init_flag (first_use info_size s) \<noteq> 0"
    "si_lock (first_use info_size s) = si_lock s"
proof -
  show "table_ok (first_use info_size s)"
  proof (cases "shm_init_flag s = 0")
    case True
    let ?t = "shm_free_mem_init info_size (shm_initialize s)"
    have reg: "si_region ?t = si_region (shm_initialize s)"
      by (simp add: shm_free_mem_init_def Let_def)
    have U: "used_regions ?t = {}"
      unfolding used_regions_def reg by (simp add: shm_initialize_def zero_region_def)
    have "shm_live ?t = {}" using shm_init_ok(2) [OF assms(2)] by (simp add: shm_live_def)
    moreover have "si_region ?t i = zero_region" if "i < MAXREGIONS" for i
      using that unfolding reg by (simp add: shm_initialize_def)
    ultimately have "table_ok ?t"
      using shm_init_ok(1) [OF assms(2), of "shm_initialize s"] by (simp add: table_ok_def U)
    then show ?thesis using True by (simp add: first_use_def)
  next
    case False
    then show ?thesis using assms(1) by (simp add: first_use_def)
  qed
  show "shm_init_flag (first_use info_size s) \<noteq> 0" "si_lock (first_use info_size s) = si_lock s"
    by (simp_all add: first_use_def shm_free_mem_init_def shm_initialize_def Let_def)
qed

lemma and_or_inuse: "x AND SRFLAG_INUSE \<noteq> 0 \<Longrightarrow> (x OR SRFLAG_UNLINKED) AND SRFLAG_INUSE \<noteq> 0"
  by (simp add: SRFLAG_INUSE_def SRFLAG_UNLINKED_def bit.conj_disj_distrib2)

lemma inuse_region_good: "region_good r \<Longrightarrow> region_good (r\<lparr>sr_flags := SRFLAG_INUSE\<rparr>)"
  by (simp add: region_good_def SRFLAG_INUSE_def)

lemma shm_extend_cases:
  assumes t: "table_ok s" and u: "i \<in> used_regions s"
  obtains (refused) "shm_extend s i sz = (- ENOMEM, s)"
  | (extended) s' where "shm_extend s i sz = (1, s')" "table_ok s'" "used_regions s' = used_regions s"
      "sr_key (si_region s' i) = sr_key (si_region s i)" "sz \<le> shm_segsz (sr_ds (si_region s' i))"
      "si_lock s' = si_lock s" "shm_init_flag s' = shm_init_flag s" "shm_live s' = shm_live s"
proof -
  let ?seg = "shm_segsz (sr_ds (si_region s i))"
  let ?f = "\<lambda>r :: shm_region_s. r\<lparr>sr_ds := (sr_ds r)\<lparr>shm_segsz := sz\<rparr>\<rparr>"
  let ?s1 = "s\<lparr>shm_mem := lk_memset (shm_mem s) (sr_data (si_region s i) + ?seg) 0 (int_of_qword (sz - ?seg))\<rparr>"
  have good: "region_good (?f (si_region s i))" using table_okD(3) [OF t u] by (rule region_good_ds)
  have T: "table_ok (upd_region i ?f ?s1)" "used_regions (upd_region i ?f ?s1) = used_regions s"
    using table_ok_upd [of ?s1 i ?f] t u good by simp_all
  consider "?seg < sz" "shm_get_buddy_block_size ?seg < sz" | "?seg < sz" "\<not> shm_get_buddy_block_size ?seg < sz"
    | "\<not> ?seg < sz" by blast
  then show thesis
  proof cases
    case 1
    then show thesis using refused by (simp add: shm_extend_def)
  next
    case 2
    then show thesis
      using T by (intro extended [of "upd_region i ?f ?s1"]) (simp_all add: shm_extend_def Let_def)
  next
    case 3
    then show thesis using t by (intro extended [of s]) (simp_all add: shm_extend_def Let_def)
  qed
qed

text \<open>What a successful \<^verbatim>\<open>shmget\<close> returns.\<close>

definition got :: "shm_info_s \<Rightarrow> int \<Rightarrow> int \<Rightarrow> qword \<Rightarrow> bool" where
  "got s r key sz \<longleftrightarrow> 0 \<le> r \<and> nat r \<in> used_regions s \<and> sr_key (si_region s (nat r)) = key \<and>
     sz \<le> shm_segsz (sr_ds (si_region s (nat r)))"

lemma got_inuse:
  assumes t: "table_ok s" and u: "i \<in> used_regions s" "sr_key (si_region s i) = key" "sz \<le> shm_segsz (sr_ds (si_region s i))"
  shows "table_ok (upd_region i (\<lambda>r. r\<lparr>sr_flags := SRFLAG_INUSE\<rparr>) s)"
    "got (upd_region i (\<lambda>r. r\<lparr>sr_flags := SRFLAG_INUSE\<rparr>) s) (int i) key sz"
  using table_ok_upd [OF t u(1), of "\<lambda>r. r\<lparr>sr_flags := SRFLAG_INUSE\<rparr>"] inuse_region_good [OF table_okD(3) [OF t u(1)]] u
  by (simp_all add: got_def)

lemma shmget_locked_ok:
  assumes t: "table_ok (first_use info_size s)" and k: "key \<noteq> 0" and sz: "unat sz \<le> 2 ^ 30"
    and f: "shm_init_flag (first_use info_size s) \<noteq> 0"
  shows "\<exists>r s'. shmget_locked info_size pid s key sz flg = Some (r, s') \<and> table_ok s' \<and> shm_init_flag s' \<noteq> 0 \<and>
    si_lock s' = si_lock (first_use info_size s) \<and> (r = - 1 \<or> got s' r key sz)"
proof -
  let ?s1 = "first_use info_size s"
  have u: "shmget_locked info_size pid s key sz flg =
      (if shm_find ?s1 key < 0 then
         if flg AND IPC_CREAT \<noteq> 0
         then map_option (\<lambda>(r, s2). (if r < 0 then - 1 else r, s2)) (shm_create pid ?s1 key sz flg)
         else Some (- 1, ?s1)
       else
         (let i = nat (shm_find ?s1 key); inuse = upd_region i (\<lambda>r. r\<lparr>sr_flags := SRFLAG_INUSE\<rparr>)
          in if shm_segsz (sr_ds (si_region ?s1 i)) < sz then
               if flg AND IPC_CREAT \<noteq> 0
               then (case shm_extend ?s1 i sz of (e, s2) \<Rightarrow> if e < 0 then Some (- 1, s2)
                       else Some (shm_find ?s1 key, inuse s2))
               else Some (- 1, ?s1)
             else Some (shm_find ?s1 key, inuse ?s1)))"
    by (simp only: shmget_locked_def Let_def)
  show ?thesis
    using t k
  proof (cases rule: shm_find_cases)
    case absent
    note abs = absent(1)
    show ?thesis
    proof (cases "flg AND IPC_CREAT = 0")
      case True
      then show ?thesis using abs t f by (simp add: u)
    next
      case False
      show ?thesis
        using t sz k absent(2)
      proof (cases rule: shm_create_cases [where pid = pid and flg = flg])
        case full
        then show ?thesis using False abs t f by (simp add: u ENOSPC_def)
      next
        case nomem
        then show ?thesis using False abs t f by (simp add: u ENOMEM_def)
      next
        case (new i p n s')
        then show ?thesis using False abs f by (auto simp: u got_def new_region_def)
      qed
    qed
  next
    case (found i)
    note fi = found(1)
    show ?thesis
    proof (cases "shm_segsz (sr_ds (si_region ?s1 i)) < sz")
      case False
      then show ?thesis using got_inuse [OF t found(2,3), of sz] fi f by (simp add: u)
    next
      case small: True
      show ?thesis
        using t found(2)
      proof (cases rule: shm_extend_cases [where sz = sz])
        case refused
        then show ?thesis using small fi t f by (simp add: u ENOMEM_def Let_def)
      next
        case (extended s')
        have "i \<in> used_regions s'" "sr_key (si_region s' i) = key" using extended(3,4) found(2,3) by simp_all
        from got_inuse [OF extended(2) this extended(5)]
        show ?thesis using small fi t f extended(1,6,7) by (simp add: u Let_def)
      qed
    qed
  qed
qed

lemma shmget_ok:
  assumes w: "shm_wf s" and b: "info_size \<le> 2 ^ 28" and sz: "unat sz \<le> 2 ^ 30" and k: "key \<noteq> 0"
  obtains r s' where "shmget info_size pid s key sz flg = Some (r, s')" "table_ok s'" "lock (si_lock s') = 0"
    "shm_init_flag s' \<noteq> 0" "r = - 1 \<or> got s' r key sz"
proof -
  let ?l = "(si_lock s)\<lparr>lock := 1\<rparr>"
  let ?s0 = "s\<lparr>si_lock := ?l\<rparr>"
  have l: "spinlock_lock (si_lock s) = Some ?l" using w by (simp add: shm_wf_def spinlock_lock_free)
  have fu: "table_ok (first_use info_size ?s0)" "shm_init_flag (first_use info_size ?s0) \<noteq> 0"
    "si_lock (first_use info_size ?s0) = ?l"
    using first_use_ok [OF _ b, of ?s0] w by (simp_all add: shm_wf_def)
  obtain r s' where g: "shmget_locked info_size pid ?s0 key sz flg = Some (r, s')" "table_ok s'" "shm_init_flag s' \<noteq> 0"
    "si_lock s' = ?l" "r = - 1 \<or> got s' r key sz"
    using shmget_locked_ok [OF fu(1) k sz fu(2), of pid flg] unfolding fu(3) by blast
  show thesis
    using g k l by (intro that [of r "s'\<lparr>si_lock := spinlock_unlock (si_lock s')\<rparr>"])
      (simp_all add: shmget_def spinlock_unlock_def got_def)
qed

section \<open>shmctl\<close>

lemma region_good_flags: "region_good r \<Longrightarrow> region_good (r\<lparr>sr_flags := sr_flags r OR SRFLAG_UNLINKED, sr_ds := d\<rparr>)"
  by (simp add: region_good_def and_or_inuse)

lemma shmctl_unused:
  assumes t: "table_ok s" and u: "\<not> (0 \<le> shmid \<and> nat shmid \<in> used_regions s)"
  shows "shmctl pid s shmid cmd buf = Some (- 1, buf, s)"
proof (cases "shmid < 0 \<or> int MAXREGIONS \<le> shmid")
  case True
  then show ?thesis by (simp add: shmctl_def)
next
  case False
  then have "sr_flags (si_region s (nat shmid)) = 0" using u by (auto simp: used_iff nat_less_iff)
  then show ?thesis by (simp add: shmctl_def Let_def)
qed

text \<open>On a used region, after the lock and unlock cancel.\<close>

lemma shmctl_used:
  assumes t: "table_ok s" and u: "i \<in> used_regions s"
  shows "shmctl pid s (int i) cmd buf =
    (if cmd = IPC_STAT then
       (case buf of None \<Rightarrow> Some (- 1, None, s)
        | Some b \<Rightarrow> Some (0, Some (sr_ds (si_region s i)), upd_region i (\<lambda>r. r\<lparr>sr_ds := (sr_ds r)\<lparr>shm_lpid := pid\<rparr>\<rparr>) s))
     else if cmd = IPC_SET then
       (case buf of None \<Rightarrow> None
        | Some b \<Rightarrow> Some (0, buf, upd_region i (\<lambda>r. r\<lparr>sr_ds := (sr_ds r)\<lparr>shm_perm_mode := shm_perm_mode b, shm_lpid := pid\<rparr>\<rparr>) s))
     else if cmd = IPC_RMID then
       if 0 < shm_nattch (sr_ds (si_region s i))
       then Some (0, buf, upd_region i (\<lambda>r. r\<lparr>sr_flags := sr_flags r OR SRFLAG_UNLINKED, sr_ds := (sr_ds r)\<lparr>shm_lpid := pid\<rparr>\<rparr>) s)
       else map_option (\<lambda>t. (0, buf, t)) (shm_destroy s i)
     else Some (- 1, buf, s))"
proof -
  note g = region_goodD [OF table_okD(3) [OF t u]]
  have i: "i < MAXREGIONS" using u by (simp add: used_iff)
  have d: "shm_destroy (upd_region i (\<lambda>r. r\<lparr>sr_lock := l\<rparr>) s) i = shm_destroy s i" for l
    by (rule shm_destroy_upd) simp
  have id: "upd_region i (\<lambda>r. r\<lparr>sr_lock := sr_lock (si_region s i)\<rparr>) s = s" by (simp add: upd_region_def)
  show ?thesis
    using i g(1,5)
    by (simp add: shmctl_def Let_def lock_region [OF t u] region_unlock_def d id split: option.split)
qed

lemma shmctl_ok:
  assumes t: "table_ok s" and b: "cmd = IPC_SET \<longrightarrow> buf \<noteq> None"
  obtains r buf' s' where "shmctl pid s shmid cmd buf = Some (r, buf', s')" "table_ok s'" "si_lock s' = si_lock s"
    "shm_init_flag s' = shm_init_flag s"
proof (cases "0 \<le> shmid \<and> nat shmid \<in> used_regions s")
  case False
  then show thesis using shmctl_unused [OF t] t that by blast
next
  case True
  define i where "i = nat shmid"
  have u: "i \<in> used_regions s" and si: "shmid = int i" using True by (simp_all add: i_def)
  note good = table_okD(3) [OF t u]
  obtain s' where s': "shm_destroy s i = Some s'" "table_ok s'" "si_lock s' = si_lock s" "shm_init_flag s' = shm_init_flag s"
    using shm_destroy_used [OF t u] by metis
  have d: "table_ok (upd_region i (\<lambda>r. r\<lparr>sr_ds := f r\<rparr>) s)" for f by (rule table_ok_ds [OF t u])
  have f: "table_ok (upd_region i (\<lambda>r. r\<lparr>sr_flags := sr_flags r OR SRFLAG_UNLINKED, sr_ds := (sr_ds r)\<lparr>shm_lpid := pid\<rparr>\<rparr>) s)"
    using good by (intro table_ok_upd t u region_good_flags) simp_all
  consider "cmd = IPC_STAT" "buf = None" | b' where "cmd = IPC_STAT" "buf = Some b'" | b' where "cmd = IPC_SET" "buf = Some b'"
    | "cmd = IPC_RMID" "0 < shm_nattch (sr_ds (si_region s i))" | "cmd = IPC_RMID" "\<not> 0 < shm_nattch (sr_ds (si_region s i))"
    | "cmd \<noteq> IPC_STAT" "cmd \<noteq> IPC_SET" "cmd \<noteq> IPC_RMID"
    using b by (cases buf) blast+
  then have "\<exists>r buf' s'. shmctl pid s shmid cmd buf = Some (r, buf', s') \<and> table_ok s' \<and> si_lock s' = si_lock s \<and>
      shm_init_flag s' = shm_init_flag s"
    unfolding si shmctl_used [OF t u]
    by cases (simp_all add: IPC_STAT_def IPC_SET_def IPC_RMID_def d f s' t)
  then show thesis using that by blast
qed

lemma shmat_ok:
  assumes t: "table_ok s"
  obtains a s' where "shmat pid s shmid = Some (a, s')" "table_ok s'" "si_lock s' = si_lock s" "shm_init_flag s' = shm_init_flag s"
proof (cases "0 \<le> shmid \<and> nat shmid \<in> used_regions s")
  case False
  then show thesis using shmat_unused [OF t] t that by blast
next
  case True
  then have "shmat pid s shmid = shmat pid s (int (nat shmid))" by simp
  then have "\<exists>a s'. shmat pid s shmid = Some (a, s') \<and> table_ok s' \<and> si_lock s' = si_lock s \<and>
      shm_init_flag s' = shm_init_flag s"
    using shmat_used [OF t, of "nat shmid" pid] True table_ok_ds [OF t, of "nat shmid"] by simp
  then show thesis using that by blast
qed

lemma shmdt_ok:
  assumes t: "table_ok s"
  obtains r s' where "shmdt pid s a = Some (r, s')" "table_ok s'" "si_lock s' = si_lock s" "shm_init_flag s' = shm_init_flag s"
  using t
proof (cases rule: shmdt_cases [where pid = pid and a = a])
  case unknown
  then show thesis using t that by blast
next
  case (found i)
  obtain s' where s': "shm_destroy s i = Some s'" "table_ok s'" "si_lock s' = si_lock s" "shm_init_flag s' = shm_init_flag s"
    using shm_destroy_used [OF t found(1)] by metis
  show thesis
    using shmdt_found [OF t found(1,3), of pid] found(2) s' table_ok_ds [OF t found(1)] that
    by (simp split: if_splits)
qed

section \<open>Sequences of calls\<close>

text \<open>The states that calls of any processes lead to, with requests of at most 1 GB.\<close>

inductive shm_calls :: "nat \<Rightarrow> shm_info_s \<Rightarrow> shm_info_s \<Rightarrow> bool" for info_size s0 where
  none: "shm_calls info_size s0 s0"
| get: "shm_calls info_size s0 s \<Longrightarrow> unat sz \<le> 2 ^ 30 \<Longrightarrow> shmget info_size pid s key sz flg = Some (r, s')
    \<Longrightarrow> shm_calls info_size s0 s'"
| attach: "shm_calls info_size s0 s \<Longrightarrow> shmat pid s shmid = Some (p, s') \<Longrightarrow> shm_calls info_size s0 s'"
| detach: "shm_calls info_size s0 s \<Longrightarrow> shmdt pid s p = Some (r, s') \<Longrightarrow> shm_calls info_size s0 s'"
| control: "shm_calls info_size s0 s \<Longrightarrow> shmctl pid s shmid cmd buf = Some (r, buf', s') \<Longrightarrow> shm_calls info_size s0 s'"

definition shm_running :: "shm_info_s \<Rightarrow> bool" where
  "shm_running s \<longleftrightarrow> table_ok s \<and> lock (si_lock s) = 0 \<and> shm_init_flag s \<noteq> 0"

lemma running_wf: "shm_running s \<Longrightarrow> shm_wf s"
  by (simp add: shm_running_def shm_wf_def)

lemma shmget_running:
  assumes "shm_wf s" "shm_running s \<or> key \<noteq> 0" "info_size \<le> 2 ^ 28" "unat sz \<le> 2 ^ 30"
  obtains r s' where "shmget info_size pid s key sz flg = Some (r, s')" "shm_running s'" "r = - 1 \<or> got s' r key sz"
proof (cases "key = 0")
  case True
  then show thesis using assms(2) by (intro that [of "- 1" s]) (simp_all add: shmget_def)
next
  case False
  then show thesis
    using shmget_ok [OF assms(1,3,4) False, of pid flg] that unfolding shm_running_def by metis
qed

lemma shm_calls_running:
  assumes "shm_calls info_size s0 s" "shm_running s0" "info_size \<le> 2 ^ 28"
  shows "shm_running s"
  using assms
proof (induction rule: shm_calls.induct)
  case none
  then show ?case by simp
next
  case (get s sz pid key flg r s')
  then show ?case
    using shmget_running [of s key info_size sz pid flg] running_wf by (metis Pair_inject option.inject)
next
  case (attach s pid shmid p s')
  then show ?case using shmat_ok [of s pid shmid] by (metis Pair_inject option.inject shm_running_def)
next
  case (detach s pid p r s')
  then show ?case using shmdt_ok [of s pid p] by (metis Pair_inject option.inject shm_running_def)
next
  case (control s pid shmid cmd buf r buf' s')
  have t: "table_ok s" using control by (simp add: shm_running_def)
  have "cmd = IPC_SET \<longrightarrow> buf \<noteq> None \<or> s' = s"
    using control.hyps(2) shmctl_unused [OF t, of shmid pid cmd buf] shmctl_used [OF t, of "nat shmid" pid cmd buf]
    by (cases "0 \<le> shmid \<and> nat shmid \<in> used_regions s") (auto simp: IPC_SET_def IPC_STAT_def split: option.splits)
  then show ?case
    using control shmctl_ok [OF t, of cmd buf pid shmid] by (metis Pair_inject option.inject shm_running_def)
qed

lemma used_block:
  assumes "table_ok s" "i \<in> used_regions s"
  obtains n where "(sr_data (si_region s i), n) \<in> shm_live s"
proof -
  have "sr_data (si_region s i) \<in> fst ` shm_live s" using assms table_okD(6) [OF assms(1)] by blast
  then show thesis using that by auto
qed

section \<open>A first segment\<close>

definition blank_info :: shm_info_s where
  "blank_info = \<lparr>shm_free_mem_mgt = g_free_memory blank_mem, shm_mem = (\<lambda>_. 0), si_lock = \<lparr>lock = 0\<rparr>,
     shm_init_flag = 0, si_region = (\<lambda>_. zero_region)\<rparr>"

lemma blank_wf: "shm_wf blank_info"
  by (simp add: shm_wf_def blank_info_def)

lemma fresh_page:
  assumes "info_size \<le> 2 ^ 28" "shm_init_flag s = 0"
  shows "pages (0, 0) \<subseteq> free_pages (shm_free_mem_mgt (first_use info_size s))"
proof -
  let ?m = "shm_free_mem_mgt (shm_free_mem_init info_size (shm_initialize s))"
  have c: "(info_size + 4095) div 4096 \<le> 65536"
    using assms(1) div_le_mono [of "info_size + 4095" "2 ^ 28 + 4095" 4096] by simp
  have "smallest_block ?m = 131072 - (info_size + 4095) div 4096 - meta_pages (131072 - (info_size + 4095) div 4096)"
    using init_pool_fields(1) [OF shm_span(1) [OF assms(1)]] by (simp only: shm_free_mem_init_eq shm_span(2) [OF assms(1)])
  moreover have "meta_pages (131072 - (info_size + 4095) div 4096) = 512" using c by (intro meta_pages_small) simp_all
  ultimately have "0 < smallest_block ?m" using c by simp
  then show ?thesis
    using shm_init_ok(2) [OF assms(1), of "shm_initialize s"] assms(2)
    by (simp add: first_use_def free_pages_def alloc_pages_def pool_def pages_subset_iff)
qed

lemma level_for_page: "level_for 4096 = 0"
  by code_simp

lemma first_segment:
  obtains p s where "shmget 100000 1 blank_info 7 4096 IPC_CREAT = Some (0, s)" "shm_running s" "used_regions s = {0}"
    "si_region s 0 = new_region 1 7 4096 IPC_CREAT p" "(p, 4096) \<in> shm_live s"
proof -
  let ?s0 = "blank_info\<lparr>si_lock := \<lparr>lock = 1\<rparr>\<rparr>"
  let ?s1 = "first_use 100000 ?s0"
  have f: "table_ok ?s1" "shm_init_flag ?s1 \<noteq> 0" "si_lock ?s1 = \<lparr>lock = 1\<rparr>"
    using first_use_ok [of ?s0 100000] by (simp_all add: blank_info_def)
  have reg: "si_region ?s1 i = zero_region" for i
    by (simp add: first_use_def blank_info_def shm_initialize_def shm_free_mem_init_def Let_def)
  then have U: "used_regions ?s1 = {}" by (simp add: used_regions_def zero_region_def)
  have l: "spinlock_lock (si_lock blank_info) = Some \<lparr>lock = 1\<rparr>" by (simp add: blank_info_def spinlock_lock_free)
  have nf: "shm_find ?s1 7 = - 1"
    using f(1) by (cases rule: shm_find_cases [where key = 7]) (simp_all add: U)
  have cr: "IPC_CREAT AND IPC_CREAT \<noteq> 0" by (simp add: IPC_CREAT_def push_bit_of_1)
  have c: "unat (4096 :: qword) \<le> 2 ^ 30" "(7 :: int) \<noteq> 0" "\<forall>j\<in>used_regions ?s1. sr_key (si_region ?s1 j) \<noteq> 7"
    by (simp_all add: U)
  obtain i p n s' where n: "i < MAXREGIONS" "shm_create 1 ?s1 7 4096 IPC_CREAT = Some (int i, s')"
    "si_region s' = (si_region ?s1)(i := new_region 1 7 4096 IPC_CREAT p)"
    "shm_live s' = insert (p, n) (shm_live ?s1)" "table_ok s'" "used_regions s' = insert i (used_regions ?s1)"
    "si_lock s' = si_lock ?s1" "shm_init_flag s' = shm_init_flag ?s1" "n = 4096 * 2 ^ level_for 4096"
    using f(1) c
  proof (cases rule: shm_create_cases [where pid = 1 and flg = IPC_CREAT])
    case full
    then have "0 \<in> used_regions ?s1" by (simp add: MAXREGIONS_def)
    then show thesis by (simp add: U)
  next
    case nomem
    then show thesis using fresh_page [of 100000 ?s0] by (simp add: level_for_page blank_info_def)
  qed (rule that; assumption)
  have "i = 0"
  proof -
    have "find (\<lambda>i. sr_flags (si_region ?s1 i) = 0) [0..<MAXREGIONS] = Some 0"
      by (simp add: find_upt_Some_iff reg zero_region_def MAXREGIONS_def)
    then have "fst (shm_reserve ?s1 7 IPC_CREAT) = 0" by (simp add: shm_reserve_def)
    then show ?thesis using n(2) by (auto simp: shm_create_def Let_def ENOMEM_def split: prod.splits option.splits if_splits)
  qed
  then show thesis
    using n f nf cr l
    by (intro that [of "s'\<lparr>si_lock := \<lparr>lock = 0\<rparr>\<rparr>" p])
      (simp_all add: level_for_page shmget_def shmget_locked_def shm_running_def spinlock_unlock_def U)
qed

section \<open>Properties\<close>







text \<open>C13. Removal is deferred to the last detach. \<^verbatim>\<open>IPC_RMID\<close> on a segment nobody is attached to releases its
  block and zeroes its region; on an attached segment it only marks the region. A process that
  detaches from a marked segment with no other attachment releases the block and zeroes the region;
  in every other case \<^verbatim>\<open>shmdt\<close> lowers the attachment count and frees nothing.\<close>

theorem shm_removal_deferred:
  assumes "shm_running s" "i \<in> used_regions s"
  defines "a \<equiv> sr_data (si_region s i)" and "n \<equiv> shm_nattch (sr_ds (si_region s i))"
    and "marked \<equiv> sr_flags (si_region s i) AND SRFLAG_UNLINKED \<noteq> 0"
  shows "(\<exists>s'. shmctl pid s (int i) IPC_RMID buf = Some (0, buf, s') \<and>
      (if n = 0 then si_region s' i = zero_region \<and> fst ` shm_live s' = fst ` shm_live s - {a}
       else sr_flags (si_region s' i) AND SRFLAG_UNLINKED \<noteq> 0 \<and> sr_data (si_region s' i) = a \<and> shm_live s' = shm_live s)) \<and>
    (n \<noteq> 0 \<longrightarrow> (\<exists>s'. shmdt pid s a = Some (0, s') \<and>
      (if n = 1 \<and> marked then si_region s' i = zero_region \<and> fst ` shm_live s' = fst ` shm_live s - {a}
       else shm_nattch (sr_ds (si_region s' i)) = n - 1 \<and> sr_data (si_region s' i) = a \<and> shm_live s' = shm_live s)))"
proof -
  have t: "table_ok s" using assms(1) by (simp add: shm_running_def)
  obtain s' where d: "shm_destroy s i = Some s'" "si_region s' = (si_region s)(i := zero_region)"
    "fst ` shm_live s' = fst ` shm_live s - {a}"
    using shm_destroy_used [OF t assms(2)] unfolding a_def by metis
  have m: "(sr_flags r OR SRFLAG_UNLINKED) AND SRFLAG_UNLINKED \<noteq> 0" for r
    by (simp add: SRFLAG_UNLINKED_def bit.conj_disj_distrib2)
  have "\<exists>s'. shmctl pid s (int i) IPC_RMID buf = Some (0, buf, s') \<and>
      (if n = 0 then si_region s' i = zero_region \<and> fst ` shm_live s' = fst ` shm_live s - {a}
       else sr_flags (si_region s' i) AND SRFLAG_UNLINKED \<noteq> 0 \<and> sr_data (si_region s' i) = a \<and> shm_live s' = shm_live s)"
    unfolding shmctl_used [OF t assms(2)] using d m
    by (simp add: IPC_RMID_def IPC_SET_def IPC_STAT_def n_def a_def word_gt_0)
  moreover have "\<exists>s'. shmdt pid s a = Some (0, s') \<and>
      (if n = 1 \<and> marked then si_region s' i = zero_region \<and> fst ` shm_live s' = fst ` shm_live s - {a}
       else shm_nattch (sr_ds (si_region s' i)) = n - 1 \<and> sr_data (si_region s' i) = a \<and> shm_live s' = shm_live s)"
    if "n \<noteq> 0"
    using that shmdt_found [OF t assms(2), of pid] d by (simp add: a_def n_def marked_def)
  ultimately show ?thesis by blast
qed

theorem shm_removal_deferred_witness:
  "\<exists>s s'. shmget 100000 1 blank_info 7 4096 IPC_CREAT = Some (0, s) \<and> shmctl 1 s 0 IPC_RMID None = Some (0, None, s') \<and>
     si_region s' 0 = zero_region \<and> fst ` shm_live s' = fst ` shm_live s - {sr_data (si_region s 0)}"
proof -
  obtain s p where s: "shmget 100000 1 blank_info 7 4096 IPC_CREAT = Some (0, s)" "shm_running s" "used_regions s = {0}"
    "si_region s 0 = new_region 1 7 4096 IPC_CREAT p"
    using first_segment by metis
  show ?thesis
    using s(1,4) shm_removal_deferred [OF s(2), of 0 1 None] s(3) by (auto simp: new_region_def zero_ds_def)
qed

text \<open>C14. Attaching and detaching cancel: after \<^verbatim>\<open>shmat\<close> and \<^verbatim>\<open>shmdt\<close> of the returned address the state is the
  one before, the recorded last process apart, unless the 16-bit attachment counter was at 65535,
  where it wraps to 0 and \<^verbatim>\<open>shmdt\<close> then fails; or the segment was already marked for removal
  with nobody attached to it.\<close>

theorem shmat_shmdt_roundtrip:
  assumes "shm_running s" "i \<in> used_regions s"
  defines "r \<equiv> si_region s i"
  shows "\<exists>s1. shmat pid s (int i) = Some (sr_data r, s1) \<and>
    (if shm_nattch (sr_ds r) = 0xFFFF then shmdt pid s1 (sr_data r) = Some (- 1, s1)
     else if shm_nattch (sr_ds r) = 0 \<and> sr_flags r AND SRFLAG_UNLINKED \<noteq> 0
     then (\<exists>s2. shmdt pid s1 (sr_data r) = Some (0, s2) \<and> si_region s2 i = zero_region)
     else shmdt pid s1 (sr_data r) =
       Some (0, s\<lparr>si_region := (si_region s)(i := r\<lparr>sr_ds := (sr_ds r)\<lparr>shm_lpid := pid\<rparr>\<rparr>)\<rparr>))"
proof -
  let ?f = "\<lambda>r. r\<lparr>sr_ds := (sr_ds r)\<lparr>shm_nattch := shm_nattch (sr_ds r) + 1, shm_lpid := pid\<rparr>\<rparr>"
  define s1 where "s1 = upd_region i ?f s"
  have t: "table_ok s" using assms(1) by (simp add: shm_running_def)
  have t1: "table_ok s1" unfolding s1_def by (rule table_ok_ds [OF t assms(2)])
  have u1: "i \<in> used_regions s1" using assms(2) by (simp add: used_iff s1_def)
  have at: "shmat pid s (int i) = Some (sr_data r, s1)" using shmat_used [OF t assms(2)] by (simp add: r_def s1_def)
  have r1: "si_region s1 i = ?f r" by (simp add: r_def s1_def)
  have plus: "n + 1 = 0 \<longleftrightarrow> n = 0xFFFF" "n + 1 = 1 \<longleftrightarrow> n = 0" for n :: "16 word"
    by (auto simp: eq_neg_iff_add_eq_0 [symmetric])
  show ?thesis
  proof (cases "shm_nattch (sr_ds r) = 0xFFFF")
    case True
    have "shmdt pid s1 (sr_data r) = Some (- 1, s1)"
      using t1
    proof (cases rule: shmdt_cases [where pid = pid and a = "sr_data r"])
      case (found j)
      then have "j = i" using inj_onD [OF table_okD(5) [OF t1], of j i] u1 by (simp add: r1)
      then have "shm_nattch (sr_ds r) + 1 \<noteq> 0" using found(3) by (simp add: r1)
      then show ?thesis using True plus(1) by blast
    qed
    then show ?thesis using at True by simp
  next
    case False
    then have n: "shm_nattch (sr_ds (si_region s1 i)) \<noteq> 0" by (simp add: r1 plus)
    obtain s2 where d: "shm_destroy s1 i = Some s2" "si_region s2 = (si_region s1)(i := zero_region)"
      by (rule shm_destroy_used [OF t1 u1])
    have undo: "upd_region i (\<lambda>r. r\<lparr>sr_ds := (sr_ds r)\<lparr>shm_nattch := shm_nattch (sr_ds r) - 1, shm_lpid := pid\<rparr>\<rparr>) s1 =
        s\<lparr>si_region := (si_region s)(i := r\<lparr>sr_ds := (sr_ds r)\<lparr>shm_lpid := pid\<rparr>\<rparr>)\<rparr>"
      by (simp add: s1_def) (simp add: upd_region_def r_def)
    have "shmdt pid s1 (sr_data r) =
        (if shm_nattch (sr_ds r) = 0 \<and> sr_flags r AND SRFLAG_UNLINKED \<noteq> 0 then Some (0, s2)
         else Some (0, s\<lparr>si_region := (si_region s)(i := r\<lparr>sr_ds := (sr_ds r)\<lparr>shm_lpid := pid\<rparr>\<rparr>)\<rparr>))"
      using shmdt_found [OF t1 u1 n, of pid] unfolding undo d(1) r1 by (simp add: plus)
    then show ?thesis using False at d(2) by simp
  qed
qed

theorem shmat_shmdt_roundtrip_witness:
  "\<exists>s s1 s2. shmget 100000 1 blank_info 7 4096 IPC_CREAT = Some (0, s) \<and> shmat 2 s 0 = Some (sr_data (si_region s 0), s1) \<and>
     shmdt 2 s1 (sr_data (si_region s 0)) = Some (0, s2) \<and> shm_free_mem_mgt s2 = shm_free_mem_mgt s"
proof -
  obtain s p where s: "shmget 100000 1 blank_info 7 4096 IPC_CREAT = Some (0, s)" "shm_running s" "used_regions s = {0}"
    "si_region s 0 = new_region 1 7 4096 IPC_CREAT p"
    using first_segment by metis
  have r: "shm_nattch (sr_ds (si_region s 0)) = 0" "sr_flags (si_region s 0) AND SRFLAG_UNLINKED = 0"
    by (simp_all add: s(4) new_region_def SRFLAG_INUSE_def SRFLAG_UNLINKED_def zero_ds_def)
  show ?thesis
    using s(1) r shmat_shmdt_roundtrip [OF s(2), of 0 2] s(3) by auto
qed

lemma shm_get_buddy_block_size_exact:
  assumes "l \<le> 17"
  shows "shm_get_buddy_block_size (page_shl l) = page_shl (Suc l)"
proof -
  have "find (\<lambda>i. page_shl l < page_shl i) [0..<32] = Some (Suc l)"
    using assms by (auto simp: find_upt_Some_iff word_less_nat_alt unat_page_shl)
  then show ?thesis by (simp add: shm_get_buddy_block_size_def)
qed

lemma page_shl_Suc_diff: "l \<le> 17 \<Longrightarrow> page_shl (Suc l) - page_shl l = word_of_nat (4096 * 2 ^ l)"
  by (simp add: page_shl_eq)

text \<open>C17. A segment whose size is exactly a block's size can be extended past its block. \<^verbatim>\<open>shm_extend\<close> asks
  \<^verbatim>\<open>shm_get_buddy_block_size\<close> for the size of the block, which looks for a block strictly larger than
  the segment while \<^verbatim>\<open>shm_alloc\<close> had looked for one at least as large: for a segment of
  4096 * 2^l bytes it answers with twice the block. A \<^verbatim>\<open>shmget\<close> with \<^verbatim>\<open>IPC_CREAT\<close> and the double size
  then succeeds, records the double size and zeroes the bytes after the block, which belong to
  somebody else; the pool still counts the block as it was.\<close>

theorem shm_extend_overruns_block:
  assumes "shm_running s" "i \<in> used_regions s" "l \<le> 17"
    and "shm_segsz (sr_ds (si_region s i)) = page_shl l" "(sr_data (si_region s i), 4096 * 2 ^ l) \<in> shm_live s"
  shows "\<exists>s'. shmget info_size pid s (sr_key (si_region s i)) (page_shl (Suc l)) IPC_CREAT = Some (int i, s') \<and>
    shm_segsz (sr_ds (si_region s' i)) = page_shl (Suc l) \<and> shm_live s' = shm_live s \<and>
    (\<forall>x. in_range x (sr_data (si_region s i) + word_of_nat (4096 * 2 ^ l)) (4096 * 2 ^ l) \<longrightarrow> shm_mem s' x = 0)"
proof -
  let ?r = "si_region s i" and ?sz = "page_shl (Suc l)"
  have w: "table_ok s" "lock (si_lock s) = 0" "shm_init_flag s \<noteq> 0" using assms(1) by (simp_all add: shm_running_def)
  have k: "sr_key ?r \<noteq> 0" using region_goodD(3) [OF table_okD(3) [OF w(1) assms(2)]] .
  have fnd: "shm_find (s\<lparr>si_lock := x\<rparr>) (sr_key ?r) = int i" for x
    using shm_find_key [OF w(1) assms(2)] by (simp add: shm_find_def)
  have lt: "page_shl l < ?sz" using assms(3) by (simp add: word_less_nat_alt unat_page_shl)
  define M where "M = lk_memset (shm_mem s) (sr_data ?r + page_shl l) 0 (int_of_qword (?sz - page_shl l))"
  define s' where "s' = upd_region i (\<lambda>r. r\<lparr>sr_ds := (sr_ds r)\<lparr>shm_segsz := ?sz\<rparr>, sr_flags := SRFLAG_INUSE\<rparr>)
      (s\<lparr>shm_mem := M, si_lock := \<lparr>lock = 0\<rparr>\<rparr>)"
  have c: "IPC_CREAT AND IPC_CREAT \<noteq> 0" by (simp add: IPC_CREAT_def push_bit_of_1)
  have g: "shmget info_size pid s (sr_key ?r) ?sz IPC_CREAT = Some (int i, s')"
    using k w(2,3) fnd lt c shm_get_buddy_block_size_exact [OF assms(3)] assms(4)
    by (simp add: shmget_def shmget_locked_def first_use_def spinlock_lock_free spinlock_unlock_def shm_extend_def
        Let_def upd_region_def M_def s'_def)
  have p: "4096 * 2 ^ l \<le> (2 ^ 29 :: nat)"
    using assms(3) power_increasing [of l 17 "2 :: nat"] by simp
  have d: "int_of_qword (?sz - page_shl l) = int (4096 * 2 ^ l)"
    unfolding page_shl_Suc_diff [OF assms(3)] using p by (intro int_of_qword_word_of_nat) simp
  have "lk_memset m a 0 (int n) x = (if in_range x a n then 0 else m x)" if "n \<le> 2 ^ 29" for m a n x
    using that by (subst lk_memset_apply) auto
  from this [OF p] have "M x = (if in_range x (sr_data ?r + page_shl l) (4096 * 2 ^ l) then 0 else shm_mem s x)" for x
    unfolding M_def d .
  then have "\<forall>x. in_range x (sr_data ?r + word_of_nat (4096 * 2 ^ l)) (4096 * 2 ^ l) \<longrightarrow> shm_mem s' x = 0"
    using page_shl_eq [of l] assms(3) by (simp add: s'_def)
  then show ?thesis using g by (intro exI [of _ s']) (simp add: s'_def)
qed

theorem shm_extend_overruns_block_witness:
  "\<exists>s s'. shmget 100000 1 blank_info 7 4096 IPC_CREAT = Some (0, s) \<and>
     shmget 100000 2 s 7 8192 IPC_CREAT = Some (0, s') \<and> shm_segsz (sr_ds (si_region s' 0)) = 8192 \<and>
     (sr_data (si_region s 0), 4096) \<in> shm_live s'"
proof -
  obtain s p where s: "shmget 100000 1 blank_info 7 4096 IPC_CREAT = Some (0, s)" "shm_running s" "used_regions s = {0}"
    "si_region s 0 = new_region 1 7 4096 IPC_CREAT p" "(p, 4096) \<in> shm_live s"
    using first_segment by metis
  have e: "page_shl 0 = 4096" "page_shl (Suc 0) = 8192" by (simp_all add: page_shl_eq)
  have f: "shm_segsz (sr_ds (si_region s 0)) = page_shl 0" "sr_key (si_region s 0) = 7" "sr_data (si_region s 0) = p"
    by (simp_all add: s(4) new_region_def e)
  show ?thesis
    using s(1,5) f shm_extend_overruns_block [OF s(2), of 0 0 100000 2] by (simp add: s(3) e) blast
qed

end
