(* ===== verification/Atomic.thy ===== *)
theory Atomic
  imports Prelude
begin

text \<open>
  The atomic counters of \<^verbatim>\<open>kernel/atomic.h\<close> and the interrupt-flag helpers of \<^verbatim>\<open>kernel/irq.h\<close>. A
  counter is the word it holds; each operation is one locked instruction, so one step. Operations
  that return a value return it together with the new counter.
\<close>

type_synonym atomic_t = dword
type_synonym atomic64_t = qword

section \<open>32-bit counters\<close>

definition atomic_get :: "atomic_t \<Rightarrow> int" where "atomic_get a = sint a"
definition atomic_set :: "atomic_t \<Rightarrow> dword \<Rightarrow> atomic_t" where "atomic_set a v = v"
definition atomic_inc :: "atomic_t \<Rightarrow> atomic_t" where "atomic_inc a = a + 1"
definition atomic_inc_return :: "atomic_t \<Rightarrow> int \<times> atomic_t" where
  "atomic_inc_return a = (let a = a + 1 in (sint a, a))"
definition atomic_dec :: "atomic_t \<Rightarrow> atomic_t" where "atomic_dec a = a - 1"
definition atomic_dec_and_test :: "atomic_t \<Rightarrow> bool \<times> atomic_t" where
  "atomic_dec_and_test a = (let a = a - 1 in (a = 0, a))"
definition atomic_and :: "dword \<Rightarrow> atomic_t \<Rightarrow> atomic_t" where "atomic_and v a = a AND v"
definition atomic_or :: "dword \<Rightarrow> atomic_t \<Rightarrow> atomic_t" where "atomic_or v a = a OR v"
definition atomic_xor :: "dword \<Rightarrow> atomic_t \<Rightarrow> atomic_t" where "atomic_xor v a = a XOR v"

section \<open>64-bit counters\<close>

text \<open>\<^verbatim>\<open>xchgq\<close> and \<^verbatim>\<open>lock; xaddq\<close>: the register after the instruction and the memory operand.\<close>

definition xaddq :: "qword \<Rightarrow> qword \<Rightarrow> qword \<times> qword" where
  "xaddq reg m = (m, m + reg)"

definition atomic64_test_and_set :: "atomic64_t \<Rightarrow> qword \<Rightarrow> qword \<times> atomic64_t" where
  "atomic64_test_and_set a ret = (a, ret)"

definition atomic64_add :: "atomic64_t \<Rightarrow> qword \<Rightarrow> qword \<times> atomic64_t" where
  "atomic64_add a i = (let ret = i; (i', a') = xaddq i a in (ret + i', a'))"

definition atomic64_sub :: "atomic64_t \<Rightarrow> qword \<Rightarrow> qword \<times> atomic64_t" where
  "atomic64_sub a i = atomic64_add a (- i)"

definition atomic64_inc :: "atomic64_t \<Rightarrow> qword \<times> atomic64_t" where
  "atomic64_inc a = (let (ret, a') = xaddq 1 a in (ret + 1, a'))"

definition atomic64_dec :: "atomic64_t \<Rightarrow> qword \<times> atomic64_t" where
  "atomic64_dec a = (let (ret, a') = xaddq (- 1) a in (ret - 1, a'))"

definition atomic64_read :: "atomic64_t \<Rightarrow> qword" where "atomic64_read a = a"

definition atomic64_set :: "atomic64_t \<Rightarrow> qword \<Rightarrow> atomic64_t" where
  "atomic64_set a v = snd (atomic64_test_and_set a v)"

text \<open>Every arithmetic operation returns the value it leaves in the counter.\<close>

lemma atomic64_result:
  "atomic64_add a i = (a + i, a + i)" "atomic64_sub a i = (a - i, a - i)"
  "atomic64_inc a = (a + 1, a + 1)" "atomic64_dec a = (a - 1, a - 1)"
  by (simp_all add: atomic64_add_def atomic64_sub_def atomic64_inc_def atomic64_dec_def xaddq_def add.commute)

lemmas atomic_defs = atomic_set_def atomic_inc_def atomic_dec_def atomic_or_def atomic_and_def
  atomic_dec_and_test_def atomic64_set_def atomic64_test_and_set_def atomic64_read_def

section \<open>The interrupt flag\<close>

text \<open>The flags register of a core; bit 9 is IF. \<^verbatim>\<open>cli\<close> and \<^verbatim>\<open>sti\<close> clear and set it.\<close>

definition is_irq_enabled :: "qword \<Rightarrow> byte" where
  "is_irq_enabled flags = (if flags AND push_bit 9 1 \<noteq> 0 then 1 else 0)"

definition disable_interrupt :: "qword \<Rightarrow> qword" where
  "disable_interrupt flags = flags AND NOT (push_bit 9 1)"

definition enable_interrupt :: "qword \<Rightarrow> qword" where
  "enable_interrupt flags = flags OR push_bit 9 1"

definition irq_nested_disable :: "qword \<Rightarrow> byte \<times> qword" where
  "irq_nested_disable flags = (let was_enabled = is_irq_enabled flags in (was_enabled, disable_interrupt flags))"

definition irq_nested_enable :: "byte \<Rightarrow> qword \<Rightarrow> qword" where
  "irq_nested_enable was_enabled flags = (if was_enabled \<noteq> 0 then enable_interrupt flags else flags)"

text \<open>Disabling and re-enabling restores the flags register, whatever the interrupt flag was.\<close>

lemma irq_bits:
  fixes w :: qword
  shows "w AND push_bit 9 1 \<noteq> 0 \<longleftrightarrow> bit w 9"
  by (rule and_push_bit_one_iff)

lemma irq_nested_roundtrip:
  "irq_nested_enable (fst (irq_nested_disable w)) (snd (irq_nested_disable w)) = w"
  unfolding irq_nested_enable_def irq_nested_disable_def is_irq_enabled_def enable_interrupt_def disable_interrupt_def irq_bits
  by (auto intro!: bit_eqI simp: Let_def bit_simps)

lemma irq_disabled: "is_irq_enabled (snd (irq_nested_disable w)) = 0"
  unfolding irq_nested_disable_def is_irq_enabled_def disable_interrupt_def irq_bits by (simp add: Let_def bit_simps)

end
