(* ===== verification/ShellStorage.thy ===== *)
theory ShellStorage
  imports Prelude
begin

text \<open>
  The shell storage area in shared memory (\<^verbatim>\<open>kernel/shellstorage.c\<close>), which a shell on the host reads.
  The structure is packed and consists of 64-bit fields only, so it is an array of quadwords, and an
  index past the end of one of its arrays lands in the next field, as in the code.
\<close>

definition MAX_PAGEFAULT_SIZE :: nat where "MAX_PAGEFAULT_SIZE = 1024"
definition MAX_PROCESSOR_COUNT :: nat where "MAX_PROCESSOR_COUNT = 288"
definition CONFIG_NUM_THREAD :: nat where "CONFIG_NUM_THREAD = 32767"

type_synonym ss_area = "qword carray"

section \<open>Layout\<close>

definition init_stat_pos :: nat where "init_stat_pos = 0"
definition timer_pos :: "nat \<Rightarrow> nat" where "timer_pos cid = 1 + cid"
definition pf_count_pos :: nat where "pf_count_pos = timer_pos MAX_PROCESSOR_COUNT"
definition pf_info_pos :: "nat \<Rightarrow> nat" where "pf_info_pos pos = pf_count_pos + 1 + 4 * pos"
definition thread_area_pos :: "nat \<Rightarrow> nat" where "thread_area_pos tid = pf_info_pos MAX_PAGEFAULT_SIZE + tid"

lemmas ss_layout = init_stat_pos_def timer_pos_def pf_count_pos_def pf_info_pos_def thread_area_pos_def
  MAX_PAGEFAULT_SIZE_def MAX_PROCESSOR_COUNT_def

definition ss_size :: nat where "ss_size = thread_area_pos (MAX_PROCESSOR_COUNT + CONFIG_NUM_THREAD)"

section \<open>Operations\<close>

definition ss_area_clear :: "ss_area \<Rightarrow> ss_area" where
  "ss_area_clear g = (\<lambda>i. if i < ss_size then 0 else g i)"

definition store_pagefault_info :: "qword \<Rightarrow> qword \<Rightarrow> qword \<Rightarrow> qword \<Rightarrow> ss_area \<Rightarrow> ss_area" where
  "store_pagefault_info tid fault_address error_code rip g =
     (let pos = unat (ucast (g pf_count_pos) :: dword)
      in if MAX_PAGEFAULT_SIZE < pos then g
         else
           (let g = g(pf_info_pos pos := tid, pf_info_pos pos + 1 := fault_address,
                      pf_info_pos pos + 2 := error_code, pf_info_pos pos + 3 := rip)
            in g(pf_count_pos := g pf_count_pos + 1)))"

definition store_tcb_info :: "nat \<Rightarrow> qword \<Rightarrow> ss_area \<Rightarrow> ss_area" where
  "store_tcb_info tid tcb g = g(thread_area_pos tid := tcb)"

definition store_timer_info :: "nat \<Rightarrow> qword \<Rightarrow> ss_area \<Rightarrow> ss_area" where
  "store_timer_info cid tick_count g = g(timer_pos cid := tick_count)"

definition store_init_stat :: "qword \<Rightarrow> ss_area \<Rightarrow> ss_area" where
  "store_init_stat st g = g(init_stat_pos := g init_stat_pos OR st)"

section \<open>Properties\<close>

text \<open>C27. The page-fault records. While fewer than 1024 faults are recorded, a fault is stored in the next
  record, the counter grows by one and nothing else changes. The guard refuses a position above
  1024 instead of one above 1023, so the fault after those still is stored, into the record after
  the last, which is the storage of the thread pointers of the first four cores.\<close>

theorem store_pagefault_info_bounds:
  fixes g :: ss_area and n :: nat and tid fa ec rip :: qword
  assumes "unat (g pf_count_pos) = n"
  defines "g' \<equiv> store_pagefault_info tid fa ec rip g"
  shows "(n < MAX_PAGEFAULT_SIZE \<longrightarrow>
      (\<forall>i. g' i = (if i = pf_count_pos then g i + 1 else if i = pf_info_pos n then tid
        else if i = pf_info_pos n + 1 then fa else if i = pf_info_pos n + 2 then ec
        else if i = pf_info_pos n + 3 then rip else g i)) \<and>
      (\<forall>t. g' (thread_area_pos t) = g (thread_area_pos t)) \<and> (\<forall>c<MAX_PROCESSOR_COUNT. g' (timer_pos c) = g (timer_pos c))) \<and>
    (n = MAX_PAGEFAULT_SIZE \<longrightarrow>
      g' (thread_area_pos 0) = tid \<and> g' (thread_area_pos 1) = fa \<and> g' (thread_area_pos 2) = ec \<and> g' (thread_area_pos 3) = rip) \<and>
    (MAX_PAGEFAULT_SIZE < n \<and> n < 2 ^ 32 \<longrightarrow> g' = g)"
proof -
  have w: "unat (ucast (g pf_count_pos) :: dword) = n" if "n < 2 ^ 32"
    using that assms(1) by (simp add: unsigned_ucast_eq take_bit_nat_eq_self)
  have "n < MAX_PAGEFAULT_SIZE \<longrightarrow>
      (\<forall>i. g' i = (if i = pf_count_pos then g i + 1 else if i = pf_info_pos n then tid
        else if i = pf_info_pos n + 1 then fa else if i = pf_info_pos n + 2 then ec
        else if i = pf_info_pos n + 3 then rip else g i))"
    using w by (auto simp: g'_def store_pagefault_info_def Let_def ss_layout)
  moreover have "n = MAX_PAGEFAULT_SIZE \<longrightarrow>
      g' (thread_area_pos 0) = tid \<and> g' (thread_area_pos 1) = fa \<and> g' (thread_area_pos 2) = ec \<and> g' (thread_area_pos 3) = rip"
    using w by (auto simp: g'_def store_pagefault_info_def Let_def ss_layout)
  moreover have "MAX_PAGEFAULT_SIZE < n \<and> n < 2 ^ 32 \<longrightarrow> g' = g"
    using w by (auto simp: g'_def store_pagefault_info_def Let_def)
  ultimately show ?thesis by (auto simp: ss_layout)
qed

theorem store_pagefault_info_bounds_witness:
  "store_pagefault_info 7 8 9 10 ((\<lambda>_. 0)(pf_count_pos := 1024)) (thread_area_pos 1) = 8 \<and>
   store_pagefault_info 7 8 9 10 (\<lambda>_. 0) (pf_info_pos 0) = 7"
  using store_pagefault_info_bounds [of "(\<lambda>_. 0)(pf_count_pos := 1024)" 1024 7 8 9 10]
    store_pagefault_info_bounds [of "\<lambda>_. 0" 0 7 8 9 10]
  by (simp add: ss_layout)

end
