(* ===== verification/Sync.thy ===== *)
theory Sync
  imports Atomic Spinlock ShellStorage
begin

text \<open>
  The ticket lock of \<^verbatim>\<open>kernel/sync.h\<close>, which also disables interrupts and which its owner may take
  again. The operations are first sequential code over the lock and the flags register of the core
  (\<^const>\<open>None\<close> is a spin that never ends), then the steps of the cores that contend for the lock. A lock is
  passed by value, so the branch for a NULL pointer, which no caller takes, does not arise.
\<close>

section \<open>Operations\<close>

record spinlock_irqsave_t =
  tqueue :: atomic64_t
  dequeue :: atomic64_t
  cid :: dword
  cnt :: dword
  lflags :: byte

definition spinlock_irqsave_init :: "spinlock_irqsave_t \<Rightarrow> int \<times> spinlock_irqsave_t" where
  "spinlock_irqsave_init l =
     (let l = l\<lparr>tqueue := atomic64_set (tqueue l) 0, dequeue := atomic64_set (dequeue l) 1\<rparr>
      in (0, l\<lparr>lflags := 0, cid := - 1, cnt := 0\<rparr>))"

definition spinlock_irqsave_destroy :: "spinlock_irqsave_t \<Rightarrow> int \<times> spinlock_irqsave_t" where
  "spinlock_irqsave_destroy l = (0, l\<lparr>lflags := 0, cid := - 1, cnt := 0\<rparr>)"

text \<open>The pieces of the two operations, as the steps below use them.\<close>

definition draw_ticket :: "spinlock_irqsave_t \<Rightarrow> qword \<times> spinlock_irqsave_t" where
  "draw_ticket l = (let (ticket, q) = atomic64_inc (tqueue l) in (ticket, l\<lparr>tqueue := q\<rparr>))"

definition take_lock :: "nat \<Rightarrow> byte \<Rightarrow> spinlock_irqsave_t \<Rightarrow> spinlock_irqsave_t" where
  "take_lock c flags l = l\<lparr>cid := of_nat c, lflags := flags, cnt := 1\<rparr>"

definition clear_owner :: "spinlock_irqsave_t \<Rightarrow> spinlock_irqsave_t" where
  "clear_owner l = l\<lparr>cid := - 1, lflags := 0\<rparr>"

definition next_ticket :: "spinlock_irqsave_t \<Rightarrow> spinlock_irqsave_t" where
  "next_ticket l = l\<lparr>dequeue := snd (atomic64_inc (dequeue l))\<rparr>"

partial_function (option) wait_ticket :: "spinlock_irqsave_t \<Rightarrow> qword \<Rightarrow> spinlock_irqsave_t option" where
  "wait_ticket l ticket = (if atomic64_read (dequeue l) \<noteq> ticket then wait_ticket l ticket else Some l)"

definition spinlock_irqsave_lock :: "nat \<Rightarrow> qword \<Rightarrow> spinlock_irqsave_t \<Rightarrow> (int \<times> qword \<times> spinlock_irqsave_t) option" where
  "spinlock_irqsave_lock c r l =
     (let (flags, r) = irq_nested_disable r
      in if cid l = of_nat c then Some (0, r, l\<lparr>cnt := cnt l + 1\<rparr>)
         else (let (ticket, l) = draw_ticket l
               in map_option (\<lambda>l. (0, r, take_lock c flags l)) (wait_ticket l ticket)))"

definition spinlock_irqsave_unlock :: "qword \<Rightarrow> spinlock_irqsave_t \<Rightarrow> int \<times> qword \<times> spinlock_irqsave_t" where
  "spinlock_irqsave_unlock r l =
     (let l = l\<lparr>cnt := cnt l - 1\<rparr>
      in if cnt l = 0 then
           (let flags = lflags l
            in (0, irq_nested_enable flags r, next_ticket (clear_owner l)))
         else (0, r, l))"

definition SPINLOCK_IRQSAVE_INIT :: spinlock_irqsave_t where
  "SPINLOCK_IRQSAVE_INIT = \<lparr>tqueue = 0, dequeue = 1, cid = - 1, cnt = 0, lflags = 0\<rparr>"

section \<open>Sequential behaviour\<close>

text \<open>A lock that is free, as every operation leaves it between critical sections.\<close>

definition irqsave_free :: "spinlock_irqsave_t \<Rightarrow> bool" where
  "irqsave_free l \<longleftrightarrow> dequeue l = tqueue l + 1 \<and> cid l = - 1"

lemma core_not_minus_one: "c < MAX_PROCESSOR_COUNT \<Longrightarrow> (of_nat c :: dword) \<noteq> - 1"
proof
  assume c: "c < MAX_PROCESSOR_COUNT" and "(of_nat c :: dword) = - 1"
  then have "unat (of_nat c :: dword) = unat (- 1 :: dword)" by simp
  moreover have "unat (- 1 :: dword) = 4294967295" by (simp add: unsigned_minus_1_eq_mask mask_eq_exp_minus_1)
  ultimately show False using c by (simp add: unat_word_of_nat_small MAX_PROCESSOR_COUNT_def)
qed

lemma wait_ticket_served: "dequeue l = t \<Longrightarrow> wait_ticket l t = Some l"
  by (subst wait_ticket.simps) (simp add: atomic64_read_def)

lemma irqsave_lock_free:
  assumes "irqsave_free l" "c < MAX_PROCESSOR_COUNT"
  shows "spinlock_irqsave_lock c r l = Some (0, snd (irq_nested_disable r),
    l\<lparr>tqueue := tqueue l + 1, cid := of_nat c, lflags := fst (irq_nested_disable r), cnt := 1\<rparr>)"
  using assms core_not_minus_one [OF assms(2)]
  by (auto simp: spinlock_irqsave_lock_def irqsave_free_def draw_ticket_def atomic64_result wait_ticket_served
      take_lock_def split: prod.splits)

lemma irqsave_lock_unlock:
  assumes "irqsave_free l" "c < MAX_PROCESSOR_COUNT" "spinlock_irqsave_lock c r l = Some (i, r', l')"
  shows "i = 0 \<and> is_irq_enabled r' = 0 \<and>
    (case spinlock_irqsave_unlock r' l' of (j, r'', l'') \<Rightarrow> j = 0 \<and> r'' = r \<and> irqsave_free l'')"
  using assms(3) irq_nested_roundtrip [of r] irq_disabled [of r] assms(1)
  unfolding irqsave_lock_free [OF assms(1,2)]
  by (auto simp: spinlock_irqsave_unlock_def clear_owner_def next_ticket_def atomic64_result irqsave_free_def Let_def)

section \<open>Contending cores\<close>

text \<open>
  Where a core is in \<^verbatim>\<open>spinlock_irqsave_lock\<close> or \<^verbatim>\<open>spinlock_irqsave_unlock\<close>, with the local variables it
  still needs. Each step makes one access to the ticket counters or, by the owner, to the fields only
  the owner changes.
\<close>

datatype irq_pc = Irq_out | Irq_entered byte | Irq_draw byte | Irq_wait byte qword | Irq_won byte | Irq_in
  | Irq_cleared byte | Irq_leave byte

datatype irq_event = Ev_disable | Ev_check | Ev_ticket | Ev_spin | Ev_take | Ev_again | Ev_drop | Ev_next | Ev_enable

record irq_state =
  ilock :: spinlock_irqsave_t
  ipc :: "nat \<Rightarrow> irq_pc"
  iflags :: "nat \<Rightarrow> qword"

definition irq_goto :: "nat \<Rightarrow> irq_pc \<Rightarrow> irq_state \<Rightarrow> irq_state" where
  "irq_goto c p s = s\<lparr>ipc := (ipc s)(c := p)\<rparr>"

fun irq_code :: "nat \<Rightarrow> irq_event \<Rightarrow> irq_pc \<Rightarrow> irq_state \<Rightarrow> irq_state option" where
  "irq_code c Ev_disable Irq_out s =
     (let (flags, r) = irq_nested_disable (iflags s c)
      in Some (irq_goto c (Irq_entered flags) (s\<lparr>iflags := (iflags s)(c := r)\<rparr>)))"
| "irq_code c Ev_check (Irq_entered flags) s =
     (if cid (ilock s) = of_nat c
      then Some (irq_goto c Irq_in (s\<lparr>ilock := (ilock s)\<lparr>cnt := cnt (ilock s) + 1\<rparr>\<rparr>))
      else Some (irq_goto c (Irq_draw flags) s))"
| "irq_code c Ev_ticket (Irq_draw flags) s =
     (let (ticket, l) = draw_ticket (ilock s) in Some (irq_goto c (Irq_wait flags ticket) (s\<lparr>ilock := l\<rparr>)))"
| "irq_code c Ev_spin (Irq_wait flags ticket) s =
     Some (if atomic64_read (dequeue (ilock s)) \<noteq> ticket then s else irq_goto c (Irq_won flags) s)"
| "irq_code c Ev_take (Irq_won flags) s = Some (irq_goto c Irq_in (s\<lparr>ilock := take_lock c flags (ilock s)\<rparr>))"
| "irq_code c Ev_again Irq_in s =
     (let (flags, r) = irq_nested_disable (iflags s c); s = s\<lparr>iflags := (iflags s)(c := r)\<rparr>
      in if cid (ilock s) = of_nat c
         then Some (s\<lparr>ilock := (ilock s)\<lparr>cnt := cnt (ilock s) + 1\<rparr>\<rparr>)
         else Some (irq_goto c (Irq_draw flags) s))"
| "irq_code c Ev_drop Irq_in s =
     (let l = (ilock s)\<lparr>cnt := cnt (ilock s) - 1\<rparr>
      in if cnt l = 0 then Some (irq_goto c (Irq_cleared (lflags l)) (s\<lparr>ilock := clear_owner l\<rparr>))
         else Some (s\<lparr>ilock := l\<rparr>))"
| "irq_code c Ev_next (Irq_cleared flags) s = Some (irq_goto c (Irq_leave flags) (s\<lparr>ilock := next_ticket (ilock s)\<rparr>))"
| "irq_code c Ev_enable (Irq_leave flags) s =
     Some (irq_goto c Irq_out (s\<lparr>iflags := (iflags s)(c := irq_nested_enable flags (iflags s c))\<rparr>))"
| "irq_code c _ _ s = None"

definition irq_step :: "nat \<Rightarrow> irq_event \<Rightarrow> irq_state \<Rightarrow> irq_state option" where
  "irq_step c e s = (if c < MAX_PROCESSOR_COUNT then irq_code c e (ipc s c) s else None)"

fun irq_run :: "(nat \<times> irq_event) list \<Rightarrow> irq_state \<Rightarrow> irq_state option" where
  "irq_run [] s = Some s"
| "irq_run ((c, e) # es) s = (case irq_step c e s of None \<Rightarrow> None | Some s \<Rightarrow> irq_run es s)"

text \<open>
  The abstraction is a queue of cores, served from the front: a core that holds a ticket is in it, the
  ticket says its place, and only the first core is past the spin.
\<close>

fun queued :: "irq_pc \<Rightarrow> bool" where
  "queued (Irq_wait _ _) = True"
| "queued (Irq_won _) = True"
| "queued Irq_in = True"
| "queued (Irq_cleared _) = True"
| "queued _ = False"

fun place_ok :: "irq_pc \<Rightarrow> qword \<Rightarrow> nat \<Rightarrow> bool" where
  "place_ok (Irq_wait _ t) d k \<longleftrightarrow> t = d + of_nat k"
| "place_ok _ d k \<longleftrightarrow> k = 0"

definition irq_queue :: "nat list \<Rightarrow> irq_state \<Rightarrow> bool" where
  "irq_queue q s \<longleftrightarrow> distinct q \<and> (\<forall>c. c \<in> set q \<longleftrightarrow> queued (ipc s c)) \<and> set q \<subseteq> {..<MAX_PROCESSOR_COUNT} \<and>
     (\<forall>k<length q. place_ok (ipc s (q ! k)) (dequeue (ilock s)) k) \<and>
     tqueue (ilock s) + 1 = dequeue (ilock s) + of_nat (length q)"

definition irq_owner_ok :: "irq_state \<Rightarrow> bool" where
  "irq_owner_ok s \<longleftrightarrow> (\<forall>c. ipc s c = Irq_in \<longrightarrow> cid (ilock s) = of_nat c) \<and>
     ((\<forall>c. ipc s c \<noteq> Irq_in) \<longrightarrow> cid (ilock s) = - 1)"

definition irq_inv :: "irq_state \<Rightarrow> bool" where
  "irq_inv s \<longleftrightarrow> (\<exists>q. irq_queue q s) \<and> irq_owner_ok s \<and> (\<forall>c. ipc s c \<noteq> Irq_out \<longrightarrow> is_irq_enabled (iflags s c) = 0)"

lemma irq_queue_length: "irq_queue q s \<Longrightarrow> length q \<le> MAX_PROCESSOR_COUNT"
  unfolding irq_queue_def using card_mono [of "{..<MAX_PROCESSOR_COUNT}" "set q"] by (simp add: distinct_card)

lemma irq_first:
  assumes "irq_queue q s" "queued (ipc s c)" "\<And>f t. ipc s c \<noteq> Irq_wait f t"
  shows "q \<noteq> [] \<and> hd q = c"
proof -
  have "c \<in> set q" using assms(1,2) by (simp add: irq_queue_def)
  then obtain k where k: "k < length q" "q ! k = c" by (auto simp: in_set_conv_nth)
  then have "place_ok (ipc s c) (dequeue (ilock s)) k" using assms(1) by (auto simp: irq_queue_def)
  then have "k = 0" using assms(3) by (cases "ipc s c") auto
  then show ?thesis using k by (auto simp: hd_conv_nth)
qed

lemma irq_in_unique: "irq_queue q s \<Longrightarrow> ipc s c = Irq_in \<Longrightarrow> ipc s d = Irq_in \<Longrightarrow> c = d"
  using irq_first [of q s c] irq_first [of q s d] by auto

lemma irq_step_local:
  assumes "irq_step c e s = Some s'" "d \<noteq> c"
  shows "ipc s' d = ipc s d \<and> iflags s' d = iflags s d"
  using assms unfolding irq_step_def
  by (cases "(c, e, ipc s c, s)" rule: irq_code.cases) (auto simp: irq_goto_def Let_def split: if_splits prod.splits)

text \<open>Moving a core on without changing the counters or its place.\<close>

lemma irq_queue_goto:
  assumes "irq_queue q s" "queued p = queued (ipc s c)" "\<And>k. k < length q \<Longrightarrow> q ! k = c \<Longrightarrow> queued p \<Longrightarrow> place_ok p (dequeue (ilock s)) k"
    and "ipc s' = (ipc s)(c := p)" "dequeue (ilock s') = dequeue (ilock s)" "tqueue (ilock s') = tqueue (ilock s)"
  shows "irq_queue q s'"
proof -
  have "place_ok (ipc s' (q ! k)) (dequeue (ilock s')) k" if k: "k < length q" for k
  proof (cases "q ! k = c")
    case True
    then have "queued (ipc s c)" using assms(1) k unfolding irq_queue_def by (metis nth_mem)
    then show ?thesis using assms(2,3) k True by (simp add: assms(4,5))
  next
    case False
    then show ?thesis using assms(1) k by (simp add: assms(4,5) irq_queue_def)
  qed
  moreover have "\<forall>d. d \<in> set q \<longleftrightarrow> queued (ipc s' d)" using assms(1,2) by (auto simp: irq_queue_def assms(4))
  ultimately show ?thesis using assms(1) by (simp add: irq_queue_def assms(5,6))
qed

lemma irq_queue_draw:
  assumes "irq_queue q s" "\<not> queued (ipc s c)" "c < MAX_PROCESSOR_COUNT"
    and "ipc s' = (ipc s)(c := Irq_wait f (tqueue (ilock s) + 1))" "ilock s' = (ilock s)\<lparr>tqueue := tqueue (ilock s) + 1\<rparr>"
  shows "irq_queue (q @ [c]) s'"
proof -
  have c: "c \<notin> set q" using assms(1,2) by (simp add: irq_queue_def)
  then have "(q @ [c]) ! k \<noteq> c" if "k < length q" for k using that by (auto simp: nth_append)
  then show ?thesis using assms c unfolding irq_queue_def by (auto simp: nth_append less_Suc_eq)
qed

lemma irq_queue_release:
  assumes "irq_queue q s" "ipc s c = Irq_cleared f"
    and "ipc s' = (ipc s)(c := Irq_leave f)" "ilock s' = (ilock s)\<lparr>dequeue := dequeue (ilock s) + 1\<rparr>"
  shows "irq_queue (tl q) s'"
proof -
  have "q \<noteq> [] \<and> hd q = c" by (rule irq_first [OF assms(1)]) (simp_all add: assms(2))
  then obtain qs where q: "q = c # qs" by (cases q) auto
  have dq: "c \<notin> set qs" "distinct qs" using assms(1) q by (auto simp: irq_queue_def)
  have pl: "place_ok (ipc s (qs ! k)) (dequeue (ilock s)) (Suc k)" if "k < length qs" for k
    using assms(1) that unfolding irq_queue_def q by force
  have "place_ok (ipc s (qs ! k)) (dequeue (ilock s) + 1) k" if "k < length qs" for k
    using pl [OF that] by (cases "ipc s (qs ! k)") (simp_all add: add.assoc)
  moreover have "qs ! k \<noteq> c" if "k < length qs" for k using that dq(1) by auto
  ultimately show ?thesis using assms dq unfolding irq_queue_def q by auto
qed

lemma of_nat_core_eq: "c < MAX_PROCESSOR_COUNT \<Longrightarrow> d < MAX_PROCESSOR_COUNT \<Longrightarrow> (of_nat c :: dword) = of_nat d \<longleftrightarrow> c = d"
proof
  assume cd: "c < MAX_PROCESSOR_COUNT" "d < MAX_PROCESSOR_COUNT" "(of_nat c :: dword) = of_nat d"
  then have "unat (of_nat c :: dword) = unat (of_nat d :: dword)" by simp
  then show "c = d" using cd(1,2) by (simp add: unat_word_of_nat_small MAX_PROCESSOR_COUNT_def)
qed simp

text \<open>Only the owner finds its own id in the lock.\<close>

lemma irq_cid_owner:
  assumes "irq_queue q s" "irq_owner_ok s" "c < MAX_PROCESSOR_COUNT"
  shows "cid (ilock s) = of_nat c \<longleftrightarrow> ipc s c = Irq_in"
proof
  assume e: "cid (ilock s) = of_nat c"
  then obtain d where d: "ipc s d = Irq_in" using assms(2) core_not_minus_one [OF assms(3)] by (auto simp: irq_owner_ok_def)
  then have "d \<in> set q" using assms(1) by (simp add: irq_queue_def)
  then have "d < MAX_PROCESSOR_COUNT" using assms(1) by (auto simp: irq_queue_def)
  moreover have "cid (ilock s) = of_nat d" using assms(2) d by (simp add: irq_owner_ok_def)
  ultimately show "ipc s c = Irq_in" using e d of_nat_core_eq [OF assms(3)] by auto
qed (use assms(2) in \<open>simp add: irq_owner_ok_def\<close>)

lemma irq_step_cases:
  assumes "irq_inv s" "irq_step c e s = Some s'"
  obtains (start) f r where "irq_nested_disable (iflags s c) = (f, r)" "ipc s c = Irq_out"
      "s' = irq_goto c (Irq_entered f) (s\<lparr>iflags := (iflags s)(c := r)\<rparr>)"
  | (check) f where "ipc s c = Irq_entered f" "s' = irq_goto c (Irq_draw f) s"
  | (ticket) f where "ipc s c = Irq_draw f" "s' = irq_goto c (Irq_wait f (tqueue (ilock s) + 1)) (s\<lparr>ilock := (ilock s)\<lparr>tqueue := tqueue (ilock s) + 1\<rparr>\<rparr>)"
  | (spin) f t where "ipc s c = Irq_wait f t" "dequeue (ilock s) \<noteq> t" "s' = s"
  | (win) f where "ipc s c = Irq_wait f (dequeue (ilock s))" "s' = irq_goto c (Irq_won f) s"
  | (take_it) f where "ipc s c = Irq_won f" "s' = irq_goto c Irq_in (s\<lparr>ilock := take_lock c f (ilock s)\<rparr>)"
  | (count) n where "ipc s c = Irq_in" "s' = s\<lparr>iflags := (iflags s)(c := snd (irq_nested_disable (iflags s c))), ilock := (ilock s)\<lparr>cnt := n\<rparr>\<rparr>"
  | (uncount) n where "ipc s c = Irq_in" "s' = s\<lparr>ilock := (ilock s)\<lparr>cnt := n\<rparr>\<rparr>"
  | (drop) f n where "ipc s c = Irq_in" "s' = irq_goto c (Irq_cleared f) (s\<lparr>ilock := clear_owner ((ilock s)\<lparr>cnt := n\<rparr>)\<rparr>)"
  | (advance) f where "e = Ev_next" "ipc s c = Irq_cleared f" "s' = irq_goto c (Irq_leave f) (s\<lparr>ilock := (ilock s)\<lparr>dequeue := dequeue (ilock s) + 1\<rparr>\<rparr>)"
  | (enable) f where "ipc s c = Irq_leave f" "s' = irq_goto c Irq_out (s\<lparr>iflags := (iflags s)(c := irq_nested_enable f (iflags s c))\<rparr>)"
proof -
  obtain q where q: "irq_queue q s" and o: "irq_owner_ok s" using assms(1) by (auto simp: irq_inv_def)
  have c: "c < MAX_PROCESSOR_COUNT" and code: "irq_code c e (ipc s c) s = Some s'"
    using assms(2) by (auto simp: irq_step_def split: if_splits)
  note own = irq_cid_owner [OF q o c]
  show ?thesis
  proof (cases e)
    case Ev_disable
    then have "ipc s c = Irq_out" using code by (cases "ipc s c") auto
    then show ?thesis using code Ev_disable by (cases "irq_nested_disable (iflags s c)") (rule start, auto)
  next
    case Ev_check
    then obtain f where "ipc s c = Irq_entered f" using code by (cases "ipc s c") auto
    then show ?thesis using code Ev_check own by (intro check [of f]) simp_all
  next
    case Ev_ticket
    then obtain f where "ipc s c = Irq_draw f" using code by (cases "ipc s c") auto
    then show ?thesis using code Ev_ticket by (intro ticket [of f]) (simp_all add: draw_ticket_def atomic64_result)
  next
    case Ev_spin
    then obtain f t where p: "ipc s c = Irq_wait f t" using code by (cases "ipc s c") auto
    show ?thesis
    proof (cases "dequeue (ilock s) = t")
      case True
      then show ?thesis using code Ev_spin p by (intro win [of f]) (simp_all add: atomic64_read_def)
    next
      case False
      then show ?thesis using code Ev_spin p by (intro spin [of f t]) (simp_all add: atomic64_read_def)
    qed
  next
    case Ev_take
    then obtain f where "ipc s c = Irq_won f" using code by (cases "ipc s c") auto
    then show ?thesis using code Ev_take by (intro take_it [of f]) simp_all
  next
    case Ev_again
    then have "ipc s c = Irq_in" using code by (cases "ipc s c") auto
    then show ?thesis using code Ev_again own by (intro count [of "cnt (ilock s) + 1"]) (simp_all add: Let_def split: prod.splits)
  next
    case Ev_drop
    then have p: "ipc s c = Irq_in" using code by (cases "ipc s c") auto
    show ?thesis
    proof (cases "cnt (ilock s) - 1 = 0")
      case True
      then show ?thesis using code Ev_drop p by (intro drop [of "lflags (ilock s)" "cnt (ilock s) - 1"]) (simp_all add: Let_def)
    next
      case False
      then show ?thesis using code Ev_drop p by (intro uncount [of "cnt (ilock s) - 1"]) (simp_all add: Let_def)
    qed
  next
    case Ev_next
    then obtain f where "ipc s c = Irq_cleared f" using code by (cases "ipc s c") auto
    then show ?thesis using code Ev_next by (intro advance [of f]) (simp_all add: next_ticket_def atomic64_result)
  next
    case Ev_enable
    then obtain f where "ipc s c = Irq_leave f" using code by (cases "ipc s c") auto
    then show ?thesis using code Ev_enable by (intro enable [of f]) simp_all
  qed
qed

lemma irq_step_inv:
  assumes "irq_inv s" "irq_step c e s = Some s'"
  shows "irq_inv s'"
proof -
  obtain q where q: "irq_queue q s" and o: "irq_owner_ok s" and fl: "\<And>d. ipc s d \<noteq> Irq_out \<Longrightarrow> is_irq_enabled (iflags s d) = 0"
    using assms(1) by (auto simp: irq_inv_def)
  have c: "c < MAX_PROCESSOR_COUNT" using assms(2) by (auto simp: irq_step_def split: if_splits)
  have k0: "k = 0" if "k < length q" "q ! k = c" "queued (ipc s c)" "\<And>f t. ipc s c \<noteq> Irq_wait f t" for k
    using irq_first [OF q that(3,4)] that(1,2) q by (auto simp: irq_queue_def hd_conv_nth nth_eq_iff_index_eq)
  have out: "is_irq_enabled (iflags s' d) = 0" if "d \<noteq> c" "ipc s' d \<noteq> Irq_out" for d
    using irq_step_local [OF assms(2) that(1)] fl that(2) by auto
  have alone: "ipc s d \<noteq> Irq_in" if "ipc s c = Irq_won f" "d \<noteq> c" for d f
    using irq_first [OF q, of c] irq_first [OF q, of d] that by auto
  have inv: "irq_inv s'" if "irq_queue q' s'" "irq_owner_ok s'" "ipc s' c \<noteq> Irq_out \<Longrightarrow> is_irq_enabled (iflags s' c) = 0" for q'
  proof -
    have "is_irq_enabled (iflags s' d) = 0" if "ipc s' d \<noteq> Irq_out" for d
      using that out \<open>ipc s' c \<noteq> Irq_out \<Longrightarrow> is_irq_enabled (iflags s' c) = 0\<close> by (cases "d = c") auto
    then show ?thesis unfolding irq_inv_def using \<open>irq_queue q' s'\<close> \<open>irq_owner_ok s'\<close> by blast
  qed
  note simps = irq_goto_def irq_owner_ok_def
  have keep: "irq_owner_ok s'" if "ipc s c \<noteq> Irq_in" "p \<noteq> Irq_in" "ipc s' = (ipc s)(c := p)" "cid (ilock s') = cid (ilock s)" for p
  proof -
    have "ipc s' d = Irq_in \<longleftrightarrow> ipc s d = Irq_in" for d using that by simp
    then show ?thesis using o that(4) by (simp add: irq_owner_ok_def)
  qed
  from assms show ?thesis
  proof (cases rule: irq_step_cases)
    case (start f r)
    then show ?thesis using irq_disabled [of "iflags s c"]
      by (intro inv [of q] irq_queue_goto [OF q, of "Irq_entered f" c] keep [of "Irq_entered f"]) (auto simp: irq_goto_def)
  next
    case (check f)
    then show ?thesis using fl [of c]
      by (intro inv [of q] irq_queue_goto [OF q, of "Irq_draw f" c] keep [of "Irq_draw f"]) (auto simp: irq_goto_def)
  next
    case (ticket f)
    then show ?thesis using fl [of c]
      by (intro inv [of "q @ [c]"] irq_queue_draw [OF q _ c] keep [of "Irq_wait f (tqueue (ilock s) + 1)"]) (auto simp: irq_goto_def)
  next
    case (spin f t)
    then show ?thesis using assms(1) by simp
  next
    case (win f)
    have z: "k = 0" if "k < length q" "q ! k = c" for k
    proof -
      have "place_ok (ipc s (q ! k)) (dequeue (ilock s)) k" using q that(1) by (simp add: irq_queue_def)
      then have "(of_nat k :: qword) = 0" using that(2) win(1) by simp
      moreover have "k < 2 ^ LENGTH(64)" using irq_queue_length [OF q] that(1) by (simp add: MAX_PROCESSOR_COUNT_def)
      ultimately show ?thesis by (simp only: of_nat_eq_0_word)
    qed
    then show ?thesis using win fl [of c]
      by (intro inv [of q] irq_queue_goto [OF q, of "Irq_won f" c] keep [of "Irq_won f"]) (auto simp: irq_goto_def)
  next
    case (take_it f)
    then show ?thesis using alone [of f] k0 fl [of c]
      by (intro inv [of q] irq_queue_goto [OF q, of Irq_in c]) (auto simp: simps take_lock_def)
  next
    case (count n)
    then show ?thesis using o k0 irq_disabled [of "iflags s c"]
      by (intro inv [of q] irq_queue_goto [OF q, of Irq_in c]) (auto simp: simps)
  next
    case (uncount n)
    then show ?thesis using o k0 fl [of c] by (intro inv [of q] irq_queue_goto [OF q, of Irq_in c]) (auto simp: simps)
  next
    case (drop f n)
    then have "ipc s d \<noteq> Irq_in" if "d \<noteq> c" for d using irq_in_unique [OF q] that by blast
    then show ?thesis using drop k0 fl [of c]
      by (intro inv [of q] irq_queue_goto [OF q, of "Irq_cleared f" c]) (auto simp: simps clear_owner_def)
  next
    case (advance f)
    then show ?thesis using fl [of c]
      by (intro inv [of "tl q"] irq_queue_release [OF q] keep [of "Irq_leave f"]) (auto simp: irq_goto_def)
  next
    case (enable f)
    then show ?thesis
      by (intro inv [of q] irq_queue_goto [OF q, of Irq_out c] keep [of Irq_out]) (auto simp: irq_goto_def)
  qed
qed

definition irq_takes :: "nat \<Rightarrow> irq_state \<Rightarrow> irq_state \<Rightarrow> bool" where
  "irq_takes c s s' \<longleftrightarrow> (\<exists>e. irq_step c e s = Some s')"

definition irq_owns :: "nat \<Rightarrow> irq_state \<Rightarrow> bool" where
  "irq_owns c s \<longleftrightarrow> ipc s c = Irq_in"

interpretation irqsave: mutex irq_takes irq_owns irq_inv
proof
  show "irq_inv s'" if "irq_inv s" "irq_takes c s s'" for s s' c
    using that irq_step_inv by (auto simp: irq_takes_def)
  show "c = d" if "irq_inv s" "irq_owns c s" "irq_owns d s" for s c d
    using that irq_in_unique by (auto simp: irq_inv_def irq_owns_def)
  show "irq_owns d s' = irq_owns d s" if "irq_inv s" "irq_takes c s s'" "d \<noteq> c" for s s' c d
    using that irq_step_local by (auto simp: irq_takes_def irq_owns_def)
qed

text \<open>The lock as \<^verbatim>\<open>spinlock_irqsave_init\<close> leaves it, with no core using it.\<close>

definition irq_start :: "irq_state \<Rightarrow> bool" where
  "irq_start s \<longleftrightarrow> (\<exists>l. ilock s = snd (spinlock_irqsave_init l)) \<and> ipc s = (\<lambda>_. Irq_out)"

lemma irq_start_inv:
  assumes "irq_start s"
  shows "irq_inv s"
proof -
  have l: "tqueue (ilock s) = 0" "dequeue (ilock s) = 1" "cid (ilock s) = - 1"
    using assms
    by (auto simp: irq_start_def spinlock_irqsave_init_def atomic_defs Let_def)
  have "irq_queue [] s" using assms l by (simp add: irq_queue_def irq_start_def)
  moreover have "irq_owner_ok s" using assms l by (simp add: irq_owner_ok_def irq_start_def)
  ultimately show ?thesis using assms by (auto simp: irq_inv_def irq_start_def)
qed


section \<open>Fairness\<close>

lemma irq_run_inv: "irq_run es s = Some s' \<Longrightarrow> irq_inv s \<Longrightarrow> irq_inv s'"
  by (induction es s rule: irq_run.induct) (auto split: option.splits intro: irq_step_inv)

lemma irq_wait_place:
  assumes "irq_queue q s" "ipc s c = Irq_wait f t"
  obtains k where "k < length q" "q ! k = c" "t = dequeue (ilock s) + of_nat k" "unat (t - dequeue (ilock s)) = k"
proof -
  have "c \<in> set q" using assms by (simp add: irq_queue_def)
  then obtain k where k: "k < length q" "q ! k = c" by (auto simp: in_set_conv_nth)
  then have t: "t = dequeue (ilock s) + of_nat k" using assms unfolding irq_queue_def by force
  have "k < 2 ^ LENGTH(64)" using irq_queue_length [OF assms(1)] k(1) by (simp add: MAX_PROCESSOR_COUNT_def)
  then have "unat (of_nat k :: qword) = k" by (rule unat_word_of_nat_small)
  then show ?thesis using that k t by simp
qed

lemma irq_step_dequeue:
  assumes "irq_inv s" "irq_step d e s = Some s'"
  shows "dequeue (ilock s') = (if e = Ev_next then dequeue (ilock s) + 1 else dequeue (ilock s))"
  using assms
proof (cases rule: irq_step_cases)
  case (advance f)
  then show ?thesis by (simp add: irq_goto_def)
qed (use assms(2) in \<open>auto simp: irq_step_def irq_goto_def take_lock_def clear_owner_def split: if_splits\<close>)

text \<open>A release by another core moves a waiting core one place forward, every other step leaves it.\<close>

lemma irq_wait_step:
  assumes "irq_inv s" "irq_step d e s = Some s'" "d \<noteq> c" "ipc s c = Irq_wait f t"
  shows "unat (t - dequeue (ilock s)) = (if e = Ev_next then 1 else 0) + unat (t - dequeue (ilock s'))"
proof -
  have w: "ipc s' c = Irq_wait f t" using irq_step_local [OF assms(2), of c] assms(3,4) by simp
  obtain q where q: "irq_queue q s" using assms(1) by (auto simp: irq_inv_def)
  obtain q' where q': "irq_queue q' s'" using irq_step_inv [OF assms(1,2)] by (auto simp: irq_inv_def)
  note dq = irq_step_dequeue [OF assms(1,2)]
  show ?thesis
  proof (cases "e = Ev_next")
    case True
    obtain k where k: "k < length q" "q ! k = c" "t = dequeue (ilock s) + of_nat k" "unat (t - dequeue (ilock s)) = k"
      using irq_wait_place [OF q assms(4)] by blast
    obtain j where j: "j < length q'" "t = dequeue (ilock s') + of_nat j" "unat (t - dequeue (ilock s')) = j"
      using irq_wait_place [OF q' w] by blast
    have "(of_nat k :: qword) = of_nat (Suc j)" using k(3) j(2) dq True by (simp add: add.assoc)
    then have "unat (of_nat k :: qword) = unat (of_nat (Suc j) :: qword)" by simp
    moreover have "k < 2 ^ LENGTH(64)" "Suc j < 2 ^ LENGTH(64)"
      using irq_queue_length [OF q] irq_queue_length [OF q'] k(1) j(1) by (simp_all add: MAX_PROCESSOR_COUNT_def)
    ultimately have "k = Suc j" by (simp only: unat_word_of_nat_small)
    then show ?thesis using k(4) j(3) True by simp
  qed (simp add: dq)
qed

lemma irq_wait_run:
  assumes "irq_run es s = Some s'" "irq_inv s" "ipc s c = Irq_wait f t" "\<forall>(d, e)\<in>set es. d \<noteq> c"
  shows "ipc s' c = Irq_wait f t \<and>
    unat (t - dequeue (ilock s)) = length (filter (\<lambda>(d, e). e = Ev_next) es) + unat (t - dequeue (ilock s'))"
  using assms
proof (induction es s rule: irq_run.induct)
  case (2 d e es s)
  then obtain s1 where s1: "irq_step d e s = Some s1" "irq_run es s1 = Some s'" by (auto split: option.splits)
  have d: "d \<noteq> c" using "2.prems"(4) by simp
  have w: "ipc s1 c = Irq_wait f t" using irq_step_local [OF s1(1), of c] d "2.prems"(3) by simp
  have "ipc s' c = Irq_wait f t \<and>
    unat (t - dequeue (ilock s1)) = length (filter (\<lambda>(d, e). e = Ev_next) es) + unat (t - dequeue (ilock s'))"
    using "2.IH" [OF s1(1) s1(2) irq_step_inv [OF "2.prems"(2) s1(1)] w] "2.prems"(4) by simp
  then show ?case using irq_wait_step [OF "2.prems"(2) s1(1) d "2.prems"(3)] by auto
qed simp

text \<open>A core at the front of the queue, which no other core can delay.\<close>

fun served :: "irq_pc \<Rightarrow> qword \<Rightarrow> bool" where
  "served (Irq_wait _ t) d \<longleftrightarrow> t = d"
| "served p d \<longleftrightarrow> queued p"

lemma irq_front_served:
  assumes "irq_queue q s" "q \<noteq> []"
  shows "served (ipc s (hd q)) (dequeue (ilock s))"
proof -
  have "hd q \<in> set q" using assms(2) by simp
  then have "queued (ipc s (hd q))" using assms(1) by (simp add: irq_queue_def)
  moreover have "place_ok (ipc s (hd q)) (dequeue (ilock s)) 0" using assms by (simp add: irq_queue_def hd_conv_nth)
  ultimately show ?thesis by (cases "ipc s (hd q)") simp_all
qed

text \<open>C33. Fairness of the ticket lock. A core that waits with a ticket has at most 287 cores ahead. Whatever the
  other cores do, the number ahead falls by one with each release and by nothing else, so at most that
  many releases happen before its turn; as long as it is not its turn some other core is at the front,
  and when it is its turn its next look at the counter ends the wait.\<close>

theorem ticket_lock_fair:
  assumes "irq_start s0" "irq_run before s0 = Some s" "ipc s c = Irq_wait f t"
    and "irq_run es s = Some s'" "\<forall>(d, e)\<in>set es. d \<noteq> c"
  shows "(let ahead = unat (t - dequeue (ilock s)); releases = length (filter (\<lambda>(d, e). e = Ev_next) es);
      left = unat (t - dequeue (ilock s'))
    in ahead < MAX_PROCESSOR_COUNT \<and> ahead = releases + left \<and>
      (if left = 0 then irq_step c Ev_spin s' = Some (irq_goto c (Irq_won f) s')
       else \<exists>d. d \<noteq> c \<and> served (ipc s' d) (dequeue (ilock s'))))"
proof -
  have i: "irq_inv s" by (rule irq_run_inv [OF assms(2) irq_start_inv [OF assms(1)]])
  have i': "irq_inv s'" by (rule irq_run_inv [OF assms(4) i])
  obtain q q' where q: "irq_queue q s" "irq_queue q' s'" using i i' by (auto simp: irq_inv_def)
  note r = irq_wait_run [OF assms(4) i assms(3,5)]
  obtain k where k: "k < length q" "unat (t - dequeue (ilock s)) = k" using irq_wait_place [OF q(1) assms(3)] by blast
  obtain j where j: "j < length q'" "q' ! j = c" "t = dequeue (ilock s') + of_nat j" "unat (t - dequeue (ilock s')) = j"
    using irq_wait_place [OF q(2) conjunct1 [OF r]] by blast
  have c: "c < MAX_PROCESSOR_COUNT" using q(2) j(1,2) by (auto simp: irq_queue_def)
  have "irq_step c Ev_spin s' = Some (irq_goto c (Irq_won f) s')" if "j = 0"
    using conjunct1 [OF r] j(3) that c by (simp add: irq_step_def atomic64_read_def)
  moreover have "\<exists>d. d \<noteq> c \<and> served (ipc s' d) (dequeue (ilock s'))" if "j \<noteq> 0"
  proof (intro exI conjI)
    show "served (ipc s' (hd q')) (dequeue (ilock s'))" by (rule irq_front_served [OF q(2)]) (use j(1) in auto)
    have "q' ! 0 \<noteq> q' ! j" using j(1) that q(2) by (subst nth_eq_iff_index_eq) (auto simp: irq_queue_def)
    moreover have "hd q' = q' ! 0" using j(1) by (intro hd_conv_nth) auto
    ultimately show "hd q' \<noteq> c" using j(2) by simp
  qed
  ultimately show ?thesis using r k j(4) irq_queue_length [OF q(1)] unfolding Let_def by auto
qed

text \<open>Three cores: core 0 takes the lock, cores 1 and 2 draw tickets, core 0 leaves.\<close>

definition irq_idle :: irq_state where
  "irq_idle = \<lparr>ilock = SPINLOCK_IRQSAVE_INIT, ipc = \<lambda>_. Irq_out, iflags = \<lambda>_. 0x202\<rparr>"

definition irq_before :: "(nat \<times> irq_event) list" where
  "irq_before = map (Pair 0) [Ev_disable, Ev_check, Ev_ticket, Ev_spin, Ev_take] @
     map (Pair 1) [Ev_disable, Ev_check, Ev_ticket] @ map (Pair 2) [Ev_disable, Ev_check, Ev_ticket]"

definition irq_after :: "(nat \<times> irq_event) list" where
  "irq_after = map (Pair 0) [Ev_again, Ev_drop, Ev_drop, Ev_next, Ev_enable]"

lemma irq_idle_start: "irq_start irq_idle"
  unfolding irq_start_def irq_idle_def
  by (intro conjI exI [of _ SPINLOCK_IRQSAVE_INIT])
    (simp_all add: SPINLOCK_IRQSAVE_INIT_def spinlock_irqsave_init_def atomic_defs)

theorem ticket_lock_fair_witness:
  "\<exists>s s'. irq_run irq_before irq_idle = Some s \<and> irq_run irq_after s = Some s' \<and> ipc s 2 = Irq_wait 1 3 \<and>
     unat (3 - dequeue (ilock s)) = 1 + unat (3 - dequeue (ilock s')) \<and> (\<exists>d. d \<noteq> 2 \<and> served (ipc s' d) (dequeue (ilock s')))"
proof -
  have "irq_run irq_before irq_idle \<noteq> None \<and> (case irq_run irq_before irq_idle of Some s \<Rightarrow> ipc s 2 = Irq_wait 1 3 \<and> dequeue (ilock s) = 1 \<and>
      (case irq_run irq_after s of Some s' \<Rightarrow> dequeue (ilock s') = 2 | None \<Rightarrow> False))" by code_simp
  then obtain s s' where s: "irq_run irq_before irq_idle = Some s" "irq_run irq_after s = Some s'" "ipc s 2 = Irq_wait 1 3"
    "dequeue (ilock s) = 1" "dequeue (ilock s') = 2" by (auto split: option.splits)
  have o: "\<forall>(d, e)\<in>set irq_after. d \<noteq> 2" by (auto simp: irq_after_def)
  have "length (filter (\<lambda>(d, e). e = Ev_next) irq_after) = 1" by (simp add: irq_after_def)
  then show ?thesis using ticket_lock_fair [OF irq_idle_start s(1,3,2) o] s by (auto simp: Let_def split: if_splits)
qed

definition irq_guarded :: "(irq_state, nat) guarded" where
  "irq_guarded = \<lparr>glock = irq_idle, datum = 5, copy = \<lambda>_. None, updates = 0\<rparr>"


end
