(* ===== verification/Strings.thy ===== *)
theory Strings
  imports Utility "HOL-Library.Monad_Syntax"
begin

text \<open>
  The string routines of \<^verbatim>\<open>kernel/utility.c\<close>: length, reversal, number conversion, formatting and
  comparison, over the byte memory of \<^verbatim>\<open>Utility\<close>. \<^const>\<open>None\<close> is a loop that does not end (a buffer
  without a terminator) or an argument that was not passed. A \<^verbatim>\<open>va_list\<close> is the list of the integer
  and pointer arguments (one 64-bit slot each) with the list of the floating-point arguments, which
  the calling convention passes apart. The arithmetic on \<^verbatim>\<open>double\<close> is a parameter.
\<close>

section \<open>Length and reversal\<close>

partial_function (option) strlen_loop :: "memory \<Rightarrow> qword \<Rightarrow> nat \<Rightarrow> nat option" where
  "strlen_loop m buffer i = (if m (buffer + of_nat i) = 0 then Some i else strlen_loop m buffer (Suc i))"

definition lk_strlen :: "memory \<Rightarrow> qword \<Rightarrow> nat option" where
  "lk_strlen m buffer = strlen_loop m buffer 0"

definition swap_bytes :: "qword \<Rightarrow> nat \<Rightarrow> nat \<Rightarrow> memory \<Rightarrow> memory" where
  "swap_bytes buffer len i m =
     (let temp = m (buffer + of_nat i);
          m = m(buffer + of_nat i := m (buffer + of_nat (len - 1 - i)))
      in m(buffer + of_nat (len - 1 - i) := temp))"

definition lk_reversestring :: "memory \<Rightarrow> qword \<Rightarrow> memory option" where
  "lk_reversestring m buffer = do {
     len \<leftarrow> lk_strlen m buffer;
     Some (fold (swap_bytes buffer len) [0..<len div 2] m)
   }"

section \<open>Numbers\<close>

function hex_loop :: "qword \<Rightarrow> nat \<Rightarrow> qword \<Rightarrow> memory \<Rightarrow> nat \<times> memory" where
  "hex_loop buffer i v m =
     (if 0 < v then
        (let cv = v mod 16;
             ch = (if 10 \<le> cv then of_char (CHR ''A'') + ucast (cv - 10) else of_char (CHR ''0'') + ucast cv)
         in hex_loop buffer (Suc i) (v div 16) (m(buffer + of_nat i := ch)))
      else (i, m))"
  by pat_completeness auto

termination
proof (relation "measure (\<lambda>(_, _, v, _). unat v)", goal_cases)
  case (2 buffer i v m cv ch)
  then have "0 < unat v" by (simp add: word_less_nat_alt)
  then show ?case by (simp add: unat_div_distrib)
qed simp

definition lk_hextostring :: "qword \<Rightarrow> qword \<Rightarrow> memory \<Rightarrow> (nat \<times> memory) option" where
  "lk_hextostring v buffer m =
     (if v = 0 then Some (1, m(buffer := of_char (CHR ''0''), buffer + 1 := 0))
      else do {
        let (i, m) = hex_loop buffer 0 v m;
        m \<leftarrow> lk_reversestring (m(buffer + of_nat i := 0)) buffer;
        Some (i, m)
      })"

function dec_loop :: "qword \<Rightarrow> nat \<Rightarrow> int \<Rightarrow> memory \<Rightarrow> nat \<times> memory" where
  "dec_loop buffer i v m =
     (if 0 < v then
        dec_loop buffer (Suc i) (c_div v 10) (m(buffer + of_nat i := of_char (CHR ''0'') + word_of_int (c_mod v 10)))
      else (i, m))"
  by pat_completeness auto

termination by (relation "measure (\<lambda>(_, _, v, _). nat v)") (simp_all add: nat_div_distrib)

text \<open>Negation of a \<^verbatim>\<open>long\<close> as the machine computes it; the smallest value is its own negation.\<close>

definition neg_long :: "int \<Rightarrow> int" where
  "neg_long v = sint (word_of_int (- v) :: 64 word)"

definition lk_decimaltostring :: "int \<Rightarrow> qword \<Rightarrow> memory \<Rightarrow> (nat \<times> memory) option" where
  "lk_decimaltostring v buffer m =
     (if v = 0 then Some (1, m(buffer := of_char (CHR ''0''), buffer + 1 := 0))
      else do {
        let (i, v, m) = (if v < 0 then (1, neg_long v, m(buffer := of_char (CHR ''-''))) else (0, v, m));
        let (i, m) = dec_loop buffer i v m;
        let m = m(buffer + of_nat i := 0);
        m \<leftarrow> (if m buffer = of_char (CHR ''-'') then lk_reversestring m (buffer + 1) else lk_reversestring m buffer);
        Some (i, m)
      })"

definition lk_itoa :: "int \<Rightarrow> qword \<Rightarrow> int \<Rightarrow> memory \<Rightarrow> (nat \<times> memory) option" where
  "lk_itoa v buffer radix m =
     (if radix = 16 then lk_hextostring (word_of_int v) buffer m else lk_decimaltostring v buffer m)"

section \<open>Formatting\<close>

text \<open>The operations on \<^verbatim>\<open>double\<close> that the code uses.\<close>

record 'd double_ops =
  d_round :: "'d \<Rightarrow> 'd"
  d_times :: "'d \<Rightarrow> nat \<Rightarrow> 'd"
  d_div_10 :: "'d \<Rightarrow> 'd"
  d_trunc :: "'d \<Rightarrow> qword"

type_synonym 'd va_list = "qword list \<times> 'd list"

fun va_arg :: "'d va_list \<Rightarrow> (qword \<times> 'd va_list) option" where
  "va_arg (x # xs, ds) = Some (x, xs, ds)"
| "va_arg ([], ds) = None"

fun va_double :: "'d va_list \<Rightarrow> ('d \<times> 'd va_list) option" where
  "va_double (xs, d # ds) = Some (d, xs, ds)"
| "va_double (xs, []) = None"

definition digit :: "qword \<Rightarrow> byte" where
  "digit v = of_char (CHR ''0'') + ucast (v mod 10)"

partial_function (option) float_loop :: "'d double_ops \<Rightarrow> qword \<Rightarrow> nat \<Rightarrow> 'd \<Rightarrow> memory \<Rightarrow> (nat \<times> memory) option" where
  "float_loop fo buffer k d m =
     (if d_trunc fo d = 0 \<and> k \<noteq> 0 then Some (k, m)
      else float_loop fo buffer (Suc k) (d_div_10 fo d) (m(buffer + of_nat (3 + k) := digit (d_trunc fo d))))"

text \<open>The \<^verbatim>\<open>switch\<close> on the character after a per cent sign.\<close>

definition directive :: "'d double_ops \<Rightarrow> qword \<Rightarrow> byte \<Rightarrow> memory \<Rightarrow> 'd va_list \<Rightarrow> nat \<Rightarrow> (memory \<times> 'd va_list \<times> nat) option" where
  "directive fo buffer c m ap bi =
     (let b = buffer + of_nat bi
      in if c = of_char (CHR ''s'') then do {
           (copy_string, ap) \<leftarrow> va_arg ap;
           copy_length \<leftarrow> lk_strlen m copy_string;
           Some (snd (lk_memcpy m b copy_string (int copy_length)), ap, bi + copy_length)
         }
         else if c = of_char (CHR ''c'') then do {
           (v, ap) \<leftarrow> va_arg ap;
           Some (m(b := ucast v), ap, bi + 1)
         }
         else if c = of_char (CHR ''d'') \<or> c = of_char (CHR ''i'') then do {
           (v, ap) \<leftarrow> va_arg ap;
           (n, m) \<leftarrow> lk_itoa (int_of_qword v) b 10 m;
           Some (m, ap, bi + n)
         }
         else if c = of_char (CHR ''x'') \<or> c = of_char (CHR ''X'') then do {
           (v, ap) \<leftarrow> va_arg ap;
           (n, m) \<leftarrow> lk_itoa (uint (ucast v :: dword)) b 16 m;
           Some (m, ap, bi + n)
         }
         else if c = of_char (CHR ''q'') \<or> c = of_char (CHR ''Q'') \<or> c = of_char (CHR ''p'') then do {
           (v, ap) \<leftarrow> va_arg ap;
           (n, m) \<leftarrow> lk_itoa (sint v) b 16 m;
           Some (m, ap, bi + n)
         }
         else if c = of_char (CHR ''f'') then do {
           (d, ap) \<leftarrow> va_double ap;
           let d = d_round fo d;
           let m = m(b := digit (d_trunc fo (d_times fo d 100)), b + 1 := digit (d_trunc fo (d_times fo d 10)),
                     b + 2 := of_char (CHR ''.''));
           (k, m) \<leftarrow> float_loop fo b 0 d m;
           m \<leftarrow> lk_reversestring (m(b + of_nat (3 + k) := 0)) b;
           Some (m, ap, bi + 3 + k)
         }
         else Some (m(b := c), ap, bi + 1))"

function format_loop :: "'d double_ops \<Rightarrow> qword \<Rightarrow> qword \<Rightarrow> nat \<Rightarrow> nat \<Rightarrow> memory \<Rightarrow> 'd va_list \<Rightarrow> nat \<Rightarrow> (nat \<times> memory) option" where
  "format_loop fo buffer parameter n i m ap bi =
     (if i < n then
        if m (parameter + of_nat i) = of_char (CHR ''%'') then do {
          (m, ap, bi) \<leftarrow> directive fo buffer (m (parameter + of_nat (Suc i))) m ap bi;
          format_loop fo buffer parameter n (Suc (Suc i)) m ap bi
        }
        else format_loop fo buffer parameter n (Suc i) (m(buffer + of_nat bi := m (parameter + of_nat i))) ap (Suc bi)
      else Some (bi, m))"
  by pat_completeness auto

termination by (relation "measure (\<lambda>(_, _, _, n, i, _). n - i)") auto

declare hex_loop.simps [simp del] dec_loop.simps [simp del] format_loop.simps [simp del]

definition lk_vsprintf :: "'d double_ops \<Rightarrow> qword \<Rightarrow> qword \<Rightarrow> 'd va_list \<Rightarrow> memory \<Rightarrow> (nat \<times> memory) option" where
  "lk_vsprintf fo buffer parameter ap m = do {
     format_length \<leftarrow> lk_strlen m parameter;
     (bi, m) \<leftarrow> format_loop fo buffer parameter format_length 0 m ap 0;
     Some (bi, m(buffer + of_nat bi := 0))
   }"

text \<open>The arguments after the format are the \<^verbatim>\<open>va_list\<close>.\<close>

definition lk_sprintf :: "'d double_ops \<Rightarrow> qword \<Rightarrow> qword \<Rightarrow> 'd va_list \<Rightarrow> memory \<Rightarrow> (nat \<times> memory) option" where
  "lk_sprintf fo buffer parameter ap m = lk_vsprintf fo buffer parameter ap m"

section \<open>Comparison\<close>

definition diff_byte :: "qword \<Rightarrow> nat \<Rightarrow> qword" where
  "diff_byte v j = drop_bit (j * 8) v AND 0xFF"

definition compare_word :: "memory \<Rightarrow> qword \<Rightarrow> qword \<Rightarrow> nat \<Rightarrow> int option" where
  "compare_word m destination source i =
     (let v = load_qword m (destination + of_nat (8 * i)) - load_qword m (source + of_nat (8 * i))
      in if v \<noteq> 0 then map_option (\<lambda>j. uint (diff_byte v j)) (find (\<lambda>j. diff_byte v j \<noteq> 0) [0..<8]) else None)"

definition compare_byte :: "memory \<Rightarrow> qword \<Rightarrow> qword \<Rightarrow> nat \<Rightarrow> int option" where
  "compare_byte m destination source i =
     (let ch = m (destination + of_nat i) - m (source + of_nat i) in if ch \<noteq> 0 then Some (sint ch) else None)"

text \<open>The first comparison that returns.\<close>

fun first_some :: "('a \<Rightarrow> 'b option) \<Rightarrow> 'a list \<Rightarrow> 'b option" where
  "first_some f [] = None"
| "first_some f (x # xs) = (case f x of None \<Rightarrow> first_some f xs | Some y \<Rightarrow> Some y)"

definition lk_memcmp :: "memory \<Rightarrow> qword \<Rightarrow> qword \<Rightarrow> int \<Rightarrow> int" where
  "lk_memcmp m destination source sz =
     (let n = nat (c_div sz 8)
      in case first_some (compare_word m destination source) [0..<n] of
           Some r \<Rightarrow> r
         | None \<Rightarrow>
             (case first_some (compare_byte m destination source) [8 * n..<8 * n + nat (c_mod sz 8)] of
                Some r \<Rightarrow> r
              | None \<Rightarrow> 0))"

section \<open>Random numbers and the memory check\<close>

definition lk_srand :: "dword \<Rightarrow> qword" where
  "lk_srand seed = ucast seed"

definition lk_rand :: "qword \<Rightarrow> qword \<times> qword" where
  "lk_rand holdrand = (let h = holdrand * 214013 + 2531011 in (signed_drop_bit 16 h AND 0x7fff, h))"

section \<open>Bytes in memory\<close>

definition bytes_at :: "memory \<Rightarrow> qword \<Rightarrow> byte list \<Rightarrow> bool" where
  "bytes_at m a s \<longleftrightarrow> (\<forall>i<length s. m (a + of_nat i) = s ! i)"

text \<open>A terminated string whose length fits an \<^verbatim>\<open>int\<close>.\<close>

definition cstr :: "memory \<Rightarrow> qword \<Rightarrow> byte list \<Rightarrow> bool" where
  "cstr m a s \<longleftrightarrow> length s < 2 ^ 31 \<and> 0 \<notin> set s \<and> bytes_at m a s \<and> m (a + of_nat (length s)) = 0"

text \<open>Writing a list of bytes.\<close>

fun put :: "qword \<Rightarrow> byte list \<Rightarrow> memory \<Rightarrow> memory" where
  "put a [] m = m"
| "put a (x # xs) m = put (a + 1) xs (m(a := x))"

lemma in_range_Suc: "Suc n < 2 ^ 64 \<Longrightarrow> in_range x a (Suc n) \<longleftrightarrow> x = a \<or> in_range x (a + 1) n"
  using in_range_split [of 1 n x a] by (simp add: in_range_def unat_eq_0)

lemma put_apply:
  "length s < 2 ^ 64 \<Longrightarrow> put a s m x = (if in_range x a (length s) then s ! unat (x - a) else m x)"
proof (induction s arbitrary: a m)
  case (Cons y ys)
  then have IH: "put (a + 1) ys (m(a := y)) x = (if in_range x (a + 1) (length ys) then ys ! unat (x - (a + 1)) else (m(a := y)) x)"
    by simp
  have le: "length ys < 2 ^ 64" using Cons.prems by simp
  show ?case
  proof (cases "in_range x (a + 1) (length ys)")
    case True
    then obtain i where i: "i < length ys" "x = a + 1 + of_nat i" by (rule in_range_offset)
    then have "unat (x - (a + 1)) = i" "unat (x - a) = Suc i"
      using Cons.prems by (simp_all add: unat_word_of_nat_small flip: of_nat_Suc)
    then show ?thesis using True IH Cons.prems in_range_Suc [of "length ys" x a] by simp
  next
    case False
    then show ?thesis using IH Cons.prems in_range_Suc [of "length ys" x a] by auto
  qed
qed (simp add: in_range_def)

lemma put_append: "put a (s @ t) m = put (a + of_nat (length s)) t (put a s m)"
  by (induction s arbitrary: a m) (simp_all add: ac_simps)

lemma put_put: "length s = length t \<Longrightarrow> length s < 2 ^ 64 \<Longrightarrow> put a s (put a t m) = put a s m"
  by (rule ext) (simp add: put_apply)

lemma put_snoc: "(put a s m)(a + of_nat (length s) := x) = put a (s @ [x]) m"
  by (simp add: put_append)

lemma put_over:
  assumes "length t \<le> length s" "length s < 2 ^ 64"
  shows "put a s (put a t m) = put a s m"
proof -
  have "put a s (put a t m) = put (a + of_nat (length t)) (drop (length t) s) (put a (take (length t) s) (put a t m))"
    using put_append [of a "take (length t) s" "drop (length t) s"] assms(1) by simp
  also have "put a (take (length t) s) (put a t m) = put a (take (length t) s) m" using assms by (simp add: put_put)
  also have "put (a + of_nat (length t)) (drop (length t) s) (put a (take (length t) s) m) = put a s m"
    using put_append [of a "take (length t) s" "drop (length t) s"] assms(1) by simp
  finally show ?thesis .
qed

lemma put_at:
  assumes "i < length s" "length s < 2 ^ 64"
  shows "put a s m (a + of_nat i) = s ! i"
  using assms by (simp add: put_apply in_range_def unat_word_of_nat_small)

lemma put_same: "length s < 2 ^ 64 \<Longrightarrow> bytes_at m a s \<Longrightarrow> put a s m = m"
  unfolding bytes_at_def by (rule ext) (auto simp: put_apply elim!: in_range_offset simp: unat_word_of_nat_small)

lemma put_apart:
  "length s < 2 ^ 64 \<Longrightarrow> apart b n a (length s) \<Longrightarrow> in_range x b n \<Longrightarrow> put a s m x = m x"
  by (simp add: put_apply apart_def)

lemma in_range_at: "i < n \<Longrightarrow> n < 2 ^ 64 \<Longrightarrow> in_range (a + of_nat i) a n"
  by (simp add: in_range_def unat_word_of_nat_small)

lemma cstr_put:
  assumes "cstr m b t" "apart b (Suc (length t)) a (length s)" "length s < 2 ^ 64"
  shows "cstr (put a s m) b t"
proof -
  have l: "Suc (length t) < 2 ^ 64" using assms(1) by (simp add: cstr_def)
  have "put a s m (b + of_nat i) = m (b + of_nat i)" if "i \<le> length t" for i
    using put_apart [OF assms(3,2) in_range_at [OF _ l]] that by simp
  then show ?thesis using assms(1) by (simp add: cstr_def bytes_at_def)
qed

lemma cstr_put_self: "0 \<notin> set s \<Longrightarrow> length s < 2 ^ 31 \<Longrightarrow> cstr (put a (s @ [0]) m) a s"
  by (auto simp: cstr_def bytes_at_def put_at nth_append)

section \<open>Length and reversal are right\<close>

lemma lk_strlen_cstr:
  assumes "cstr m a s"
  shows "lk_strlen m a = Some (length s)"
proof -
  have nz: "m (a + of_nat i) \<noteq> 0" if "i < length s" for i
    using assms that by (auto simp: cstr_def bytes_at_def in_set_conv_nth)
  have z: "m (a + of_nat (length s)) = 0" using assms by (simp add: cstr_def)
  have "strlen_loop m a i = Some (length s)" if "i \<le> length s" for i
    using that
  proof (induction "length s - i" arbitrary: i)
    case 0
    then show ?case using z by (simp add: strlen_loop.simps)
  next
    case (Suc k)
    then have "i < length s" by simp
    then show ?case using nz [of i] Suc by (subst strlen_loop.simps) simp
  qed
  then show ?thesis by (simp add: lk_strlen_def)
qed

lemma swap_bytes_apply:
  assumes "i < n" "j < n" "n < 2 ^ 64"
  shows "swap_bytes a n i m (a + of_nat j) =
    (if j = n - 1 - i then m (a + of_nat i) else if j = i then m (a + of_nat (n - 1 - i)) else m (a + of_nat j))"
proof -
  have e: "(a + of_nat k = a + of_nat l) \<longleftrightarrow> k = l" if "k < n" "l < n" for k l
  proof
    assume "a + of_nat k = a + of_nat l"
    then have "unat (of_nat k :: qword) = unat (of_nat l :: qword)" by simp
    then show "k = l" using that assms(3) by (simp add: unat_word_of_nat_small)
  qed simp
  show ?thesis using assms e [of j "n - 1 - i"] e [of j i] by (simp add: swap_bytes_def Let_def)
qed

lemma swap_bytes_outside: "i < n \<Longrightarrow> n < 2 ^ 64 \<Longrightarrow> \<not> in_range x a n \<Longrightarrow> swap_bytes a n i m x = m x"
  using in_range_at [of i n a] in_range_at [of "n - 1 - i" n a] by (auto simp: swap_bytes_def Let_def)

lemma swaps_apply:
  assumes "k \<le> n div 2" "j < n" "n < 2 ^ 64"
  shows "fold (swap_bytes a n) [0..<k] m (a + of_nat j) =
    (if j < k \<or> n - k \<le> j then m (a + of_nat (n - 1 - j)) else m (a + of_nat j))"
  using assms(1,2)
proof (induction k arbitrary: j)
  case (Suc k)
  define M where "M = fold (swap_bytes a n) [0..<k] m"
  have IH: "M (a + of_nat j) = (if j < k \<or> n - k \<le> j then m (a + of_nat (n - 1 - j)) else m (a + of_nat j))" if "j < n" for j
    unfolding M_def using Suc that by simp
  have kn: "k < n" "n - 1 - k < n" "\<not> n - k \<le> n - 1 - k" "\<not> n - 1 - k < k" "\<not> n - k \<le> k" "n - 1 - (n - 1 - k) = k"
    using Suc.prems(1) by linarith+
  have "fold (swap_bytes a n) [0..<Suc k] m (a + of_nat j) = swap_bytes a n k M (a + of_nat j)" by (simp add: M_def)
  also have "\<dots> = (if j = n - 1 - k then m (a + of_nat k) else if j = k then m (a + of_nat (n - 1 - k)) else M (a + of_nat j))"
    unfolding swap_bytes_apply [OF kn(1) Suc.prems(2) assms(3)] IH [OF kn(1)] IH [OF kn(2)] using kn by simp
  also have "\<dots> = (if j < Suc k \<or> n - Suc k \<le> j then m (a + of_nat (n - 1 - j)) else m (a + of_nat j))"
    unfolding IH [OF Suc.prems(2)] using kn by auto
  finally show ?case .
qed simp

lemma swaps_outside:
  assumes "k \<le> n div 2" "n < 2 ^ 64" "\<not> in_range x a n"
  shows "fold (swap_bytes a n) [0..<k] m x = m x"
  using assms(1) by (induction k) (simp_all add: swap_bytes_outside [OF _ assms(2,3)])

lemma lk_reversestring_cstr:
  assumes "cstr m a s"
  shows "lk_reversestring m a = Some (put a (rev s) m)"
proof -
  have l: "length s < 2 ^ 64" and b: "\<And>i. i < length s \<Longrightarrow> m (a + of_nat i) = s ! i"
    using assms by (simp_all add: cstr_def bytes_at_def)
  have "fold (swap_bytes a (length s)) [0..<length s div 2] m x = put a (rev s) m x" for x
  proof (cases "in_range x a (length s)")
    case True
    then obtain j where j: "j < length s" "x = a + of_nat j" by (rule in_range_offset)
    have "m (a + of_nat (length s - 1 - j)) = s ! (length s - 1 - j)" using j(1) by (intro b) simp
    moreover have "s ! j = s ! (length s - 1 - j)" if "\<not> (j < length s div 2 \<or> length s - length s div 2 \<le> j)"
    proof -
      have "length s - 1 - j = j" using that by linarith
      then show ?thesis by simp
    qed
    ultimately show ?thesis using j b [of j] put_at [of j "rev s" a m] l
      by (auto simp: swaps_apply rev_nth)
  qed (use l in \<open>simp add: swaps_outside put_apply\<close>)
  then show ?thesis by (auto simp: lk_reversestring_def lk_strlen_cstr [OF assms])
qed

section \<open>Number conversion is right\<close>

text \<open>The digits of a number, lowest first, and the number they stand for.\<close>

fun digits :: "nat \<Rightarrow> nat \<Rightarrow> nat list" where
  "digits b v = (if v = 0 \<or> b \<le> 1 then [] else v mod b # digits b (v div b))"

declare digits.simps [simp del]

definition digits_value :: "nat \<Rightarrow> nat list \<Rightarrow> nat" where
  "digits_value b ds = foldr (\<lambda>d v. d + b * v) ds 0"

lemma digits_value_digits: "1 < b \<Longrightarrow> digits_value b (digits b v) = v"
  by (induction b v rule: digits.induct) (subst digits.simps, simp add: digits_value_def)

lemma digits_less: "d \<in> set (digits b v) \<Longrightarrow> d < b"
proof (induction b v rule: digits.induct)
  case (1 b v)
  then show ?case by (subst (asm) (2) digits.simps) (auto split: if_splits)
qed

lemma digits_length: "1 < b \<Longrightarrow> v < b ^ n \<Longrightarrow> length (digits b v) \<le> n"
proof (induction n arbitrary: v)
  case (Suc n)
  then have "v div b < b ^ n" by (simp add: less_mult_imp_div_less mult.commute)
  then show ?case using Suc by (subst digits.simps) auto
qed (simp add: digits.simps)

definition hex_char :: "nat \<Rightarrow> byte" where
  "hex_char d = (if 10 \<le> d then of_char (CHR ''A'') + of_nat (d - 10) else of_char (CHR ''0'') + of_nat d)"

definition dec_char :: "nat \<Rightarrow> byte" where
  "dec_char d = of_char (CHR ''0'') + of_nat d"

definition hex_string :: "nat \<Rightarrow> byte list" where
  "hex_string v = (if v = 0 then [of_char (CHR ''0'')] else rev (map hex_char (digits 16 v)))"

definition dec_string :: "int \<Rightarrow> byte list" where
  "dec_string v =
     (if v = 0 then [of_char (CHR ''0'')]
      else if v < 0 then of_char (CHR ''-'') # rev (map dec_char (digits 10 (nat (- v))))
      else rev (map dec_char (digits 10 (nat v))))"

text \<open>Reading the strings back.\<close>

definition hex_value :: "byte \<Rightarrow> nat" where
  "hex_value c = (if unat c < 65 then unat c - 48 else unat c - 55)"

definition parse_hex :: "byte list \<Rightarrow> nat" where
  "parse_hex s = foldl (\<lambda>v c. 16 * v + hex_value c) 0 s"

definition parse_nat :: "byte list \<Rightarrow> nat" where
  "parse_nat s = foldl (\<lambda>v c. 10 * v + (unat c - 48)) 0 s"

definition parse_dec :: "byte list \<Rightarrow> int" where
  "parse_dec s = (case s of c # cs \<Rightarrow> if c = of_char (CHR ''-'') then - int (parse_nat cs) else int (parse_nat s) | [] \<Rightarrow> 0)"

lemma hex_char_cases: "d < 16 \<Longrightarrow> hex_value (hex_char d) = d \<and> hex_char d \<noteq> 0"
proof -
  have "list_all (\<lambda>d. hex_value (hex_char d) = d \<and> hex_char d \<noteq> 0) [0..<16]" by code_simp
  then show "d < 16 \<Longrightarrow> ?thesis" by (simp add: list_all_iff)
qed

lemma dec_char_cases: "d < 10 \<Longrightarrow> unat (dec_char d) - 48 = d \<and> dec_char d \<noteq> 0 \<and> dec_char d \<noteq> of_char (CHR ''-'')"
proof -
  have "list_all (\<lambda>d. unat (dec_char d) - 48 = d \<and> dec_char d \<noteq> 0 \<and> dec_char d \<noteq> of_char (CHR ''-'')) [0..<10]" by code_simp
  then show "d < 10 \<Longrightarrow> ?thesis" by (simp add: list_all_iff)
qed

lemma foldl_rev_digits:
  assumes "\<And>d. d \<in> set ds \<Longrightarrow> val (ch d) = d"
  shows "foldl (\<lambda>v c. b * v + val c) 0 (rev (map ch ds)) = digits_value b ds"
  using assms by (induction ds) (simp_all add: digits_value_def foldl_conv_foldr add.commute)

lemma parse_hex_string: "parse_hex (hex_string v) = v"
proof (cases "v = 0")
  case False
  have "parse_hex (rev (map hex_char (digits 16 v))) = digits_value 16 (digits 16 v)"
    unfolding parse_hex_def by (rule foldl_rev_digits) (simp add: hex_char_cases digits_less)
  then show ?thesis using False by (simp add: hex_string_def digits_value_digits)
qed (simp add: hex_string_def parse_hex_def hex_value_def)

lemma parse_nat_digits: "parse_nat (rev (map dec_char (digits 10 v))) = v"
proof -
  have "parse_nat (rev (map dec_char (digits 10 v))) = digits_value 10 (digits 10 v)"
    unfolding parse_nat_def by (rule foldl_rev_digits [where val = "\<lambda>c. unat c - 48"]) (simp add: dec_char_cases digits_less)
  then show ?thesis by (simp add: digits_value_digits)
qed

lemma dec_digits_no_minus: "of_char (CHR ''-'') \<notin> set (rev (map dec_char (digits 10 v)))"
  using dec_char_cases digits_less [of _ 10 v] by force

lemma parse_dec_string: "parse_dec (dec_string v) = v"
proof -
  have "parse_dec (rev (map dec_char (digits 10 n))) = int n" for n
    using parse_nat_digits [of n] dec_digits_no_minus [of n]
    by (cases "rev (map dec_char (digits 10 n))") (simp_all add: parse_dec_def, simp add: parse_nat_def)
  then show ?thesis by (simp add: dec_string_def parse_dec_def parse_nat_digits) (simp add: parse_nat_def)
qed

lemma hex_digits_ok: "0 \<notin> set (map hex_char (digits 16 v))"
  by (auto simp: image_iff dest!: digits_less) (metis hex_char_cases)

lemma dec_digits_ok: "0 \<notin> set (map dec_char (digits 10 v))"
  by (auto simp: image_iff dest!: digits_less) (metis dec_char_cases)

lemma hex_loop_put: "hex_loop a i v m =
    (i + length (digits 16 (unat v)), put (a + of_nat i) (map hex_char (digits 16 (unat v))) m)"
proof (induction a i v m rule: hex_loop.induct)
  case (1 a i v m)
  show ?case
  proof (cases "0 < v")
    case True
    define n where "n = unat v"
    have n: "0 < n" "n < 2 ^ 64" using True unat_qword_less [of v] by (simp_all add: n_def word_less_nat_alt)
    have v: "unat (v mod 16) = n mod 16" "unat (v div 16) = n div 16" by (simp_all add: n_def unat_mod_distrib unat_div_distrib)
    have cv: "v mod 16 = of_nat (n mod 16)" 
    proof -
      have "n mod 16 < 2 ^ 64" by (rule less_trans [OF mod_less_divisor]) simp_all
      then show ?thesis using v(1) by (simp add: word_unat_eq_iff unat_word_of_nat_small)
    qed
    have ge: "10 \<le> v mod 16 \<longleftrightarrow> 10 \<le> n mod 16" by (simp add: word_le_nat_alt v(1))
    have dg: "digits 16 n = n mod 16 # digits 16 (n div 16)" using n(1) by (subst digits.simps) simp
    have sub: "10 \<le> n mod 16 \<Longrightarrow> v mod 16 - 10 = of_nat (n mod 16 - 10)" by (simp add: cv of_nat_diff)
    have uc: "(ucast (of_nat k :: qword) :: byte) = of_nat k" if "k < 16" for k using that by (simp add: unsigned_of_nat take_bit_nat_eq_self)
    have ch: "(if 10 \<le> v mod 16 then of_char (CHR ''A'') + ucast (v mod 16 - 10) else of_char (CHR ''0'') + ucast (v mod 16)) =
      hex_char (n mod 16)"
      unfolding ge hex_char_def using sub uc [of "n mod 16 - 10"] uc [of "n mod 16"] cv
      by (cases "10 \<le> n mod 16") (simp_all add: less_imp_diff_less)
    show ?thesis using 1 [OF True refl refl] True
      unfolding ch by (subst hex_loop.simps) (simp add: Let_def ch v(2) dg ac_simps del: fun_upd_apply flip: n_def)
  next
    case False
    then have "v = 0" by (simp add: word_gt_0)
    then show ?thesis by (subst hex_loop.simps) (simp add: digits.simps)
  qed
qed

lemma dec_loop_put: "dec_loop a i v m =
    (i + length (digits 10 (nat v)), put (a + of_nat i) (map dec_char (digits 10 (nat v))) m)"
proof (induction a i v m rule: dec_loop.induct)
  case (1 a i v m)
  show ?case
  proof (cases "0 < v")
    case True
    have dg: "digits 10 (nat v) = nat v mod 10 # digits 10 (nat v div 10)" using True by (subst digits.simps) simp
    have ch: "of_char (CHR ''0'') + word_of_int (c_mod v 10) = dec_char (nat v mod 10)"
      using True by (simp add: dec_char_def nat_mod_distrib flip: of_nat_nat) 
    have cd: "c_div v 10 = v div 10" using True by simp
    show ?thesis using 1 [OF True, unfolded ch cd] True
      by (subst dec_loop.simps) (simp only: ch cd if_True, simp add: dg nat_div_distrib ac_simps del: fun_upd_apply)
  next
    case False
    then show ?thesis by (subst dec_loop.simps) (simp add: digits.simps)
  qed
qed

text \<open>Terminating a string of digits and reversing it.\<close>

lemma reverse_digits:
  assumes "0 \<notin> set s" "length s < 2 ^ 31"
  shows "lk_reversestring ((put a s m)(a + of_nat (length s) := 0)) a = Some (put a (rev s @ [0]) m)"
proof -
  have "lk_reversestring (put a (s @ [0]) m) a = Some (put a (rev s) (put a (s @ [0]) m))"
    by (rule lk_reversestring_cstr [OF cstr_put_self [OF assms]])
  also have "put a (rev s) (put a (s @ [0]) m) = put a (rev s @ [0]) m"
  proof (rule ext)
    fix x
    show "put a (rev s) (put a (s @ [0]) m) x = put a (rev s @ [0]) m x"
      using assms(2) in_range_mono [of x a "length s" "Suc (length s)"]
      by (simp add: put_apply nth_append in_range_def)
  qed
  finally show ?thesis unfolding put_snoc .
qed

lemma lk_hextostring_put:
  "lk_hextostring v a m = Some (length (hex_string (unat v)), put a (hex_string (unat v) @ [0]) m)"
proof (cases "v = 0")
  case False
  define ds where "ds = digits 16 (unat v)"
  have "unat v < 16 ^ 16" using unat_qword_less [of v] by simp
  then have l: "length (map hex_char ds) < 2 ^ 31" using digits_length [of 16 "unat v" 16] by (simp add: ds_def)
  have u: "unat v \<noteq> 0" using False by (simp add: unat_eq_0)
  have "hex_loop a 0 v m = (length (map hex_char ds), put a (map hex_char ds) m)" by (subst hex_loop_put) (simp add: ds_def)
  then show ?thesis
    using False u reverse_digits [OF hex_digits_ok [of "unat v", folded ds_def] l, of a m]
    by (simp add: lk_hextostring_def hex_string_def flip: ds_def)
qed (simp add: lk_hextostring_def hex_string_def)

lemma neg_long_eq: "- (2 ^ 63) < v \<Longrightarrow> v < 0 \<Longrightarrow> neg_long v = - v"
  unfolding neg_long_def sint_uint uint_word_of_int
  by (simp add: signed_take_bit_int_eq_self take_bit_int_eq_self)

lemma lk_decimaltostring_put:
  assumes "- (2 ^ 63) < v" "v < 2 ^ 63"
  shows "lk_decimaltostring v a m = Some (length (dec_string v), put a (dec_string v @ [0]) m)"
proof (cases "v = 0")
  case False
  define ds where "ds = digits 10 (nat \<bar>v\<bar>)"
  have "\<bar>v\<bar> < 10 ^ 19" using assms by simp
  then have "nat \<bar>v\<bar> < 10 ^ 19" by simp
  then have l: "length (map dec_char ds) < 2 ^ 31" using digits_length [of 10 "nat \<bar>v\<bar>" 19] by (simp add: ds_def)
  have ok: "0 \<notin> set (map dec_char ds)" using dec_digits_ok by (simp add: ds_def)
  have ne: "ds \<noteq> []" using False unfolding ds_def by (subst digits.simps) simp
  show ?thesis
  proof (cases "v < 0")
    case True
    have dl: "dec_loop a (Suc 0) (neg_long v) M = (Suc (length (map dec_char ds)), put (a + 1) (map dec_char ds) M)" for M
      by (subst dec_loop_put) (use True neg_long_eq [OF assms(1) True] in \<open>simp add: ds_def\<close>)
    let ?M = "put (a + 1) (map dec_char ds) (m(a := of_char (CHR ''-'')))"
    have "?M = put a (of_char (CHR ''-'') # map dec_char ds) m" by simp
    then have "?M a = of_char (CHR ''-'')" using put_at [of 0 "of_char (CHR ''-'') # map dec_char ds" a m] l by simp
    moreover have "a + 1 + of_nat (length (map dec_char ds)) \<noteq> a"
    proof
      assume "a + 1 + of_nat (length (map dec_char ds)) = a"
      then have "of_nat (Suc (length (map dec_char ds))) = (0 :: qword)" by (simp add: add.assoc)
      then show False using l by (subst (asm) of_nat_eq_0_word) simp_all
    qed
    ultimately show ?thesis
      using False True reverse_digits [OF ok l, of "a + 1" "m(a := of_char (CHR ''-''))"]
      by (simp add: lk_decimaltostring_def dl dec_string_def add.assoc Let_def) (simp add: ds_def add.assoc)
  next
    case nn: False
    have dl: "dec_loop a 0 v m = (length (map dec_char ds), put a (map dec_char ds) m)"
      by (subst dec_loop_put) (use nn in \<open>simp add: ds_def\<close>)
    have "((put a (map dec_char ds) m)(a + of_nat (length (map dec_char ds)) := 0)) a \<noteq> of_char (CHR ''-'')"
      unfolding put_snoc using put_at [of 0 "map dec_char ds @ [0]" a m] l ne dec_digits_no_minus [of "nat \<bar>v\<bar>"]
      by (cases ds) (auto simp: ds_def [symmetric])
    then show ?thesis
      using False nn reverse_digits [OF ok l, of a m]
      by (simp add: lk_decimaltostring_def dl dec_string_def Let_def) (simp add: ds_def)
  qed
qed (simp add: lk_decimaltostring_def dec_string_def)

section \<open>Formatting is right\<close>

text \<open>
  What a format stands for, on lists. \<open>str\<close> gives the strings behind the pointers. A directive the code
  does not know prints its character, so \<^verbatim>\<open>%%\<close> prints a per cent sign, \<^verbatim>\<open>%u\<close> prints \<^verbatim>\<open>u\<close> and \<^verbatim>\<open>%5d\<close>
  prints \<^verbatim>\<open>5d\<close>; a per cent sign at the end prints the terminator. Formats with \<^verbatim>\<open>%f\<close> are left to the code.
\<close>

definition convert :: "(qword \<Rightarrow> byte list option) \<Rightarrow> byte \<Rightarrow> qword \<Rightarrow> byte list option" where
  "convert str c v =
     (if c = of_char (CHR ''s'') then str v
      else if c = of_char (CHR ''c'') then Some [ucast v]
      else if c = of_char (CHR ''d'') \<or> c = of_char (CHR ''i'') then Some (dec_string (sint (ucast v :: dword)))
      else if c = of_char (CHR ''x'') \<or> c = of_char (CHR ''X'') then Some (hex_string (unat (ucast v :: dword)))
      else Some (hex_string (unat v)))"

definition takes_arg :: "byte \<Rightarrow> bool" where
  "takes_arg c \<longleftrightarrow> c \<in> set (map of_char ''scdixXqQp'')"

fun fmt :: "(qword \<Rightarrow> byte list option) \<Rightarrow> byte list \<Rightarrow> qword list \<Rightarrow> byte list option" where
  "fmt str [] args = Some []"
| "fmt str (c # cs) args =
     (if c \<noteq> of_char (CHR ''%'') then map_option ((#) c) (fmt str cs args)
      else case cs of
        [] \<Rightarrow> Some [0]
      | d # ds \<Rightarrow>
          if takes_arg d
          then (case args of
                  [] \<Rightarrow> None
                | v # vs \<Rightarrow> do { out \<leftarrow> convert str d v; rest \<leftarrow> fmt str ds vs; Some (out @ rest) })
          else if d = of_char (CHR ''f'') then None
          else map_option ((#) d) (fmt str ds args))"

text \<open>A buffer that holds the text so far, and perhaps one byte of a terminator after it.\<close>

definition holds :: "qword \<Rightarrow> memory \<Rightarrow> byte list \<Rightarrow> memory \<Rightarrow> bool" where
  "holds a m out M \<longleftrightarrow> (\<exists>t. length t \<le> 1 \<and> M = put a (out @ t) m)"

lemma holds_nil: "holds a m [] m"
  unfolding holds_def by (rule exI [of _ "[]"]) simp

lemma holds_put:
  assumes "holds a m out M" "length out + length s < 2 ^ 63" "length t \<le> 1"
  shows "holds a m (out @ s) (put (a + of_nat (length out)) (s @ t) M)"
proof (cases "s = [] \<and> t = []")
  case False
  obtain u where u: "length u \<le> 1" "M = put a (out @ u) m" using assms(1) by (auto simp: holds_def)
  have le: "length u \<le> length (s @ t)" using u(1) False by (cases s; cases t) auto
  have "put (a + of_nat (length out)) (s @ t) M = put (a + of_nat (length out)) (s @ t) (put (a + of_nat (length out)) u (put a out m))"
    by (simp add: u(2) put_append)
  also have "\<dots> = put (a + of_nat (length out)) (s @ t) (put a out m)"
    by (rule put_over [OF le]) (use assms(2,3) in simp)
  also have "\<dots> = put a (out @ s @ t) m" by (simp add: put_append)
  finally show ?thesis unfolding holds_def using assms(3) by (intro exI [of _ t]) simp
qed (use assms(1) in simp)

lemma holds_end:
  assumes "holds a m out M" "length out < 2 ^ 63"
  shows "M(a + of_nat (length out) := 0) = put a (out @ [0]) m"
proof -
  obtain u where u: "length u \<le> 1" "M = put a (out @ u) m" using assms(1) by (auto simp: holds_def)
  have "put a (out @ [0]) M = put a (out @ [0]) m" unfolding u(2) by (rule put_over) (use u(1) assms(2) in simp_all)
  moreover have "put a out M = M"
    by (rule put_same) (use assms(2) u in \<open>auto simp: bytes_at_def put_at nth_append\<close>)
  ultimately show ?thesis by (simp add: put_append)
qed

text \<open>Nothing but the buffer changes.\<close>

lemma holds_other:
  assumes "holds a m out M" "in_range x b k" "apart b k a n" "length out < n" "n < 2 ^ 63"
  shows "M x = m x"
proof -
  obtain u where u: "length u \<le> 1" "M = put a (out @ u) m" using assms(1) by (auto simp: holds_def)
  have "apart b k a (length (out @ u))" using assms(3) by (rule apart_mono) (use u(1) assms(4) in simp_all)
  then show ?thesis unfolding u(2) by (intro put_apart) (use assms(2,4,5) u(1) in auto)
qed

lemma holds_cstr:
  assumes "holds a m out M" "cstr m b s" "apart b (Suc (length s)) a n" "length out < n" "n < 2 ^ 63"
  shows "cstr M b s"
proof -
  obtain u where u: "length u \<le> 1" "M = put a (out @ u) m" using assms(1) by (auto simp: holds_def)
  have "apart b (Suc (length s)) a (length (out @ u))" using assms(3) by (rule apart_mono) (use u(1) assms(4) in simp_all)
  then show ?thesis unfolding u(2) by (intro cstr_put) (use assms(2,4,5) u(1) in auto)
qed

lemma lk_memcpy_put:
  assumes "cstr m b s" "apart b (Suc (length s)) a (length s)"
  shows "snd (lk_memcpy m a b (int (length s))) = put a s m"
proof (rule ext)
  fix x
  have l: "length s < 2 ^ 31" using assms(1) by (simp add: cstr_def)
  have ap: "apart b (nat (int (length s))) a (nat (int (length s)))" using assms(2) by (rule apart_mono) simp_all
  have "snd (lk_memcpy m a b (int (length s))) x = (if in_range x a (length s) then m (b + (x - a)) else m x)"
    using lk_memcpy_apply(2) [OF _ _ ap, of m x] l by simp
  moreover have "m (b + (x - a)) = s ! unat (x - a)" if r: "in_range x a (length s)"
  proof -
    obtain i where i: "i < length s" "x = a + of_nat i" using r by (rule in_range_offset)
    then have "unat (x - a) = i" using l by (simp add: unat_word_of_nat_small)
    then show ?thesis using assms(1) i by (simp add: cstr_def bytes_at_def)
  qed
  ultimately show "snd (lk_memcpy m a b (int (length s))) x = put a s m x" using l by (simp add: put_apply)
qed

lemma apart_gap:
  assumes "k \<le> unat (b - a)" "n \<le> unat (a - b)"
  shows "apart a k b n"
  unfolding apart_def
proof (intro allI impI notI)
  fix x assume "in_range x a k" "in_range x b n"
  then have l: "unat (x - a) < k" "unat (x - b) < n" by (simp_all add: in_range_def)
  show False
  proof (cases "x - b \<le> x - a")
    case True
    then have "unat ((x - a) - (x - b)) = unat (x - a) - unat (x - b)" by (rule unat_sub)
    then show False using l(1) assms(1) by simp
  next
    case False
    then have "unat ((x - b) - (x - a)) = unat (x - b) - unat (x - a)" by (intro unat_sub) simp
    then show False using l(2) assms(2) by simp
  qed
qed

lemma apart_shift:
  assumes "apart b k a n" "j + l \<le> n" "n < 2 ^ 64"
  shows "apart b k (a + of_nat j) l"
proof -
  have "in_range x a n" if "in_range x (a + of_nat j) l" for x
    using that in_range_split [of j l x a] in_range_mono [of x a "j + l" n] assms(2,3) by simp
  then show ?thesis using assms(1) by (auto simp: apart_def)
qed

lemma lk_itoa_dec: "lk_itoa (int_of_qword v) a 10 m =
    Some (length (dec_string (sint (ucast v :: dword))), put a (dec_string (sint (ucast v :: dword)) @ [0]) m)"
proof -
  have "- (2 ^ 31) \<le> sint (ucast v :: dword)" "sint (ucast v :: dword) < 2 ^ 31"
    using sint_greater_eq [of "ucast v :: dword"] sint_less [of "ucast v :: dword"] by simp_all
  then show ?thesis using lk_decimaltostring_put [of "sint (ucast v :: dword)" a m]
    by (simp add: lk_itoa_def int_of_qword_def)
qed

lemma lk_itoa_hex: "lk_itoa (uint (ucast v :: dword)) a 16 m =
    Some (length (hex_string (unat (ucast v :: dword))), put a (hex_string (unat (ucast v :: dword)) @ [0]) m)"
proof -
  define w :: dword where "w = ucast v"
  have l: "uint w < 2 ^ 64" using uint_lt2p [of w] by simp
  have "uint (word_of_int (uint w) :: qword) = uint w"
    unfolding uint_word_of_int using l by (intro mod_pos_pos_trivial) simp_all
  then have "unat (word_of_int (uint w) :: qword) = unat w" by (simp only: unat_eq_nat_uint)
  then show ?thesis unfolding lk_itoa_def lk_hextostring_put w_def [symmetric] by (simp only: simp_thms if_True)
qed

lemma lk_itoa_qword: "lk_itoa (sint v) a 16 m = Some (length (hex_string (unat v)), put a (hex_string (unat v) @ [0]) m)"
  for v :: qword
  by (simp add: lk_itoa_def lk_hextostring_put)

lemma directive_convert:
  assumes "holds buffer m out M" "takes_arg c" "convert str c v = Some s"
    and strs: "\<forall>w t. str w = Some t \<longrightarrow> cstr m w t \<and> apart w (Suc (length t)) buffer n"
    and n: "length out + length s < n" "n < 2 ^ 31"
  obtains M' where "directive fo buffer c M (v # vs, ds) (length out) = Some (M', (vs, ds), length out + length s)"
    "holds buffer m (out @ s) M'"
proof -
  let ?b = "buffer + of_nat (length out)"
  have h: "holds buffer m (out @ s) (put ?b (s @ t) M)" if "length t \<le> 1" for t
    by (rule holds_put [OF assms(1) _ that]) (use n in simp)
  consider "c = of_char (CHR ''s'')" | "c = of_char (CHR ''c'')" | "c = of_char (CHR ''d'') \<or> c = of_char (CHR ''i'')"
    | "c = of_char (CHR ''x'') \<or> c = of_char (CHR ''X'')" | "c = of_char (CHR ''q'') \<or> c = of_char (CHR ''Q'') \<or> c = of_char (CHR ''p'')"
    using assms(2) unfolding takes_arg_def by auto
  then show ?thesis
  proof cases
    case 1
    then have "str v = Some s" using assms(3) by (simp add: convert_def)
    then have v: "cstr m v s" "apart v (Suc (length s)) buffer n" using strs by blast+
    have c: "cstr M v s" by (rule holds_cstr [OF assms(1) v]) (use n in simp_all)
    have "apart v (Suc (length s)) ?b (length s)" by (rule apart_shift [OF v(2)]) (use n in simp_all)
    then have "snd (lk_memcpy M ?b v (int (length s))) = put ?b s M" by (rule lk_memcpy_put [OF c])
    then show ?thesis using 1 that h [of "[]"] by (simp add: directive_def lk_strlen_cstr [OF c])
  next
    case 2
    then have "s = [ucast v]" using assms(3) by (simp add: convert_def)
    then show ?thesis using 2 that h [of "[]"] by (simp add: directive_def)
  next
    case 3
    then have s: "s = dec_string (sint (ucast v :: dword))" using assms(3) by (auto simp: convert_def)
    show ?thesis using 3 that h [of "[0]"] by (auto simp: directive_def lk_itoa_dec s)
  next
    case 4
    then have s: "s = hex_string (unat (ucast v :: dword))" using assms(3) by (auto simp: convert_def)
    show ?thesis using 4 that h [of "[0]"] by (auto simp: directive_def lk_itoa_hex s)
  next
    case 5
    then have s: "s = hex_string (unat v)" using assms(3) by (auto simp: convert_def)
    show ?thesis using 5 that h [of "[0]"] by (auto simp: directive_def lk_itoa_qword s)
  qed
qed

lemma directive_other:
  assumes "holds buffer m out M" "\<not> takes_arg c" "c \<noteq> of_char (CHR ''f'')" "Suc (length out) < 2 ^ 31"
  shows "directive fo buffer c M ap (length out) = Some (M(buffer + of_nat (length out) := c), ap, Suc (length out))"
    and "holds buffer m (out @ [c]) (M(buffer + of_nat (length out) := c))"
proof -
  show "directive fo buffer c M ap (length out) = Some (M(buffer + of_nat (length out) := c), ap, Suc (length out))"
    using assms(2,3) unfolding takes_arg_def directive_def by (auto simp: Let_def)
  show "holds buffer m (out @ [c]) (M(buffer + of_nat (length out) := c))"
    using holds_put [OF assms(1), of "[c]" "[]"] assms(4) by simp
qed

lemma format_loop_fmt:
  assumes f: "cstr m parameter f" "apart parameter (Suc (length f)) buffer n"
    and strs: "\<forall>w t. str w = Some t \<longrightarrow> cstr m w t \<and> apart w (Suc (length t)) buffer n"
    and n: "n < 2 ^ 31"
  shows "holds buffer m out M \<Longrightarrow> fmt str fs args = Some res \<Longrightarrow> f = pre @ fs \<Longrightarrow> length out + length res < n \<Longrightarrow>
    \<exists>M'. format_loop fo buffer parameter (length f) (length pre) M (args, ds) (length out) = Some (length out + length res, M') \<and>
      holds buffer m (out @ res) M'"
proof (induction "length fs" arbitrary: fs pre args out res M rule: less_induct)
  case less
  note h = less.prems(1) and fm = less.prems(2) and fe = less.prems(3) and le = less.prems(4)
  have len: "length f < 2 ^ 31" using f(1) by (simp add: cstr_def)
  have M: "cstr M parameter f" by (rule holds_cstr [OF h f]) (use le n in simp_all)
  show ?case
  proof (cases fs)
    case Nil
    then show ?thesis using fm fe h by (subst format_loop.simps) auto
  next
    case (Cons c cs)
    have i: "length pre < length f" using fe Cons by simp
    have c: "M (parameter + of_nat (length pre)) = c" using M fe Cons i by (simp add: cstr_def bytes_at_def)
    show ?thesis
    proof (cases "c = of_char (CHR ''%'')")
      case False
      then obtain r where r: "fmt str cs args = Some r" "res = c # r" using fm Cons by auto
      have h': "holds buffer m (out @ [c]) (M(buffer + of_nat (length out) := c))"
        using holds_put [OF h, of "[c]" "[]"] le r(2) n by simp
      show ?thesis using less.hyps [of cs, OF _ h' r(1), of "pre @ [c]"] Cons fe le r(2) i c False
        by (subst format_loop.simps) simp
    next
      case pct: True
      show ?thesis
      proof (cases cs)
        case Nil
        then have res: "res = [0]" using fm Cons pct by simp
        have "M (parameter + of_nat (Suc (length pre))) = 0" using M fe Cons Nil by (simp add: cstr_def)
        moreover have "directive fo buffer 0 M (args, ds) (length out) = Some (M(buffer + of_nat (length out) := 0), (args, ds), Suc (length out))"
          and h': "holds buffer m (out @ [0]) (M(buffer + of_nat (length out) := 0))"
          using directive_other [OF h, of 0] le n res by (simp_all add: takes_arg_def)
        ultimately show ?thesis using i c pct res fe Cons Nil h'
          by (subst format_loop.simps) (simp del: of_nat_Suc add: format_loop.simps)
      next
        case c2: (Cons d es)
        have j: "Suc (length pre) < length f" using fe Cons c2 by simp
        have d: "M (parameter + of_nat (Suc (length pre))) = d"
          using M j fe Cons c2 by (simp add: cstr_def bytes_at_def nth_append del: of_nat_Suc)
        have step: "format_loop fo buffer parameter (length f) (length pre) M (args, ds) (length out) =
            do { (M, ap, bi) \<leftarrow> directive fo buffer d M (args, ds) (length out);
                 format_loop fo buffer parameter (length f) (length (pre @ [c, d])) M ap bi }"
          using i c d pct by (subst format_loop.simps) (simp del: of_nat_Suc)
        show ?thesis
        proof (cases "takes_arg d")
          case True
          then obtain v vs s r where r: "args = v # vs" "convert str d v = Some s" "fmt str es vs = Some r" "res = s @ r"
            using fm Cons c2 pct by (auto split: list.splits simp: bind_eq_Some_conv)
          obtain M' where M': "directive fo buffer d M (v # vs, ds) (length out) = Some (M', (vs, ds), length out + length s)"
            "holds buffer m (out @ s) M'"
            by (rule directive_convert [OF h True r(2) strs _ n, where fo = fo and vs = vs and ds = ds]) (use le r(4) in simp)
          show ?thesis using less.hyps [of es, OF _ M'(2) r(3), of "pre @ [c, d]"] Cons c2 fe le r
            unfolding step by (simp add: M'(1) add.assoc)
        next
          case False
          then obtain r where r: "d \<noteq> of_char (CHR ''f'')" "fmt str es args = Some r" "res = d # r"
            using fm Cons c2 pct by (auto split: if_splits)
          have l2: "Suc (length out) < 2 ^ 31" using le r(3) n by simp
          note D = directive_other [OF h False r(1) l2]
          show ?thesis using less.hyps [of es, OF _ D(2) r(2), of "pre @ [c, d]"] Cons c2 fe le r(3)
            unfolding step by (simp add: D(1))
        qed
      qed
    qed
  qed
qed

text \<open>C28. Formatting. When the text a format stands for (read on lists, without \<^verbatim>\<open>%f\<close>) fits an \<^verbatim>\<open>int\<close> and
  the buffer overlaps neither the format nor the strings it prints, \<^verbatim>\<open>lk_vsprintf\<close> returns the length
  of the text and writes the text and its terminator to the buffer and nothing else to memory.\<close>

theorem lk_vsprintf_formats:
  assumes "cstr m parameter f" "fmt str f args = Some out" "length out < 2 ^ 31 - 1"
    and "apart parameter (Suc (length f)) buffer (Suc (length out))"
    and "\<forall>w t. str w = Some t \<longrightarrow> cstr m w t \<and> apart w (Suc (length t)) buffer (Suc (length out))"
  shows "lk_vsprintf fo buffer parameter (args, ds) m = Some (length out, put buffer (out @ [0]) m)"
proof -
  obtain M where M: "format_loop fo buffer parameter (length f) 0 m (args, ds) 0 = Some (length out, M)" "holds buffer m out M"
    using format_loop_fmt [OF assms(1,4,5) _ holds_nil assms(2), of "[]" fo ds] assms(3) by auto
  show ?thesis using M(1) holds_end [OF M(2)] assms(3) by (simp add: lk_vsprintf_def lk_strlen_cstr [OF assms(1)])
qed

text \<open>C29. Numbers. For every \<^verbatim>\<open>long\<close> but the smallest \<^verbatim>\<open>lk_decimaltostring\<close> writes a terminated decimal text that
  reads back as the number, and \<^verbatim>\<open>lk_hextostring\<close> does so in hexadecimal for every \<^verbatim>\<open>QWORD\<close>; both return
  its length. The smallest \<^verbatim>\<open>long\<close> is its own negation: it prints as a lone minus sign.\<close>

theorem number_strings_read_back:
  assumes "- (2 ^ 63) \<le> v" "v < 2 ^ 63"
  shows "(\<exists>s. lk_decimaltostring v a m = Some (length s, put a (s @ [0]) m) \<and>
      (if v = - (2 ^ 63) then s = [of_char (CHR ''-'')] else parse_dec s = v)) \<and>
    (\<exists>h. lk_hextostring w a m = Some (length h, put a (h @ [0]) m) \<and> parse_hex h = unat w)"
proof (cases "v = - (2 ^ 63)")
  case True
  have n: "neg_long (- 9223372036854775808) = - 9223372036854775808"
    unfolding neg_long_def by (simp add: sint_uint)
  have "lk_decimaltostring v a m = Some (1, put a ([of_char (CHR ''-'')] @ [0]) m)"
    using reverse_digits [of "[]" "a + 1" "m(a := of_char (CHR ''-''))"] True
    by (simp add: lk_decimaltostring_def n dec_loop.simps Let_def)
  then have "\<exists>s. lk_decimaltostring v a m = Some (length s, put a (s @ [0]) m) \<and> s = [of_char (CHR ''-'')]" by simp
  then show ?thesis using True parse_hex_string lk_hextostring_put by auto
next
  case False
  then show ?thesis using lk_decimaltostring_put [of v a m] assms parse_dec_string [of v] parse_hex_string lk_hextostring_put
    by auto
qed

theorem number_strings_read_back_witness:
  "(\<exists>s. lk_decimaltostring (- 1203) 16 (\<lambda>_. 0) = Some (length s, put 16 (s @ [0]) (\<lambda>_. 0)) \<and> parse_dec s = - 1203) \<and>
    (\<exists>h. lk_hextostring 0xBEEF 16 (\<lambda>_. 0) = Some (length h, put 16 (h @ [0]) (\<lambda>_. 0)) \<and> parse_hex h = 48879)"
  using number_strings_read_back [of "- 1203" 16 "\<lambda>_. 0" "0xBEEF"] by simp

section \<open>Comparison is right\<close>

lemma first_some_None: "first_some f xs = None \<longleftrightarrow> (\<forall>x\<in>set xs. f x = None)"
  by (induction xs) (auto split: option.splits)

lemma first_some_Some: "first_some f xs = Some y \<Longrightarrow> \<exists>x\<in>set xs. f x = Some y"
  by (induction xs) (auto split: option.splits)

lemma load_qword_eq: "load_qword m a = load_qword m b \<longleftrightarrow> (\<forall>j<8. m (a + of_nat j) = m (b + of_nat j))"
proof
  assume e: "load_qword m a = load_qword m b"
  show "\<forall>j<8. m (a + of_nat j) = m (b + of_nat j)"
    using load_qword_byte [of _ m a] load_qword_byte [of _ m b] e by metis
next
  assume e: "\<forall>j<8. m (a + of_nat j) = m (b + of_nat j)"
  have "bit (load_qword m a) i = bit (load_qword m b) i" for i
    using e by (auto simp: load_qword_def bit_load64)
  then show "load_qword m a = load_qword m b" by (simp add: bit_eq_iff)
qed

lemma diff_byte_nonzero:
  assumes "v \<noteq> 0"
  shows "\<exists>j<8. diff_byte v j \<noteq> 0"
proof -
  obtain i where i: "bit v i" using assms by (auto simp: bit_eq_iff)
  then have l: "i < 64" using bit_imp_le_length [of v i] by simp
  have ff: "(0xFF :: qword) = mask 8" by (simp add: mask_eq_exp_minus_1)
  have "i div 8 * 8 + i mod 8 = i" by simp
  then have "bit (diff_byte v (i div 8)) (i mod 8)"
    using i l unfolding diff_byte_def ff by (simp add: bit_simps)
  then show ?thesis using l by (intro exI [of _ "i div 8"]) auto
qed

lemma compare_word_None:
  "compare_word m a b i = None \<longleftrightarrow> (\<forall>j<8. m (a + of_nat (8 * i + j)) = m (b + of_nat (8 * i + j)))"
proof -
  let ?x = "load_qword m (a + of_nat (8 * i))" and ?y = "load_qword m (b + of_nat (8 * i))"
  have "compare_word m a b i = None \<longleftrightarrow> ?x = ?y"
    using diff_byte_nonzero [of "?x - ?y"] by (auto simp: compare_word_def Let_def find_None_iff)
  then show ?thesis unfolding load_qword_eq by (simp add: add.assoc)
qed

lemma compare_word_pos: "compare_word m a b i = Some r \<Longrightarrow> 0 < r"
  by (auto simp: compare_word_def Let_def find_Some_iff uint_0_iff less_le split: if_splits)

lemma compare_byte_None: "compare_byte m a b i = None \<longleftrightarrow> m (a + of_nat i) = m (b + of_nat i)"
  by (simp add: compare_byte_def Let_def)

lemma compare_byte_nonzero: "compare_byte m a b i = Some r \<Longrightarrow> r \<noteq> 0"
  by (auto simp: compare_byte_def Let_def signed_eq_0_iff split: if_splits)

lemma all_words_iff: "(\<forall>i<n. \<forall>j<8. P (8 * i + j)) \<longleftrightarrow> (\<forall>k<8 * n. P (k :: nat))"
proof (intro iffI allI impI)
  fix k assume a: "\<forall>i<n. \<forall>j<8. P (8 * i + j)" and k: "k < 8 * n"
  then have "k div 8 < n" "k mod 8 < 8" by (simp_all add: less_mult_imp_div_less mult.commute)
  then have "P (8 * (k div 8) + k mod 8)" using a by blast
  then show "P k" by simp
qed auto

text \<open>C30. Comparison. \<^verbatim>\<open>lk_memcmp\<close> returns zero exactly when the two areas agree. It is no ordering: when the
  areas differ in a whole word the result is positive whichever is the larger, so a negative result
  only comes from the last bytes, after all whole words agree.\<close>

theorem lk_memcmp_zero_iff:
  assumes "0 \<le> sz"
  shows "(lk_memcmp m a b sz = 0 \<longleftrightarrow> (\<forall>i<nat sz. m (a + of_nat i) = m (b + of_nat i))) \<and>
    (lk_memcmp m a b sz < 0 \<longrightarrow> (\<forall>i<8 * nat (sz div 8). m (a + of_nat i) = m (b + of_nat i)))"
proof -
  define n r where "n = nat (sz div 8)" and "r = nat (sz mod 8)"
  have nr: "nat sz = 8 * n + r" using assms by (simp add: n_def r_def nat_div_distrib nat_mod_distrib)
  let ?eq = "\<lambda>i. m (a + of_nat i) = m (b + of_nat i)"
  have w: "first_some (compare_word m a b) [0..<n] = None \<longleftrightarrow> (\<forall>i<8 * n. ?eq i)"
    unfolding first_some_None using all_words_iff [of n ?eq] by (simp add: compare_word_None Ball_def del: of_nat_add of_nat_mult)
  have y: "first_some (compare_byte m a b) [8 * n..<8 * n + r] = None \<longleftrightarrow> (\<forall>i. 8 * n \<le> i \<and> i < 8 * n + r \<longrightarrow> ?eq i)"
    unfolding first_some_None by (auto simp: compare_byte_None)
  have all: "(\<forall>i<nat sz. ?eq i) \<longleftrightarrow> (\<forall>i<8 * n. ?eq i) \<and> (\<forall>i. 8 * n \<le> i \<and> i < 8 * n + r \<longrightarrow> ?eq i)"
    unfolding nr by (auto simp: not_less [symmetric])
  have cd: "nat (c_div sz 8) = n" "nat (c_mod sz 8) = r" using assms by (simp_all add: n_def r_def)
  have e: "lk_memcmp m a b sz = (case first_some (compare_word m a b) [0..<n] of Some r \<Rightarrow> r
      | None \<Rightarrow> (case first_some (compare_byte m a b) [8 * n..<8 * n + r] of Some r \<Rightarrow> r | None \<Rightarrow> 0))"
    unfolding lk_memcmp_def Let_def cd by (rule refl)
  have "(lk_memcmp m a b sz = 0 \<longleftrightarrow> (\<forall>i<nat sz. ?eq i)) \<and> (lk_memcmp m a b sz < 0 \<longrightarrow> (\<forall>i<8 * n. ?eq i))"
  proof (cases "first_some (compare_word m a b) [0..<n]")
    case None
    show ?thesis
    proof (cases "first_some (compare_byte m a b) [8 * n..<8 * n + r]")
      case (Some x)
      then obtain i where "compare_byte m a b i = Some x" using first_some_Some [OF Some] by auto
      then have "x \<noteq> 0" by (rule compare_byte_nonzero)
      moreover have "\<not> (\<forall>i<nat sz. ?eq i)" using y Some unfolding all by simp
      ultimately show ?thesis using None Some w e by simp
    qed (use None w y e all in simp)
  next
    case (Some x)
    then obtain i where "compare_word m a b i = Some x" using first_some_Some [OF Some] by auto
    then have "0 < x" by (rule compare_word_pos)
    moreover have "\<not> (\<forall>i<nat sz. ?eq i)" using w Some unfolding all by simp
    ultimately show ?thesis using Some e by simp
  qed
  then show ?thesis unfolding n_def .
qed

theorem lk_memcmp_zero_iff_witness:
  "lk_memcmp (put 32 (replicate 8 7) (put 0 (replicate 8 9) (\<lambda>_. 0))) 0 32 8 \<noteq> 0"
proof -
  have "put 32 (replicate 8 7) (put 0 (replicate 8 9) (\<lambda>_. 0)) 0 = 9" "put 32 (replicate 8 7) (put 0 (replicate 8 9) (\<lambda>_. 0)) 32 = 7"
    by (simp_all add: put_apply in_range_def)
  then show ?thesis using lk_memcmp_zero_iff [of 8 "put 32 (replicate 8 7) (put 0 (replicate 8 9) (\<lambda>_. 0))" 0 32]
    by (auto dest!: spec [of _ 0])
qed

theorem lk_vsprintf_formats_witness:
  "lk_vsprintf \<lparr>d_round = id, d_times = (*), d_div_10 = (\<lambda>d. d div 10), d_trunc = of_nat\<rparr> 0x100 0x200 ([- 5, 0x300], [])
      (put 0x200 (map of_char ''%d %s.'' @ [0]) (put 0x300 (map of_char ''ok'' @ [0]) (\<lambda>_. 0))) =
    Some (6, put 0x100 (map of_char ''-5 ok.'' @ [0])
      (put 0x200 (map of_char ''%d %s.'' @ [0]) (put 0x300 (map of_char ''ok'' @ [0]) (\<lambda>_. 0))))"
proof -
  let ?f = "map of_char ''%d %s.'' :: byte list" and ?s = "map of_char ''ok'' :: byte list" and ?out = "map of_char ''-5 ok.'' :: byte list"
  let ?str = "\<lambda>v. if v = (0x300 :: qword) then Some ?s else None"
  define m where "m = put 0x200 (?f @ [0]) (put 0x300 (?s @ [0]) (\<lambda>_. 0))"
  have f: "fmt ?str ?f [- 5, 0x300] = Some ?out" by code_simp
  have c: "cstr m 0x200 ?f" unfolding m_def by (rule cstr_put_self) simp_all
  have d: "cstr m 0x300 ?s" unfolding m_def by (intro cstr_put cstr_put_self apart_gap) simp_all
  have "lk_vsprintf \<lparr>d_round = id, d_times = (*), d_div_10 = (\<lambda>d. d div 10), d_trunc = of_nat\<rparr> 0x100 0x200 ([- 5, 0x300], []) m =
      Some (length ?out, put 0x100 (?out @ [0]) m)"
  proof (rule lk_vsprintf_formats [OF c f])
    show "\<forall>w t. ?str w = Some t \<longrightarrow> cstr m w t \<and> apart w (Suc (length t)) 0x100 (Suc (length ?out))"
      using d by (auto split: if_splits intro!: apart_gap)
  qed (simp_all add: apart_gap)
  then show ?thesis by (simp only: m_def) simp
qed

end
