(* ===== verification/Dequeue.thy ===== *)
theory Dequeue
  imports Strings Spinlock
begin

text \<open>
  The ring-buffer queue of \<^verbatim>\<open>kernel/dequeue.h\<close>, over the byte memory that holds its elements, and the
  contract of a bounded queue that it implements. \<^const>\<open>None\<close> is a lock nobody releases or the division
  by a buffer length of zero. The pointer arguments are \<^const>\<open>None\<close> or address zero when NULL.
\<close>

section \<open>Rings\<close>

text \<open>The \<open>k\<close> entries of a ring of \<open>n\<close> slots from slot \<open>r\<close> on.\<close>

definition ring_list :: "nat \<Rightarrow> (nat \<Rightarrow> 'a) \<Rightarrow> nat \<Rightarrow> nat \<Rightarrow> 'a list" where
  "ring_list n f r k = map (\<lambda>j. f ((r + j) mod n)) [0..<k]"

lemma ring_list_length [simp]: "length (ring_list n f r k) = k"
  by (simp add: ring_list_def)

lemma ring_slots_differ:
  assumes "j < k" "k < n"
  shows "(r + j) mod n \<noteq> (r + k) mod (n :: nat)"
proof
  assume "(r + j) mod n = (r + k) mod n"
  then have "n dvd (r + k) - (r + j)" using assms mod_eq_dvd_iff_nat [of "r + j" "r + k" n] by simp
  then show False using assms by (auto dest: dvd_imp_le)
qed

lemma ring_list_cong: "(\<And>j. j < k \<Longrightarrow> g ((r + j) mod n) = f ((r + j) mod n)) \<Longrightarrow> ring_list n g r k = ring_list n f r k"
  by (simp add: ring_list_def)

lemma ring_list_push:
  assumes "k < n" "g ((r + k) mod n) = x" "\<And>i. i < n \<Longrightarrow> i \<noteq> (r + k) mod n \<Longrightarrow> g i = f i"
  shows "ring_list n g r (Suc k) = ring_list n f r k @ [x]"
proof -
  have "ring_list n g r k = ring_list n f r k"
    by (rule ring_list_cong) (use assms ring_slots_differ [OF _ assms(1)] in auto)
  then show ?thesis using assms(2) by (simp add: ring_list_def)
qed

lemma ring_list_pop: "r < n \<Longrightarrow> ring_list n f r (Suc k) = f r # ring_list n f (Suc r mod n) k"
  unfolding ring_list_def upt_conv_Cons [OF zero_less_Suc] map_Suc_upt [symmetric] by (simp add: mod_simps)

section \<open>Operations\<close>

record dequeue_t =
  front :: qword
  dq_back :: qword
  dq_lock :: spinlock_t
  buffer :: qword
  buffer_length :: qword
  element_size :: qword

definition dequeue_init :: "dequeue_t option \<Rightarrow> qword \<Rightarrow> qword \<Rightarrow> qword \<Rightarrow> int \<times> dequeue_t option" where
  "dequeue_init dq buf len esz =
     (case dq of
        None \<Rightarrow> (- EINVAL, None)
      | Some d \<Rightarrow>
          (let d = d\<lparr>front := 0, dq_back := 0, buffer := buf, buffer_length := len, element_size := esz\<rparr>
           in (0, Some (d\<lparr>dq_lock := spinlock_init (dq_lock d)\<rparr>))))"

definition dq_slot :: "dequeue_t \<Rightarrow> qword \<Rightarrow> qword" where
  "dq_slot d i = buffer d + i * element_size d"

definition dq_unlock :: "dequeue_t \<Rightarrow> dequeue_t" where
  "dq_unlock d = d\<lparr>dq_lock := spinlock_unlock (dq_lock d)\<rparr>"

definition dequeue_push :: "dequeue_t option \<Rightarrow> qword \<Rightarrow> memory \<Rightarrow> (int \<times> dequeue_t option \<times> memory) option" where
  "dequeue_push dq v m =
     (case dq of
        None \<Rightarrow> Some (- EINVAL, None, m)
      | Some d \<Rightarrow> do {
          l \<leftarrow> spinlock_lock (dq_lock d);
          let d = d\<lparr>dq_lock := l\<rparr>;
          if buffer_length d = 0 then None
          else do {
            let new_back = (dq_back d + 1) mod buffer_length d;
            if new_back = front d then Some (- EOVERFLOW, Some (dq_unlock d), m)
            else do {
              let m = snd (lk_memcpy m (dq_slot d (dq_back d)) v (int_of_qword (element_size d)));
              Some (0, Some (dq_unlock (d\<lparr>dq_back := new_back\<rparr>)), m)
            }
          }
        })"

definition dequeue_pop :: "dequeue_t option \<Rightarrow> qword \<Rightarrow> memory \<Rightarrow> (int \<times> dequeue_t option \<times> memory) option" where
  "dequeue_pop dq out m =
     (case dq of
        None \<Rightarrow> Some (- EINVAL, None, m)
      | Some d \<Rightarrow>
          if out = 0 then Some (- EINVAL, Some d, m)
          else do {
            l \<leftarrow> spinlock_lock (dq_lock d);
            let d = d\<lparr>dq_lock := l\<rparr>;
            if front d = dq_back d then Some (- ENOENT, Some (dq_unlock d), m)
            else do {
              let m = snd (lk_memcpy m out (dq_slot d (front d)) (int_of_qword (element_size d)));
              if buffer_length d = 0 then None
              else Some (0, Some (dq_unlock (d\<lparr>front := (front d + 1) mod buffer_length d\<rparr>)), m)
            }
          })"

section \<open>The queue behind the ring\<close>

definition bytes_of :: "memory \<Rightarrow> qword \<Rightarrow> nat \<Rightarrow> byte list" where
  "bytes_of m a n = map (\<lambda>i. m (a + of_nat i)) [0..<n]"

lemma bytes_of_length [simp]: "length (bytes_of m a n) = n"
  by (simp add: bytes_of_def)

lemma bytes_of_cong: "(\<And>x. in_range x a n \<Longrightarrow> m' x = m x) \<Longrightarrow> n < 2 ^ 64 \<Longrightarrow> bytes_of m' a n = bytes_of m a n"
  by (simp add: bytes_of_def in_range_at)

lemma bytes_of_put: "length s < 2 ^ 64 \<Longrightarrow> bytes_of (put a s m) a (length s) = s"
  by (rule nth_equalityI) (simp_all add: bytes_of_def put_at)

lemma memcpy_put:
  assumes "apart s n d n" "n < 2 ^ 31"
  shows "snd (lk_memcpy m d s (int n)) = put d (bytes_of m s n) m"
proof (rule ext)
  fix x
  have "snd (lk_memcpy m d s (int n)) x = (if in_range x d n then m (s + (x - d)) else m x)"
    using lk_memcpy_apply(2) [of "int n" s d m x] assms by simp
  then show "snd (lk_memcpy m d s (int n)) x = put d (bytes_of m s n) m x"
    using assms(2) by (simp add: put_apply bytes_of_def in_range_def)
qed

definition slots :: "dequeue_t \<Rightarrow> nat" where
  "slots d = unat (buffer_length d)"

definition esize :: "dequeue_t \<Rightarrow> nat" where
  "esize d = unat (element_size d)"

definition dq_fill :: "dequeue_t \<Rightarrow> nat" where
  "dq_fill d = (unat (dq_back d) + slots d - unat (front d)) mod slots d"

definition dq_elem :: "dequeue_t \<Rightarrow> memory \<Rightarrow> nat \<Rightarrow> byte list" where
  "dq_elem d m i = bytes_of m (buffer d + of_nat (i * esize d)) (esize d)"

definition dq_contents :: "dequeue_t \<Rightarrow> memory \<Rightarrow> byte list list" where
  "dq_contents d m = ring_list (slots d) (dq_elem d m) (unat (front d)) (dq_fill d)"

text \<open>A queue between calls: the indices are inside the buffer, whose size fits the address space.\<close>

definition dq_ok :: "dequeue_t \<Rightarrow> bool" where
  "dq_ok d \<longleftrightarrow> lock (dq_lock d) = 0 \<and> unat (front d) < slots d \<and> unat (dq_back d) < slots d \<and>
     esize d < 2 ^ 31 \<and> slots d * esize d < 2 ^ 63"

lemma dq_next:
  assumes "unat i < slots d"
  shows "unat ((i + 1) mod buffer_length d) = Suc (unat i) mod slots d"
proof (cases "1 + i = 0")
  case True
  then have "i = - 1" by (simp add: eq_neg_iff_add_eq_0 add.commute)
  then have "unat i = 2 ^ 64 - 1" by (simp add: unsigned_minus_1_eq_mask mask_eq_exp_minus_1)
  then show ?thesis using assms unat_qword_less [of "buffer_length d"] by (simp add: slots_def)
next
  case False
  then have "unat (i + 1) = Suc (unat i)" using unatSuc [of i] by (simp add: add.commute)
  then show ?thesis by (simp add: unat_mod_distrib slots_def)
qed

lemma fill_unique:
  assumes "k < n" "r < n" "(r + k) mod n = b"
  shows "(b + n - r) mod n = (k :: nat)"
proof (cases "r + k < n")
  case True
  then have "b = r + k" using assms(3) by simp
  then show ?thesis using assms(1) by simp
next
  case False
  then have "(r + k) mod n = r + k - n" using assms(1,2) by (simp add: le_mod_geq)
  then have "b = r + k - n" using assms(3) by simp
  then have "b + n - r = k" using False by simp
  then show ?thesis using assms(1) by simp
qed

lemma fill_index:
  assumes "r < n" "b < n"
  shows "(r + (b + n - r) mod n) mod n = (b :: nat)"
proof -
  have "(r + (b + n - r) mod n) mod n = (r + (b + n - r)) mod n" by (simp add: mod_simps)
  also have "r + (b + n - r) = b + n" using assms(1) by simp
  finally show ?thesis using assms(2) by simp
qed

lemma dq_okD:
  assumes "dq_ok d"
  shows "0 < slots d" "dq_fill d < slots d" "(unat (front d) + dq_fill d) mod slots d = unat (dq_back d)"
    "buffer_length d \<noteq> 0" "int_of_qword (element_size d) = int (esize d)"
proof -
  show "0 < slots d" "dq_fill d < slots d" "(unat (front d) + dq_fill d) mod slots d = unat (dq_back d)"
    using assms fill_index [of "unat (front d)" "slots d" "unat (dq_back d)"] by (auto simp: dq_ok_def dq_fill_def)
  then show "buffer_length d \<noteq> 0" by (auto simp: slots_def)
  show "int_of_qword (element_size d) = int (esize d)"
    using assms int_of_qword_small [of "element_size d"] unfolding dq_ok_def esize_def by blast
qed

lemma dq_slot_addr: "dq_slot d i = buffer d + of_nat (unat i * esize d)"
  by (simp add: dq_slot_def esize_def)

lemma slot_in_buffer:
  assumes "dq_ok d" "i < slots d" "in_range x (buffer d + of_nat (i * esize d)) (esize d)"
  obtains j where "j < esize d" "i * esize d + j < slots d * esize d" "x = buffer d + of_nat (i * esize d + j)"
proof -
  obtain j where j: "j < esize d" "x = buffer d + of_nat (i * esize d) + of_nat j" using assms(3) by (rule in_range_offset)
  have "Suc i * esize d \<le> slots d * esize d" using assms(2) by (intro mult_le_mono1) simp
  then have "i * esize d + j < slots d * esize d" using j(1) by simp
  then show ?thesis using that j by (simp add: add.assoc)
qed

lemma slots_apart:
  assumes "dq_ok d" "i < slots d" "j < slots d" "i \<noteq> j"
  shows "apart (buffer d + of_nat (i * esize d)) (esize d) (buffer d + of_nat (j * esize d)) (esize d)"
  unfolding apart_def
proof (intro allI impI notI)
  fix x assume x: "in_range x (buffer d + of_nat (i * esize d)) (esize d)" "in_range x (buffer d + of_nat (j * esize d)) (esize d)"
  obtain a where a: "a < esize d" "i * esize d + a < slots d * esize d" "x = buffer d + of_nat (i * esize d + a)"
    using assms(1,2) x(1) by (rule slot_in_buffer)
  obtain b where b: "b < esize d" "j * esize d + b < slots d * esize d" "x = buffer d + of_nat (j * esize d + b)"
    using assms(1,3) x(2) by (rule slot_in_buffer)
  have l: "slots d * esize d < 2 ^ LENGTH(64)" using assms(1) by (simp add: dq_ok_def)
  have "unat (of_nat (i * esize d + a) :: qword) = unat (of_nat (j * esize d + b) :: qword)" using a(3) b(3) by simp
  then have e: "i * esize d + a = j * esize d + b"
    using less_trans [OF a(2) l] less_trans [OF b(2) l] by (simp only: unat_word_of_nat_small)
  have "i = (i * esize d + a) div esize d" "j = (j * esize d + b) div esize d" using a(1) b(1) by simp_all
  then show False using e assms(4) by simp
qed

text \<open>The buffer as a whole, against an area of the caller.\<close>

lemma slot_apart_outer:
  assumes "dq_ok d" "i < slots d" "apart a n (buffer d) (slots d * esize d)"
  shows "apart a n (buffer d + of_nat (i * esize d)) (esize d)"
  by (rule apart_shift [OF assms(3)]) (use assms(1,2) mult_le_mono1 [of "Suc i" "slots d" "esize d"] in \<open>simp_all add: dq_ok_def\<close>)

lemma apart_sym: "apart a n b k \<Longrightarrow> apart b k a n"
  by (auto simp: apart_def)

lemma dq_elem_put_other:
  assumes "dq_ok d" "i < slots d" "apart (buffer d + of_nat (i * esize d)) (esize d) a (length s)" "length s < 2 ^ 31"
  shows "dq_elem d (put a s m) i = dq_elem d m i"
  unfolding dq_elem_def by (rule bytes_of_cong) (use put_apart [OF _ assms(3)] assms(1,4) in \<open>simp_all add: dq_ok_def\<close>)

lemma dq_contents_cong:
  assumes "dq_ok d" "\<And>i. i < slots d \<Longrightarrow> dq_elem d m' i = dq_elem d m i"
  shows "dq_contents d m' = dq_contents d m"
  unfolding dq_contents_def by (rule ring_list_cong) (use assms dq_okD(1) [OF assms(1)] in simp)

text \<open>What the two operations do, with the element written or read spelled out.\<close>

lemma dequeue_push_ok:
  assumes "dq_ok d" "apart v (esize d) (buffer d) (slots d * esize d)"
  obtains (full) "length (dq_contents d m) = slots d - 1" "dequeue_push (Some d) v m = Some (- EOVERFLOW, Some d, m)"
  | (room) d' m' where "length (dq_contents d m) < slots d - 1" "dequeue_push (Some d) v m = Some (0, Some d', m')"
      "dq_ok d'" "buffer d' = buffer d" "slots d' = slots d" "esize d' = esize d"
      "dq_contents d' m' = dq_contents d m @ [bytes_of m v (esize d)]" "\<And>x. \<not> in_range x (buffer d) (slots d * esize d) \<Longrightarrow> m' x = m x"
proof -
  note D = dq_okD [OF assms(1)]
  define nb where "nb = (dq_back d + 1) mod buffer_length d"
  have bl: "unat (dq_back d) < slots d" "unat (front d) < slots d" "lock (dq_lock d) = 0" "esize d < 2 ^ 31"
    using assms(1) by (simp_all add: dq_ok_def)
  have nb: "unat nb = Suc (unat (dq_back d)) mod slots d" unfolding nb_def by (rule dq_next [OF bl(1)])
  have nb2: "unat nb = (unat (front d) + Suc (dq_fill d)) mod slots d" unfolding nb D(3) [symmetric] by (simp add: mod_simps)
  have len: "length (dq_contents d m) = dq_fill d" by (simp add: dq_contents_def)
  have lk: "spinlock_lock (dq_lock d) = Some ((dq_lock d)\<lparr>lock := 1\<rparr>)" using bl(3) by (rule spinlock_lock_free)
  have un: "(dq_lock d)\<lparr>lock := 0\<rparr> = dq_lock d" using bl(3) by simp
  show ?thesis
  proof (cases "Suc (dq_fill d) = slots d")
    case True
    then have "nb = front d" using nb2 bl(2) by (simp add: word_unat_eq_iff)
    then have "dequeue_push (Some d) v m = Some (- EOVERFLOW, Some d, m)"
      using D(4) by (simp add: dequeue_push_def lk nb_def dq_unlock_def spinlock_unlock_def un)
    then show ?thesis using full True len by simp
  next
    case False
    then have k: "Suc (dq_fill d) < slots d" using D(2) by simp
    have ne: "nb \<noteq> front d"
    proof
      assume "nb = front d"
      then have "(unat (front d) + 0) mod slots d = (unat (front d) + Suc (dq_fill d)) mod slots d" using nb2 bl(2) by simp
      then show False using ring_slots_differ [of 0 "Suc (dq_fill d)" "slots d" "unat (front d)"] k by simp
    qed
    define d' where "d' = d\<lparr>dq_back := nb\<rparr>"
    define m' where "m' = put (buffer d + of_nat (unat (dq_back d) * esize d)) (bytes_of m v (esize d)) m"
    have ap: "apart v (esize d) (buffer d + of_nat (unat (dq_back d) * esize d)) (esize d)"
      by (rule slot_apart_outer [OF assms(1) bl(1) assms(2)])
    have cp: "snd (lk_memcpy m (dq_slot (d\<lparr>dq_lock := l\<rparr>) (dq_back d)) v (int (esize d))) = m'" for l
      using memcpy_put [OF ap bl(4), of m] by (simp add: m'_def dq_slot_def esize_def)
    have run: "dequeue_push (Some d) v m = Some (0, Some d', m')"
      using D(4) ne by (simp add: dequeue_push_def lk dq_unlock_def spinlock_unlock_def un D(5) d'_def cp flip: nb_def)
    have fill': "dq_fill d' = Suc (dq_fill d)"
      using fill_unique [OF k bl(2) nb2 [symmetric]] by (simp add: d'_def dq_fill_def slots_def)
    have same: "slots d' = slots d" "esize d' = esize d" "buffer d' = buffer d" "front d' = front d"
      by (simp_all add: d'_def slots_def esize_def)
    have ok': "dq_ok d'" using assms(1) D(1) nb by (simp add: dq_ok_def same) (simp add: d'_def)
    have new: "dq_elem d' m' (unat (dq_back d)) = bytes_of m v (esize d)"
      using bytes_of_put [of "bytes_of m v (esize d)"] bl(4) by (simp add: dq_elem_def same m'_def)
    have old: "dq_elem d' m' i = dq_elem d m i" if "i < slots d" "i \<noteq> unat (dq_back d)" for i
      using dq_elem_put_other [OF assms(1) that(1), of _ "bytes_of m v (esize d)" m] slots_apart [OF assms(1) that(1) bl(1) that(2)] bl(4)
      by (simp add: dq_elem_def same m'_def)
    have "dq_contents d' m' = dq_contents d m @ [bytes_of m v (esize d)]"
      unfolding dq_contents_def fill' same by (rule ring_list_push) (use D(2,3) new old in simp_all)
    moreover have "m' x = m x" if "\<not> in_range x (buffer d) (slots d * esize d)" for x
    proof -
      have "\<not> in_range x (buffer d + of_nat (unat (dq_back d) * esize d)) (esize d)"
      proof
        assume "in_range x (buffer d + of_nat (unat (dq_back d) * esize d)) (esize d)"
        with assms(1) bl(1) obtain j where j: "unat (dq_back d) * esize d + j < slots d * esize d" "x = buffer d + of_nat (unat (dq_back d) * esize d + j)"
          by (rule slot_in_buffer)
        have "in_range x (buffer d) (slots d * esize d)"
          unfolding j(2) by (rule in_range_at [OF j(1)]) (use assms(1) in \<open>simp add: dq_ok_def\<close>)
        then show False using that by simp
      qed
      then show ?thesis using bl(4) by (simp add: m'_def put_apply)
    qed
    ultimately show ?thesis using room run ok' same k len by simp
  qed
qed

lemma dequeue_pop_ok:
  assumes "dq_ok d" "out \<noteq> 0" "apart out (esize d) (buffer d) (slots d * esize d)"
  obtains (none) "dq_contents d m = []" "dequeue_pop (Some d) out m = Some (- ENOENT, Some d, m)"
  | (some) x xs d' where "dq_contents d m = x # xs" "dequeue_pop (Some d) out m = Some (0, Some d', put out x m)"
      "dq_ok d'" "buffer d' = buffer d" "slots d' = slots d" "esize d' = esize d"
      "dq_contents d' (put out x m) = xs" "length x = esize d"
proof -
  note D = dq_okD [OF assms(1)]
  have bl: "unat (dq_back d) < slots d" "unat (front d) < slots d" "lock (dq_lock d) = 0" "esize d < 2 ^ 31"
    using assms(1) by (simp_all add: dq_ok_def)
  have lk: "spinlock_lock (dq_lock d) = Some ((dq_lock d)\<lparr>lock := 1\<rparr>)" using bl(3) by (rule spinlock_lock_free)
  have un: "(dq_lock d)\<lparr>lock := 0\<rparr> = dq_lock d" using bl(3) by simp
  show ?thesis
  proof (cases "dq_fill d")
    case 0
    then have "front d = dq_back d" using D(3) bl(2) by (simp add: word_unat_eq_iff)
    then have "dequeue_pop (Some d) out m = Some (- ENOENT, Some d, m)"
      using assms(2) by (simp add: dequeue_pop_def lk dq_unlock_def spinlock_unlock_def un)
    then show ?thesis using none 0 by (simp add: dq_contents_def ring_list_def)
  next
    case (Suc k)
    then have k: "k < slots d" "Suc k < slots d" using D(2) by simp_all
    have ne: "front d \<noteq> dq_back d"
    proof
      assume "front d = dq_back d"
      then have "(unat (front d) + 0) mod slots d = (unat (front d) + Suc k) mod slots d" using D(3) Suc bl(2) by simp
      then show False using ring_slots_differ [of 0 "Suc k" "slots d" "unat (front d)"] k by simp
    qed
    define nf where "nf = (front d + 1) mod buffer_length d"
    define d' where "d' = d\<lparr>front := nf\<rparr>"
    define x where "x = dq_elem d m (unat (front d))"
    have nf: "unat nf = Suc (unat (front d)) mod slots d" unfolding nf_def by (rule dq_next [OF bl(2)])
    have ap: "apart (buffer d + of_nat (unat (front d) * esize d)) (esize d) out (esize d)"
      by (rule apart_sym [OF slot_apart_outer [OF assms(1) bl(2) assms(3)]])
    have cp: "snd (lk_memcpy m out (dq_slot (d\<lparr>dq_lock := l\<rparr>) (front d)) (int (esize d))) = put out x m" for l
      using memcpy_put [OF ap bl(4), of m] by (simp add: x_def dq_elem_def dq_slot_def esize_def)
    have run: "dequeue_pop (Some d) out m = Some (0, Some d', put out x m)"
      using assms(2) D(4) ne by (simp add: dequeue_pop_def lk dq_unlock_def spinlock_unlock_def un D(5) d'_def cp flip: nf_def)
    have same: "slots d' = slots d" "esize d' = esize d" "buffer d' = buffer d" "dq_back d' = dq_back d"
      by (simp_all add: d'_def slots_def esize_def)
    have ok': "dq_ok d'" using assms(1) D(1) nf by (simp add: dq_ok_def same) (simp add: d'_def)
    have "(unat nf + k) mod slots d = unat (dq_back d)" unfolding nf using D(3) Suc by (simp add: mod_simps)
    then have fill': "dq_fill d' = k"
      using fill_unique [OF k(1), of "unat nf" "unat (dq_back d)"] nf D(1) by (simp add: dq_fill_def same) (simp add: d'_def)
    have lx: "length x = esize d" by (simp add: x_def dq_elem_def)
    have el: "dq_elem d' (put out x m) i = dq_elem d m i" if "i < slots d" for i
    proof -
      have "apart (buffer d + of_nat (i * esize d)) (esize d) out (length x)"
        unfolding lx by (rule apart_sym [OF slot_apart_outer [OF assms(1) that assms(3)]])
      then have "dq_elem d (put out x m) i = dq_elem d m i" by (rule dq_elem_put_other [OF assms(1) that]) (use bl(4) lx in simp)
      then show ?thesis by (simp add: dq_elem_def same)
    qed
    have split: "dq_contents d m = x # ring_list (slots d) (dq_elem d m) (Suc (unat (front d)) mod slots d) k"
      unfolding dq_contents_def Suc by (subst ring_list_pop [OF bl(2)]) (simp add: x_def)
    have "dq_contents d' (put out x m) = ring_list (slots d) (dq_elem d m) (unat nf) k"
      unfolding dq_contents_def fill' same by (rule trans [OF ring_list_cong [where f = "dq_elem d m"]]) (use el D(1) in \<open>simp_all add: d'_def\<close>)
    then show ?thesis using some [OF split run ok'] same lx nf by simp
  qed
qed

section \<open>Bounded queues\<close>

text \<open>
  What a client of a bounded queue relies on: an element is accepted as long as there is room, and the
  elements come out in the order they went in. The client's lemma is about any sequence of calls.
\<close>

datatype 'e queue_cmd = Push 'e | Pop

datatype 'e queue_reply = Accepted bool | Taken "'e option"

fun spec_reply :: "nat \<Rightarrow> 'e queue_cmd \<Rightarrow> 'e list \<Rightarrow> 'e queue_reply \<times> 'e list" where
  "spec_reply cap (Push x) q = (if length q < cap then (Accepted True, q @ [x]) else (Accepted False, q))"
| "spec_reply cap Pop [] = (Taken None, [])"
| "spec_reply cap Pop (x # q) = (Taken (Some x), q)"

fun spec_replies :: "nat \<Rightarrow> 'e queue_cmd list \<Rightarrow> 'e list \<Rightarrow> 'e queue_reply list \<times> 'e list" where
  "spec_replies cap [] q = ([], q)"
| "spec_replies cap (k # ks) q = (let (r, q) = spec_reply cap k q; (rs, q) = spec_replies cap ks q in (r # rs, q))"

fun run_queue :: "('e \<Rightarrow> 's \<Rightarrow> (bool \<times> 's) option) \<Rightarrow> ('s \<Rightarrow> ('e option \<times> 's) option) \<Rightarrow> 'e queue_cmd list \<Rightarrow> 's \<Rightarrow>
    ('e queue_reply list \<times> 's) option" where
  "run_queue put_e get_e [] s = Some ([], s)"
| "run_queue put_e get_e (Push x # ks) s = do {
     (b, s) \<leftarrow> put_e x s; (rs, s) \<leftarrow> run_queue put_e get_e ks s; Some (Accepted b # rs, s) }"
| "run_queue put_e get_e (Pop # ks) s = do {
     (x, s) \<leftarrow> get_e s; (rs, s) \<leftarrow> run_queue put_e get_e ks s; Some (Taken x # rs, s) }"

locale bounded_queue =
  fixes qinv :: "'s \<Rightarrow> bool"
    and qlist :: "'s \<Rightarrow> 'e list"
    and cap :: nat
    and fits :: "'e \<Rightarrow> bool"
    and put_e :: "'e \<Rightarrow> 's \<Rightarrow> (bool \<times> 's) option"
    and get_e :: "'s \<Rightarrow> ('e option \<times> 's) option"
  assumes put_law: "qinv s \<Longrightarrow> fits x \<Longrightarrow> \<exists>s'. put_e x s = Some (length (qlist s) < cap, s') \<and> qinv s' \<and>
      qlist s' = (if length (qlist s) < cap then qlist s @ [x] else qlist s)"
    and get_law: "qinv s \<Longrightarrow> \<exists>s'. get_e s = Some (case qlist s of [] \<Rightarrow> None | x # _ \<Rightarrow> Some x, s') \<and> qinv s' \<and> qlist s' = tl (qlist s)"
begin

lemma run_replies:
  assumes "qinv s" "\<forall>x. Push x \<in> set ks \<longrightarrow> fits x"
  shows "\<exists>s'. run_queue put_e get_e ks s = Some (fst (spec_replies cap ks (qlist s)), s') \<and> qinv s' \<and>
    qlist s' = snd (spec_replies cap ks (qlist s))"
  using assms
proof (induction ks arbitrary: s)
  case (Cons k ks)
  show ?case
  proof (cases k)
    case (Push x)
    obtain s1 where s1: "put_e x s = Some (length (qlist s) < cap, s1)" "qinv s1"
      "qlist s1 = (if length (qlist s) < cap then qlist s @ [x] else qlist s)"
      using put_law [OF Cons.prems(1), of x] Cons.prems(2) Push by auto
    then show ?thesis using Cons.IH [OF s1(2)] Cons.prems(2) Push by (auto simp: Let_def split: prod.splits)
  next
    case Pop
    obtain s1 where s1: "get_e s = Some (case qlist s of [] \<Rightarrow> None | x # _ \<Rightarrow> Some x, s1)" "qinv s1" "qlist s1 = tl (qlist s)"
      using get_law [OF Cons.prems(1)] by auto
    then show ?thesis using Cons.IH [OF s1(2)] Cons.prems(2) Pop by (cases "qlist s") (auto simp: Let_def split: prod.splits)
  qed
qed simp

end

text \<open>The calls a client makes: the element is written to the area \<open>v\<close> and pushed, or popped to \<open>out\<close>.\<close>

definition dq_put :: "qword \<Rightarrow> byte list \<Rightarrow> dequeue_t \<times> memory \<Rightarrow> (bool \<times> dequeue_t \<times> memory) option" where
  "dq_put v x s = do {
     (r, dq, m) \<leftarrow> dequeue_push (Some (fst s)) v (put v x (snd s));
     d \<leftarrow> dq;
     Some (r = 0, d, m)
   }"

definition dq_get :: "qword \<Rightarrow> dequeue_t \<times> memory \<Rightarrow> (byte list option \<times> dequeue_t \<times> memory) option" where
  "dq_get out s = do {
     (r, dq, m) \<leftarrow> dequeue_pop (Some (fst s)) out (snd s);
     d \<leftarrow> dq;
     Some (if r = 0 then Some (bytes_of m out (esize d)) else None, d, m)
   }"

definition dq_client :: "qword \<Rightarrow> qword \<Rightarrow> qword \<Rightarrow> nat \<Rightarrow> nat \<Rightarrow> dequeue_t \<times> memory \<Rightarrow> bool" where
  "dq_client v out buf n esz s \<longleftrightarrow> dq_ok (fst s) \<and> buffer (fst s) = buf \<and> slots (fst s) = n \<and> esize (fst s) = esz \<and>
     out \<noteq> 0 \<and> apart v esz buf (n * esz) \<and> apart out esz buf (n * esz)"

interpretation dq: bounded_queue "dq_client v out buf n esz" "\<lambda>s. dq_contents (fst s) (snd s)" "n - 1"
    "\<lambda>x. length x = esz" "dq_put v" "dq_get out" for v out buf n esz
proof
  fix s :: "dequeue_t \<times> memory" and x :: "byte list"
  obtain d m where s: "s = (d, m)" by fastforce
  assume c: "dq_client v out buf n esz s"
  then have d: "dq_ok d" "buffer d = buf" "slots d = n" "esize d = esz" "out \<noteq> 0" "apart v esz buf (n * esz)" "apart out esz buf (n * esz)"
    by (simp_all add: s dq_client_def)
  have e31: "esz < 2 ^ 31" using d(1,4) by (simp add: dq_ok_def)
  show "\<exists>s'. dq_put v x s = Some (length (dq_contents (fst s) (snd s)) < n - 1, s') \<and> dq_client v out buf n esz s' \<and>
      dq_contents (fst s') (snd s') = (if length (dq_contents (fst s) (snd s)) < n - 1 then dq_contents (fst s) (snd s) @ [x]
        else dq_contents (fst s) (snd s))" if x: "length x = esz"
  proof -
    have "dq_elem d (put v x m) i = dq_elem d m i" if "i < slots d" for i
      using dq_elem_put_other [OF d(1) that, of v x m] apart_sym [OF slot_apart_outer [OF d(1) that, of v esz]] d(2-4,6) x e31 by simp
    then have same: "dq_contents d (put v x m) = dq_contents d m" by (rule dq_contents_cong [OF d(1)])
    have bx: "bytes_of (put v x m) v (esize d) = x" using bytes_of_put [of x v m] x d(4) e31 by simp
    have av: "apart v (esize d) (buffer d) (slots d * esize d)" using d by simp
    show ?thesis using d(1) av
    proof (cases rule: dequeue_push_ok [where m = "put v x m"])
      case full
      then show ?thesis using c d same by (simp add: s dq_put_def dq_client_def EOVERFLOW_def)
    next
      case (room d' m')
      then show ?thesis using d same bx by (simp add: s dq_put_def dq_client_def)
    qed
  qed
  have ao: "apart out (esize d) (buffer d) (slots d * esize d)" using d by simp
  show "\<exists>s'. dq_get out s = Some (case dq_contents (fst s) (snd s) of [] \<Rightarrow> None | x # _ \<Rightarrow> Some x, s') \<and>
      dq_client v out buf n esz s' \<and> dq_contents (fst s') (snd s') = tl (dq_contents (fst s) (snd s))"
    using d(1,5) ao
  proof (cases rule: dequeue_pop_ok [where m = m])
    case none
    then show ?thesis using c d by (simp add: s dq_get_def dq_client_def ENOENT_def)
  next
    case (some y ys d')
    then have "bytes_of (put out y m) out (esize d') = y" using bytes_of_put [of y out m] d(4) e31 by simp
    then show ?thesis using some d by (simp add: s dq_get_def dq_client_def)
  qed
qed



end
