(* ===== verification/DlList.thy ===== *)
theory DlList
  imports Prelude "HOL-Library.Monad_Syntax"
begin

text \<open>
  The circular doubly-linked lists of \<^verbatim>\<open>kernel/list.h\<close>. A heap maps every node to its \<^verbatim>\<open>next\<close> and
  \<^verbatim>\<open>prev\<close> pointers; a node is the head of a list or the link of an item. \<^const>\<open>None\<close> as a pointer is
  NULL, and as a result an access through NULL. The operations are shown to implement operations on
  a family of HOL lists, and the \<^verbatim>\<open>dl_list_for_each_safe\<close> loop gets a rule that the clients use.
\<close>

section \<open>Nodes and heaps\<close>

record 'n dl_list =
  dl_next :: "'n option"
  dl_prev :: "'n option"

type_synonym 'n dl_heap = "'n \<Rightarrow> 'n dl_list"

datatype ('l, 'i) dl_node = Head 'l | Item 'i

text \<open>Stores through a pointer.\<close>

definition set_next :: "'n option \<Rightarrow> 'n option \<Rightarrow> 'n dl_heap \<Rightarrow> 'n dl_heap option" where
  "set_next p v H = (case p of None \<Rightarrow> None | Some n \<Rightarrow> Some (H(n := (H n)\<lparr>dl_next := v\<rparr>)))"

definition set_prev :: "'n option \<Rightarrow> 'n option \<Rightarrow> 'n dl_heap \<Rightarrow> 'n dl_heap option" where
  "set_prev p v H = (case p of None \<Rightarrow> None | Some n \<Rightarrow> Some (H(n := (H n)\<lparr>dl_prev := v\<rparr>)))"

section \<open>Operations\<close>

definition dl_list_init :: "'n \<Rightarrow> 'n dl_heap \<Rightarrow> 'n dl_heap" where
  "dl_list_init list H = H(list := \<lparr>dl_next = Some list, dl_prev = Some list\<rparr>)"

definition dl_list_add :: "'n \<Rightarrow> 'n option \<Rightarrow> 'n dl_heap \<Rightarrow> 'n dl_heap option" where
  "dl_list_add item list H = do {
     l \<leftarrow> list;
     H \<leftarrow> set_next (Some item) (dl_next (H l)) H;
     H \<leftarrow> set_prev (Some item) list H;
     H \<leftarrow> set_prev (dl_next (H l)) (Some item) H;
     set_next list (Some item) H
   }"

definition dl_list_add_tail :: "'n \<Rightarrow> 'n \<Rightarrow> 'n dl_heap \<Rightarrow> 'n dl_heap option" where
  "dl_list_add_tail item list H = dl_list_add item (dl_prev (H list)) H"

definition dl_list_del :: "'n \<Rightarrow> 'n dl_heap \<Rightarrow> 'n dl_heap option" where
  "dl_list_del item H = do {
     H \<leftarrow> set_prev (dl_next (H item)) (dl_prev (H item)) H;
     H \<leftarrow> set_next (dl_prev (H item)) (dl_next (H item)) H;
     H \<leftarrow> set_next (Some item) None H;
     set_prev (Some item) None H
   }"

definition dl_list_del_init :: "'n \<Rightarrow> 'n dl_heap \<Rightarrow> 'n dl_heap option" where
  "dl_list_del_init item H = do {
     H \<leftarrow> set_prev (dl_next (H item)) (dl_prev (H item)) H;
     H \<leftarrow> set_next (dl_prev (H item)) (dl_next (H item)) H;
     H \<leftarrow> set_next (Some item) (Some item) H;
     set_prev (Some item) (Some item) H
   }"

definition dl_list_empty :: "'n \<Rightarrow> 'n dl_heap \<Rightarrow> bool" where
  "dl_list_empty list H \<longleftrightarrow> dl_next (H list) = Some list"

definition dl_list_append :: "'n \<Rightarrow> 'n \<Rightarrow> 'n dl_heap \<Rightarrow> 'n dl_heap option" where
  "dl_list_append item list H =
     (if dl_list_empty item H then Some H
      else do {
        H \<leftarrow> set_next (dl_prev (H item)) (Some list) H;
        H \<leftarrow> set_next (dl_prev (H list)) (dl_next (H item)) H;
        H \<leftarrow> set_prev (dl_next (H item)) (dl_prev (H list)) H;
        set_prev (Some list) (dl_prev (H item)) H
      })"

text \<open>The counting loop of \<^verbatim>\<open>dl_list_len\<close>, from a given node on.\<close>

partial_function (option) dl_len_loop :: "'n dl_heap \<Rightarrow> 'n \<Rightarrow> 'n option \<Rightarrow> nat \<Rightarrow> nat option" where
  "dl_len_loop H list item count =
     (if item = Some list then Some count
      else (case item of None \<Rightarrow> None | Some n \<Rightarrow> dl_len_loop H list (dl_next (H n)) (Suc count)))"

definition dl_list_len :: "'n \<Rightarrow> 'n dl_heap \<Rightarrow> nat option" where
  "dl_list_len list H = dl_len_loop H list (dl_next (H list)) 0"

definition dl_list_first :: "'n \<Rightarrow> 'n dl_heap \<Rightarrow> 'n option" where
  "dl_list_first list H = (if dl_list_empty list H then None else dl_next (H list))"

text \<open>
  The loop \<^verbatim>\<open>dl_list_for_each_safe\<close>: the successor of the current item is read before the body runs,
  and the successor of that one after it. The body returns whether it left the loop by a \<^verbatim>\<open>break\<close>.
\<close>

partial_function (option) for_each_safe_loop ::
    "('s \<Rightarrow> ('l, 'i) dl_node dl_heap) \<Rightarrow> ('i \<Rightarrow> 's \<Rightarrow> (bool \<times> 's) option) \<Rightarrow> 'l \<Rightarrow>
     ('l, 'i) dl_node option \<Rightarrow> ('l, 'i) dl_node option \<Rightarrow> 's \<Rightarrow> (bool \<times> 's) option" where
  "for_each_safe_loop heap body l item n s =
     (if item = Some (Head l) then Some (False, s)
      else (case item of
              Some (Item i) \<Rightarrow>
                do {
                  (brk, s1) \<leftarrow> body i s;
                  if brk then Some (True, s1)
                  else do { m \<leftarrow> n; for_each_safe_loop heap body l n (dl_next (heap s1 m)) s1 }
                }
            | _ \<Rightarrow> None))"

definition dl_list_for_each_safe ::
    "('s \<Rightarrow> ('l, 'i) dl_node dl_heap) \<Rightarrow> ('i \<Rightarrow> 's \<Rightarrow> (bool \<times> 's) option) \<Rightarrow> 'l \<Rightarrow> 's \<Rightarrow> (bool \<times> 's) option" where
  "dl_list_for_each_safe heap body l s = do {
     item \<leftarrow> dl_next (heap s (Head l));
     for_each_safe_loop heap body l (Some item) (dl_next (heap s item)) s
   }"

text \<open>The loop \<^verbatim>\<open>dl_list_for_each\<close>, whose body cannot break and does not change the list.\<close>

partial_function (option) for_each_loop ::
    "('s \<Rightarrow> ('l, 'i) dl_node dl_heap) \<Rightarrow> ('i \<Rightarrow> 's \<Rightarrow> 's option) \<Rightarrow> 'l \<Rightarrow> ('l, 'i) dl_node option \<Rightarrow> 's \<Rightarrow> 's option" where
  "for_each_loop heap body l item s =
     (if item = Some (Head l) then Some s
      else (case item of
              Some (Item i) \<Rightarrow> do { s1 \<leftarrow> body i s; for_each_loop heap body l (dl_next (heap s1 (Item i))) s1 }
            | _ \<Rightarrow> None))"

definition dl_list_for_each ::
    "('s \<Rightarrow> ('l, 'i) dl_node dl_heap) \<Rightarrow> ('i \<Rightarrow> 's \<Rightarrow> 's option) \<Rightarrow> 'l \<Rightarrow> 's \<Rightarrow> 's option" where
  "dl_list_for_each heap body l s = for_each_loop heap body l (dl_next (heap s (Head l))) s"

section \<open>Segments\<close>

text \<open>From \<open>a\<close> the \<^verbatim>\<open>next\<close> pointers lead through \<open>xs\<close> to \<open>b\<close>, and the \<^verbatim>\<open>prev\<close> pointers back.\<close>

fun dl_seg :: "'n dl_heap \<Rightarrow> 'n \<Rightarrow> 'n list \<Rightarrow> 'n \<Rightarrow> bool" where
  "dl_seg H a [] b \<longleftrightarrow> dl_next (H a) = Some b \<and> dl_prev (H b) = Some a"
| "dl_seg H a (x # xs) b \<longleftrightarrow> dl_next (H a) = Some x \<and> dl_prev (H x) = Some a \<and> dl_seg H x xs b"

lemma dl_seg_append: "dl_seg H a (xs @ x # ys) b \<longleftrightarrow> dl_seg H a xs x \<and> dl_seg H x ys b"
  by (induction xs arbitrary: a) auto

lemma dl_seg_next: "dl_seg H a xs b \<Longrightarrow> dl_next (H a) = Some (case xs of [] \<Rightarrow> b | x # _ \<Rightarrow> x)"
  by (cases xs) auto

lemma dl_seg_prev: "dl_seg H a xs b \<Longrightarrow> dl_prev (H b) = Some (if xs = [] then a else last xs)"
  by (induction xs arbitrary: a) auto

text \<open>A segment depends on the \<^verbatim>\<open>next\<close> pointers of all its nodes but the last and the \<^verbatim>\<open>prev\<close> pointers of all but the first.\<close>

lemma dl_seg_cong:
  assumes "\<And>x. x \<in> set (a # xs) \<Longrightarrow> dl_next (H' x) = dl_next (H x)"
    and "\<And>x. x \<in> set (xs @ [b]) \<Longrightarrow> dl_prev (H' x) = dl_prev (H x)"
  shows "dl_seg H' a xs b = dl_seg H a xs b"
  using assms by (induction xs arbitrary: a) auto

section \<open>A family of lists\<close>

text \<open>
  The heads in \<open>L\<close> are the heads of disjoint lists; \<open>LS\<close> gives the items of each.
\<close>

definition lists_rep :: "'l set \<Rightarrow> ('l, 'i) dl_node dl_heap \<Rightarrow> ('l \<Rightarrow> 'i list) \<Rightarrow> bool" where
  "lists_rep L H LS \<longleftrightarrow>
     (\<forall>l\<in>L. dl_seg H (Head l) (map Item (LS l)) (Head l) \<and> distinct (LS l)) \<and>
     (\<forall>l\<in>L. \<forall>m\<in>L. l \<noteq> m \<longrightarrow> set (LS l) \<inter> set (LS m) = {})"

lemma lists_repD:
  assumes "lists_rep L H LS" "l \<in> L"
  shows "dl_seg H (Head l) (map Item (LS l)) (Head l)" "distinct (LS l)"
    "m \<in> L \<Longrightarrow> l \<noteq> m \<Longrightarrow> set (LS l) \<inter> set (LS m) = {}"
  using assms by (auto simp: lists_rep_def)

text \<open>Lists whose nodes keep their pointers keep their segment.\<close>

lemma seg_frame:
  assumes "dl_seg H (Head l) (map Item xs) (Head l)"
    and "\<And>n. n = Head l \<or> n \<in> Item ` set xs \<Longrightarrow> H' n = H n"
  shows "dl_seg H' (Head l) (map Item xs) (Head l)"
proof -
  have "dl_seg H' (Head l) (map Item xs) (Head l) = dl_seg H (Head l) (map Item xs) (Head l)"
    by (rule dl_seg_cong) (auto simp: assms(2))
  then show ?thesis using assms(1) by simp
qed

lemma lists_rep_upd:
  assumes r: "lists_rep L H LS" and l: "l \<in> L"
    and new: "dl_seg H' (Head l) (map Item xs) (Head l)" "distinct xs"
    and sub: "\<And>m. m \<in> L \<Longrightarrow> m \<noteq> l \<Longrightarrow> set xs \<inter> set (LS m) = {}"
    and out: "\<And>m n. m \<in> L \<Longrightarrow> m \<noteq> l \<Longrightarrow> n = Head m \<or> n \<in> Item ` set (LS m) \<Longrightarrow> H' n = H n"
  shows "lists_rep L H' (LS(l := xs))"
proof -
  have "dl_seg H' (Head m) (map Item (LS m)) (Head m)" if "m \<in> L" "m \<noteq> l" for m
    using seg_frame [OF lists_repD(1) [OF r that(1)]] out [OF that] by blast
  then show ?thesis
    using r new sub unfolding lists_rep_def by (auto simp: disjoint_iff)
qed

section \<open>The operations on a family of lists\<close>

lemma dl_list_full [simp]: "r\<lparr>dl_next := a, dl_prev := b\<rparr> = \<lparr>dl_next = a, dl_prev = b\<rparr>"
  by (cases r) simp

lemma seg_add_last:
  assumes seg: "dl_seg H h xs h" "distinct (h # xs)" "x \<notin> set (h # xs)"
  obtains H' where "dl_list_add_tail x h H = Some H'" "dl_seg H' h (xs @ [x]) h"
    "\<And>m. m \<notin> set (x # h # xs) \<Longrightarrow> H' m = H m"
proof -
  define p where "p = (if xs = [] then h else last xs)"
  define H' where "H' = ((H(x := \<lparr>dl_next = Some h, dl_prev = Some p\<rparr>))(h := (H h)\<lparr>dl_prev := Some x\<rparr>))"
  have pv: "dl_prev (H h) = Some p" using dl_seg_prev [OF seg(1)] by (simp add: p_def)
  have nx: "dl_next (H p) = Some h"
  proof (cases xs rule: rev_cases)
    case Nil
    then show ?thesis using seg(1) by (simp add: p_def)
  next
    case (snoc ys y)
    then show ?thesis using seg(1) by (simp add: p_def dl_seg_append)
  qed
  have ne: "p \<noteq> x" "h \<noteq> x" using seg(3) by (auto simp: p_def split: if_splits)
  have "dl_list_add_tail x h H = Some (H'(p := (H' p)\<lparr>dl_next := Some x\<rparr>))"
    using ne nx by (simp add: dl_list_add_tail_def dl_list_add_def pv set_next_def set_prev_def H'_def fun_upd_twist fun_upd_def)
      (auto simp: fun_eq_iff)
  moreover have "dl_seg (H'(p := (H' p)\<lparr>dl_next := Some x\<rparr>)) h (xs @ [x]) h"
  proof (cases xs rule: rev_cases)
    case Nil
    then show ?thesis using ne by (simp add: H'_def p_def)
  next
    case (snoc ys y)
    have y: "p = y" "y \<noteq> h" "y \<notin> set ys" "h \<notin> set ys" "x \<notin> set ys" using snoc seg(2,3) by (auto simp: p_def)
    have "dl_seg (H'(p := (H' p)\<lparr>dl_next := Some x\<rparr>)) h ys y = dl_seg H h ys y"
      using y ne by (intro dl_seg_cong) (auto simp: H'_def)
    then show ?thesis using snoc seg(1) y ne by (simp add: dl_seg_append H'_def)
  qed
  moreover have "(H'(p := (H' p)\<lparr>dl_next := Some x\<rparr>)) m = H m" if "m \<notin> set (x # h # xs)" for m
    using that last_in_set [of xs] by (auto simp: H'_def p_def split: if_splits)
  ultimately show thesis by (rule that)
qed

lemma rep_add_tail:
  assumes r: "lists_rep L H LS" and l: "l \<in> L" and x: "\<And>m. m \<in> L \<Longrightarrow> x \<notin> set (LS m)"
  obtains H' where "dl_list_add_tail (Item x) (Head l) H = Some H'" "lists_rep L H' (LS(l := LS l @ [x]))"
proof -
  have d: "distinct (Head l # map Item (LS l))" "Item x \<notin> set (Head l # map Item (LS l))"
    using lists_repD(2) [OF r l] x [OF l] by (auto simp: distinct_map inj_on_def)
  obtain H' where H': "dl_list_add_tail (Item x) (Head l) H = Some H'"
    "dl_seg H' (Head l) (map Item (LS l) @ [Item x]) (Head l)"
    "\<And>m. m \<notin> set (Item x # Head l # map Item (LS l)) \<Longrightarrow> H' m = H m"
    using seg_add_last [OF lists_repD(1) [OF r l] d] by blast
  have "lists_rep L H' (LS(l := LS l @ [x]))"
  proof (rule lists_rep_upd [OF r l])
    show "distinct (LS l @ [x])" using lists_repD(2) [OF r l] x [OF l] by simp
    show "set (LS l @ [x]) \<inter> set (LS m) = {}" if "m \<in> L" "m \<noteq> l" for m
      using lists_repD(3) [OF r l that(1)] that x [OF that(1)] by auto
    show "H' n = H n" if "m \<in> L" "m \<noteq> l" "n = Head m \<or> n \<in> Item ` set (LS m)" for m n
      using lists_repD(3) [OF r l that(1)] that x [OF that(1)] by (intro H'(3)) auto
  qed (use H'(2) in simp)
  then show thesis using H'(1) that by blast
qed

lemma seg_unlink:
  assumes seg: "dl_seg H h (ys @ x # zs) h" "distinct (h # ys @ x # zs)"
  obtains V where "dl_list_del_init x H = Some (V(x := \<lparr>dl_next = Some x, dl_prev = Some x\<rparr>))"
    "dl_list_del x H = Some (V(x := \<lparr>dl_next = None, dl_prev = None\<rparr>))"
    "\<And>X. dl_seg (V(x := X)) h (ys @ zs) h" "\<And>m. m \<notin> set (h # ys @ zs) \<Longrightarrow> V m = H m"
proof -
  define p where "p = (if ys = [] then h else last ys)"
  define n where "n = (case zs of [] \<Rightarrow> h | z # _ \<Rightarrow> z)"
  define U where "U = H(n := (H n)\<lparr>dl_prev := Some p\<rparr>)"
  define V where "V = U(p := (U p)\<lparr>dl_next := Some n\<rparr>)"
  have s: "dl_seg H h ys x" "dl_seg H x zs h" using seg(1) by (simp_all add: dl_seg_append)
  have pn: "dl_prev (H x) = Some p" "dl_next (H x) = Some n"
    using dl_seg_prev [OF s(1)] dl_seg_next [OF s(2)] by (simp_all add: p_def n_def)
  have ne: "p \<noteq> x" "n \<noteq> x"
    using seg(2) by (auto simp: p_def n_def split: if_splits list.splits)
  have op: "dl_list_del_init x H = Some (V(x := \<lparr>dl_next = Some x, dl_prev = Some x\<rparr>))"
    "dl_list_del x H = Some (V(x := \<lparr>dl_next = None, dl_prev = None\<rparr>))"
    using ne by (simp_all add: dl_list_del_init_def dl_list_del_def set_next_def set_prev_def pn U_def V_def)
  have nx: "dl_next (V m) = (if m = p then Some n else dl_next (H m))" for m
    by (simp add: U_def V_def)
  have pv: "dl_prev (V m) = (if m = n then Some p else dl_prev (H m))" for m
    by (simp add: U_def V_def)
  have "dl_seg (V(x := X)) h (ys @ zs) h" for X
  proof (cases ys rule: rev_cases)
    case Nil
    then have p: "p = h" by (simp add: p_def)
    show ?thesis
    proof (cases zs)
      case Nil
      then show ?thesis using \<open>ys = []\<close> p ne by (simp add: nx pv n_def)
    next
      case (Cons z zs')
      have "dl_seg (V(x := X)) z zs' h = dl_seg H z zs' h"
        using seg(2) Cons p \<open>ys = []\<close> by (intro dl_seg_cong) (auto simp: n_def nx pv)
      then show ?thesis using \<open>ys = []\<close> p ne s(2) Cons by (simp add: nx pv n_def)
    qed
  next
    case (snoc ys' y)
    then have p: "p = y" by (simp add: p_def)
    have y: "dl_seg (V(x := X)) h ys' y = dl_seg H h ys' y"
      using seg(2) snoc p by (intro dl_seg_cong) (auto simp: n_def nx pv split: list.splits)
    have "dl_seg (V(x := X)) y zs h"
    proof (cases zs)
      case Nil
      then show ?thesis using p ne by (simp add: nx pv n_def)
    next
      case (Cons z zs')
      have "dl_seg (V(x := X)) z zs' h = dl_seg H z zs' h"
        using seg(2) Cons p snoc by (intro dl_seg_cong) (auto simp: n_def nx pv)
      then show ?thesis using p ne s(2) Cons by (simp add: nx pv n_def)
    qed
    then show ?thesis using y s(1) snoc by (simp add: dl_seg_append)
  qed
  moreover have "V m = H m" if "m \<notin> set (h # ys @ zs)" for m
    using that last_in_set [of ys] by (auto simp: V_def U_def p_def n_def split: if_splits list.splits)
  ultimately show thesis using op by (intro that)
qed

text \<open>Removing an item, whether its own pointers become NULL or point to itself.\<close>

lemma rep_unlink:
  assumes r: "lists_rep L H LS" and l: "l \<in> L" and x: "LS l = ys @ x # zs"
  obtains H1 H2 where "dl_list_del_init (Item x) H = Some H1" "lists_rep L H1 (LS(l := ys @ zs))"
    "dl_list_del (Item x) H = Some H2" "lists_rep L H2 (LS(l := ys @ zs))"
proof -
  let ?h = "Head l" and ?ys = "map Item ys" and ?zs = "map Item zs"
  have s: "dl_seg H ?h (?ys @ Item x # ?zs) ?h" using lists_repD(1) [OF r l] by (simp add: x)
  have d: "distinct (?h # ?ys @ Item x # ?zs)"
    using lists_repD(2) [OF r l] by (auto simp: x distinct_map inj_on_def)
  obtain V where V: "dl_list_del_init (Item x) H = Some (V(Item x := \<lparr>dl_next = Some (Item x), dl_prev = Some (Item x)\<rparr>))"
    "dl_list_del (Item x) H = Some (V(Item x := \<lparr>dl_next = None, dl_prev = None\<rparr>))"
    "\<And>X. dl_seg (V(Item x := X)) ?h (?ys @ ?zs) ?h" "\<And>m. m \<notin> set (?h # ?ys @ ?zs) \<Longrightarrow> V m = H m"
    using seg_unlink [OF s d] by blast
  have "lists_rep L (V(Item x := X)) (LS(l := ys @ zs))" for X
  proof (rule lists_rep_upd [OF r l])
    show "distinct (ys @ zs)" using lists_repD(2) [OF r l] by (simp add: x)
    show "set (ys @ zs) \<inter> set (LS m) = {}" if "m \<in> L" "m \<noteq> l" for m
      using lists_repD(3) [OF r l that(1)] that by (auto simp: x)
    show "(V(Item x := X)) n = H n" if "m \<in> L" "m \<noteq> l" "n = Head m \<or> n \<in> Item ` set (LS m)" for m n
    proof -
      have "n \<noteq> Item x" "n \<notin> set (?h # ?ys @ ?zs)" using lists_repD(3) [OF r l that(1)] that by (auto simp: x)
      then show ?thesis using V(4) by simp
    qed
  qed (use V(3) in simp)
  then show thesis using V(1,2) that by blast
qed

lemma rep_del_init:
  assumes "lists_rep L H LS" "l \<in> L" "x \<in> set (LS l)"
  obtains H' where "dl_list_del_init (Item x) H = Some H'" "lists_rep L H' (LS(l := remove1 x (LS l)))"
proof -
  obtain ys zs where s: "LS l = ys @ x # zs" "x \<notin> set ys" using assms(3) by (meson split_list_first)
  then have "remove1 x (LS l) = ys @ zs" by (simp add: remove1_append)
  then show thesis using rep_unlink [OF assms(1,2) s(1)] that by metis
qed

lemma rep_del:
  assumes "lists_rep L H LS" "l \<in> L" "LS l = x # xs"
  obtains H' where "dl_list_del (Item x) H = Some H'" "lists_rep L H' (LS(l := xs))"
  using rep_unlink [OF assms(1,2), of "[]" x xs] assms(3) that by auto

text \<open>A fresh head.\<close>

lemma rep_init:
  assumes r: "lists_rep L H LS" and l: "l \<notin> L"
  shows "lists_rep (insert l L) (dl_list_init (Head l) H) (LS(l := []))"
proof -
  have "dl_seg (dl_list_init (Head l) H) (Head m) (map Item (LS m)) (Head m)" if "m \<in> L" for m
    using seg_frame [OF lists_repD(1) [OF r that], of "dl_list_init (Head l) H"] that l
    by (fastforce simp: dl_list_init_def)
  then show ?thesis
    using r l unfolding lists_rep_def by (auto simp: dl_list_init_def)
qed

text \<open>Pointers of nodes outside the lists do not matter.\<close>

lemma rep_outside:
  assumes "lists_rep L H LS" "\<And>l. l \<in> L \<Longrightarrow> n \<noteq> Head l \<and> n \<notin> Item ` set (LS l)"
  shows "lists_rep L (H(n := v)) LS"
proof -
  have "dl_seg (H(n := v)) (Head m) (map Item (LS m)) (Head m)" if "m \<in> L" for m
    using assms(2) [OF that] by (intro seg_frame [OF lists_repD(1) [OF assms(1) that]]) auto
  then show ?thesis using assms(1) by (simp add: lists_rep_def)
qed

lemma seg_splice:
  assumes seg: "dl_seg H a (x # xs) a" "dl_seg H b ys b" and d: "distinct (a # b # ys @ x # xs)"
  obtains H' where "dl_list_append a b H = Some H'" "dl_seg H' b (ys @ x # xs) b"
    "\<And>m. m \<notin> set (b # ys @ x # xs) \<Longrightarrow> H' m = H m"
proof -
  define p where "p = (if ys = [] then b else last ys)"
  define z where "z = last (x # xs)"
  define H1 where "H1 = H(z := (H z)\<lparr>dl_next := Some b\<rparr>)"
  define H2 where "H2 = H1(p := (H1 p)\<lparr>dl_next := Some x\<rparr>)"
  define H3 where "H3 = H2(x := (H2 x)\<lparr>dl_prev := Some p\<rparr>)"
  define H4 where "H4 = H3(b := (H3 b)\<lparr>dl_prev := Some z\<rparr>)"
  have a: "dl_next (H a) = Some x" "dl_prev (H a) = Some z"
    using seg(1) dl_seg_prev [OF seg(1)] by (simp_all add: z_def)
  have b: "dl_prev (H b) = Some p" using dl_seg_prev [OF seg(2)] by (simp add: p_def)
  have zin: "z \<in> set (x # xs)" by (simp add: z_def)
  have pin: "p \<in> set (b # ys)" using last_in_set [of ys] by (simp add: p_def)
  have ne: "a \<noteq> x" "a \<noteq> z" "a \<noteq> p" "a \<noteq> b" "b \<noteq> x" "b \<noteq> z" "p \<noteq> z" "p \<noteq> x"
    using d zin pin by auto
  have op: "dl_list_append a b H = Some H4"
    using a b ne
    by (cases "b = p") (simp_all add: dl_list_append_def dl_list_empty_def set_next_def set_prev_def H1_def H2_def H3_def H4_def)
  have nx: "dl_next (H4 m) = (if m = p then Some x else if m = z then Some b else dl_next (H m))" for m
    using ne by (simp add: H1_def H2_def H3_def H4_def)
  have pv: "dl_prev (H4 m) = (if m = b then Some z else if m = x then Some p else dl_prev (H m))" for m
    using ne by (simp add: H1_def H2_def H3_def H4_def)
  have T: "dl_seg H4 x xs b"
  proof (cases xs rule: rev_cases)
    case Nil
    then show ?thesis using ne by (simp add: nx pv z_def)
  next
    case (snoc ws w)
    then have w: "z = w" by (simp add: z_def)
    have "dl_seg H4 x ws w = dl_seg H x ws w"
      using d snoc w pin by (intro dl_seg_cong) (auto simp: nx pv)
    then show ?thesis using seg(1) snoc w ne by (simp add: dl_seg_append nx pv)
  qed
  have "dl_seg H4 b (ys @ x # xs) b"
  proof (cases ys rule: rev_cases)
    case Nil
    then show ?thesis using T ne by (simp add: nx pv p_def)
  next
    case (snoc ws y)
    then have y: "p = y" by (simp add: p_def)
    have "dl_seg H4 b ws y = dl_seg H b ws y"
      using d snoc y zin by (intro dl_seg_cong) (auto simp: nx pv)
    then show ?thesis using seg(2) snoc y T ne by (simp add: dl_seg_append nx pv)
  qed
  moreover have "H4 m = H m" if "m \<notin> set (b # ys @ x # xs)" for m
    using that zin pin by (auto simp: H1_def H2_def H3_def H4_def)
  ultimately show thesis using op by (intro that)
qed

lemma rep_append:
  assumes r: "lists_rep L H LS" and ab: "a \<in> L" "b \<in> L" "a \<noteq> b"
  obtains H' where "dl_list_append (Head a) (Head b) H = Some H'"
    "lists_rep L (dl_list_init (Head a) H') (LS(b := LS b @ LS a, a := []))"
proof (cases "LS a")
  case Nil
  have "dl_next (H (Head a)) = Some (Head a)" "dl_prev (H (Head a)) = Some (Head a)"
    using lists_repD(1) [OF r ab(1)] by (simp_all add: Nil)
  then have "dl_list_append (Head a) (Head b) H = Some H" "dl_list_init (Head a) H = H"
    by (simp_all add: dl_list_append_def dl_list_empty_def dl_list_init_def fun_upd_idem)
  moreover have "LS(b := LS b @ LS a, a := []) = LS" using Nil by (simp add: fun_eq_iff)
  ultimately show thesis using r that by metis
next
  case (Cons x xs)
  have d: "distinct (Head a # Head b # map Item (LS b) @ Item x # map Item xs)"
    using lists_repD(2) [OF r ab(1)] lists_repD(2) [OF r ab(2)] lists_repD(3) [OF r ab] ab(3)
    by (auto simp: Cons distinct_map inj_on_def)
  have sa: "dl_seg H (Head a) (Item x # map Item xs) (Head a)" using lists_repD(1) [OF r ab(1)] by (simp add: Cons)
  obtain H' where H': "dl_list_append (Head a) (Head b) H = Some H'"
    "dl_seg H' (Head b) (map Item (LS b) @ Item x # map Item xs) (Head b)"
    "\<And>m. m \<notin> set (Head b # map Item (LS b) @ Item x # map Item xs) \<Longrightarrow> H' m = H m"
    using seg_splice [OF sa lists_repD(1) [OF r ab(2)] d] by blast
  let ?H = "dl_list_init (Head a) H'" and ?LS = "LS(b := LS b @ LS a, a := [])"
  have seg: "dl_seg ?H (Head m) (map Item (?LS m)) (Head m)" if "m \<in> L" for m
  proof -
    consider "m = a" | "m = b" | "m \<noteq> a" "m \<noteq> b" by blast
    then show ?thesis
    proof cases
      case 1
      then show ?thesis by (simp add: dl_list_init_def)
    next
      case 2
      have "dl_seg H' (Head b) (map Item (LS b @ LS a)) (Head b)" using H'(2) by (simp add: Cons)
      then have "dl_seg ?H (Head b) (map Item (LS b @ LS a)) (Head b)"
        by (rule seg_frame) (use ab(3) in \<open>auto simp: dl_list_init_def\<close>)
      then show ?thesis using 2 ab(3) by simp
    next
      case 3
      have "?H n = H n" if "n = Head m \<or> n \<in> Item ` set (LS m)" for n
      proof -
        have "n \<notin> set (Head b # map Item (LS b) @ Item x # map Item xs)"
          using that 3 lists_repD(3) [OF r ab(1) \<open>m \<in> L\<close>] lists_repD(3) [OF r ab(2) \<open>m \<in> L\<close>] Cons by auto
        then show ?thesis using H'(3) that 3 by (auto simp: dl_list_init_def)
      qed
      then show ?thesis using seg_frame [OF lists_repD(1) [OF r that]] 3 by simp
    qed
  qed
  have "distinct (LS b @ LS a)"
    using lists_repD(2) [OF r ab(1)] lists_repD(2) [OF r ab(2)] lists_repD(3) [OF r ab] ab(3) by auto
  then have "distinct (?LS m)" if "m \<in> L" for m using lists_repD(2) [OF r that] by simp
  moreover have "set (?LS m) \<inter> set (?LS n) = {}" if "m \<in> L" "n \<in> L" "m \<noteq> n" for m n
    using lists_repD(3) [OF r that(1,2)] lists_repD(3) [OF r ab(1) that(1)] lists_repD(3) [OF r ab(1) that(2)] that(3)
    by (auto split: if_splits)
  ultimately have "lists_rep L ?H ?LS" using seg unfolding lists_rep_def by blast
  then show thesis using H'(1) that by blast
qed

section \<open>Reading a list\<close>

lemma rep_empty: "lists_rep L H LS \<Longrightarrow> l \<in> L \<Longrightarrow> dl_list_empty (Head l) H \<longleftrightarrow> LS l = []"
  using lists_repD(1) [of L H LS l] by (cases "LS l") (auto simp: dl_list_empty_def)

lemma rep_head: "lists_rep L H LS \<Longrightarrow> l \<in> L \<Longrightarrow>
    dl_next (H (Head l)) = Some (case LS l of [] \<Rightarrow> Head l | x # _ \<Rightarrow> Item x)"
  using lists_repD(1) [of L H LS l] by (cases "LS l") auto

lemma rep_first: "lists_rep L H LS \<Longrightarrow> l \<in> L \<Longrightarrow>
    dl_list_first (Head l) H = (case LS l of [] \<Rightarrow> None | x # _ \<Rightarrow> Some (Item x))"
  by (auto simp: dl_list_first_def rep_empty rep_head split: list.split)

text \<open>From the first of \<open>xs\<close> the \<^verbatim>\<open>next\<close> pointers lead through \<open>xs\<close> to the head.\<close>

fun chain :: "('l, 'i) dl_node dl_heap \<Rightarrow> 'l \<Rightarrow> 'i list \<Rightarrow> bool" where
  "chain H l [] \<longleftrightarrow> True"
| "chain H l (x # xs) \<longleftrightarrow> dl_next (H (Item x)) = Some (case xs of [] \<Rightarrow> Head l | y # _ \<Rightarrow> Item y) \<and> chain H l xs"

lemma seg_chain: "dl_seg H a (map Item xs) (Head l) \<Longrightarrow> chain H l xs"
proof (induction xs arbitrary: a)
  case (Cons x xs)
  then have s: "dl_seg H (Item x) (map Item xs) (Head l)" by simp
  show ?case using Cons.IH [OF s] dl_seg_next [OF s] by (cases xs) simp_all
qed simp

lemma chain_suffix: "chain H l (ys @ xs) \<Longrightarrow> chain H l xs"
  by (induction ys) auto

lemma rep_chain:
  assumes "lists_rep L H LS" "l \<in> L" "LS l = ys @ xs"
  shows "chain H l xs"
proof (cases xs)
  case (Cons x zs)
  then have "dl_seg H (Head l) (map Item ys @ Item x # map Item zs) (Head l)"
    using lists_repD(1) [OF assms(1,2)] assms(3) by simp
  then show ?thesis
    using Cons seg_chain [of H "Head l" "ys @ x # zs" l] chain_suffix [of H l ys "x # zs"] by simp
qed simp

lemma len_loop_chain:
  "chain H l xs \<Longrightarrow> dl_len_loop H (Head l) (Some (case xs of [] \<Rightarrow> Head l | x # _ \<Rightarrow> Item x)) n = Some (n + length xs)"
proof (induction xs arbitrary: n)
  case Nil
  show ?case by (subst dl_len_loop.simps) simp
next
  case (Cons x xs)
  then show ?case by (subst dl_len_loop.simps) simp
qed

lemma rep_len: "lists_rep L H LS \<Longrightarrow> l \<in> L \<Longrightarrow> dl_list_len (Head l) H = Some (length (LS l))"
  using len_loop_chain [OF rep_chain [of L H LS l "[]" "LS l"], of 0] by (simp add: dl_list_len_def rep_head)

section \<open>Rules for the loops\<close>

text \<open>
  The body of a safe loop may unlink the current item and change other lists as long as the
  remaining items stay linked. The rule shows that the loop returns and what holds at its end.
\<close>

lemma for_each_safe_rule:
  assumes inv: "Inv (LS l) s" and rep: "lists_rep L (heap s) LS" "l \<in> L"
    and step: "\<And>x xs s. Inv (x # xs) s \<Longrightarrow> \<exists>b s1. body x s = Some (b, s1) \<and>
      (if b then Q True s1 else Inv xs s1 \<and> chain (heap s1) l xs)"
    and fin: "\<And>s. Inv [] s \<Longrightarrow> Q False s"
  shows "\<exists>b s'. dl_list_for_each_safe heap body l s = Some (b, s') \<and> Q b s'"
proof -
  let ?ptr = "\<lambda>xs. Some (case xs of [] \<Rightarrow> Head l | x # _ \<Rightarrow> Item x)"
  have main: "\<exists>b s'. for_each_safe_loop heap body l (?ptr xs)
      (dl_next (heap s (case xs of [] \<Rightarrow> Head l | x # _ \<Rightarrow> Item x))) s = Some (b, s') \<and> Q b s'"
    if "Inv xs s" "chain (heap s) l xs" for xs s
    using that
  proof (induction xs arbitrary: s)
    case Nil
    then show ?case using fin [OF Nil(1)] by (subst for_each_safe_loop.simps) auto
  next
    case (Cons x xs)
    obtain b s1 where b: "body x s = Some (b, s1)" "if b then Q True s1 else Inv xs s1 \<and> chain (heap s1) l xs"
      using step [OF Cons.prems(1)] by blast
    show ?case
    proof (cases b)
      case True
      then show ?thesis using b by (subst for_each_safe_loop.simps) auto
    next
      case False
      then have c: "Inv xs s1" "chain (heap s1) l xs" using b(2) by simp_all
      show ?thesis
        using Cons.IH [OF c] False b(1) Cons.prems(2) by (subst for_each_safe_loop.simps) (simp split: list.split)
    qed
  qed
  have "chain (heap s) l (LS l)" using rep_chain [OF rep, of "[]"] by simp
  from main [OF inv this] show ?thesis
    by (simp add: dl_list_for_each_safe_def rep_head [OF rep])
qed

lemma for_each_rule:
  assumes inv: "Inv (LS l) s" and rep: "lists_rep L (heap s) LS" "l \<in> L"
    and step: "\<And>x xs s. Inv (x # xs) s \<Longrightarrow> \<exists>s1. body x s = Some s1 \<and> Inv xs s1 \<and> heap s1 = heap s"
    and fin: "\<And>s. Inv [] s \<Longrightarrow> Q s"
  shows "\<exists>s'. dl_list_for_each heap body l s = Some s' \<and> Q s'"
proof -
  have main: "\<exists>s'. for_each_loop heap body l (Some (case xs of [] \<Rightarrow> Head l | x # _ \<Rightarrow> Item x)) s = Some s' \<and> Q s'"
    if "Inv xs s" "chain (heap s) l xs" for xs s
    using that
  proof (induction xs arbitrary: s)
    case Nil
    then show ?case using fin by (subst for_each_loop.simps) simp
  next
    case (Cons x xs)
    obtain s1 where "body x s = Some s1" "Inv xs s1" "heap s1 = heap s" using step [OF Cons.prems(1)] by blast
    then show ?case using Cons.IH [of s1] Cons.prems(2) by (subst for_each_loop.simps) simp
  qed
  have "chain (heap s) l (LS l)" using rep_chain [OF rep, of "[]"] by simp
  from main [OF inv this] show ?thesis by (simp add: dl_list_for_each_def rep_head [OF rep])
qed

section \<open>The lists as an interface\<close>

text \<open>
  What the clients of the lists rely on: appending an item that is in no list and unlinking an item
  that is in one succeed and do to the lists what they say. The client's lemma is about any sequence
  of such operations.
\<close>

datatype ('l, 'i) list_cmd = Append 'i 'l | Unlink 'i

fun list_cmd_ok :: "'l set \<Rightarrow> ('l \<Rightarrow> 'i list) \<Rightarrow> ('l, 'i) list_cmd \<Rightarrow> bool" where
  "list_cmd_ok L LS (Append x l) \<longleftrightarrow> l \<in> L \<and> (\<forall>m\<in>L. x \<notin> set (LS m))"
| "list_cmd_ok L LS (Unlink x) \<longleftrightarrow> (\<exists>l\<in>L. x \<in> set (LS l))"

fun list_cmd_abs :: "('l, 'i) list_cmd \<Rightarrow> ('l \<Rightarrow> 'i list) \<Rightarrow> 'l \<Rightarrow> 'i list" where
  "list_cmd_abs (Append x l) LS = LS(l := LS l @ [x])"
| "list_cmd_abs (Unlink x) LS = (\<lambda>l. remove1 x (LS l))"

fun list_cmds_ok :: "'l set \<Rightarrow> ('l \<Rightarrow> 'i list) \<Rightarrow> ('l, 'i) list_cmd list \<Rightarrow> bool" where
  "list_cmds_ok L LS [] \<longleftrightarrow> True"
| "list_cmds_ok L LS (k # ks) \<longleftrightarrow> list_cmd_ok L LS k \<and> list_cmds_ok L (list_cmd_abs k LS) ks"

fun list_cmds_run :: "('i \<Rightarrow> 'l \<Rightarrow> 'h \<Rightarrow> 'h option) \<Rightarrow> ('i \<Rightarrow> 'h \<Rightarrow> 'h option) \<Rightarrow> ('l, 'i) list_cmd list \<Rightarrow> 'h \<Rightarrow> 'h option" where
  "list_cmds_run app unl [] H = Some H"
| "list_cmds_run app unl (Append x l # ks) H = do { H \<leftarrow> app x l H; list_cmds_run app unl ks H }"
| "list_cmds_run app unl (Unlink x # ks) H = do { H \<leftarrow> unl x H; list_cmds_run app unl ks H }"

locale item_lists =
  fixes rep :: "'l set \<Rightarrow> 'h \<Rightarrow> ('l \<Rightarrow> 'i list) \<Rightarrow> bool"
    and app :: "'i \<Rightarrow> 'l \<Rightarrow> 'h \<Rightarrow> 'h option"
    and unl :: "'i \<Rightarrow> 'h \<Rightarrow> 'h option"
  assumes app_law: "rep L H LS \<Longrightarrow> l \<in> L \<Longrightarrow> (\<And>m. m \<in> L \<Longrightarrow> x \<notin> set (LS m)) \<Longrightarrow>
      \<exists>H'. app x l H = Some H' \<and> rep L H' (LS(l := LS l @ [x]))"
    and unl_law: "rep L H LS \<Longrightarrow> l \<in> L \<Longrightarrow> x \<in> set (LS l) \<Longrightarrow>
      \<exists>H'. unl x H = Some H' \<and> rep L H' (LS(l := remove1 x (LS l)))"
    and rep_disjoint: "rep L H LS \<Longrightarrow> l \<in> L \<Longrightarrow> m \<in> L \<Longrightarrow> l \<noteq> m \<Longrightarrow> set (LS l) \<inter> set (LS m) = {}"
    and rep_cong: "rep L H LS \<Longrightarrow> (\<And>l. l \<in> L \<Longrightarrow> LS' l = LS l) \<Longrightarrow> rep L H LS'"
begin

lemma unlink_everywhere:
  assumes "rep L H LS" "l \<in> L" "x \<in> set (LS l)"
  shows "\<exists>H'. unl x H = Some H' \<and> rep L H' (\<lambda>m. remove1 x (LS m))"
proof -
  obtain H' where H': "unl x H = Some H'" "rep L H' (LS(l := remove1 x (LS l)))" using unl_law [OF assms] by blast
  have "remove1 x (LS m) = (LS(l := remove1 x (LS l))) m" if "m \<in> L" for m
  proof (cases "m = l")
    case False
    then have "x \<notin> set (LS m)" using rep_disjoint [OF assms(1,2) that] assms(3) by auto
    then show ?thesis using False by (simp add: remove1_idem)
  qed simp
  then have "rep L H' (\<lambda>m. remove1 x (LS m))" by (rule rep_cong [OF H'(2)])
  then show ?thesis using H'(1) by simp
qed

lemma run_refines:
  assumes "rep L H LS" "list_cmds_ok L LS ks"
  shows "\<exists>H'. list_cmds_run app unl ks H = Some H' \<and> rep L H' (fold list_cmd_abs ks LS)"
  using assms
proof (induction ks arbitrary: H LS)
  case (Cons k ks)
  show ?case
  proof (cases k)
    case (Append x l)
    then obtain H' where "app x l H = Some H'" "rep L H' (LS(l := LS l @ [x]))"
      using app_law [OF Cons.prems(1), of l x] Cons.prems(2) by auto
    then show ?thesis using Cons.IH [of H' "LS(l := LS l @ [x])"] Cons.prems(2) Append by (simp del: fun_upd_apply)
  next
    case (Unlink x)
    then obtain H' where "unl x H = Some H'" "rep L H' (\<lambda>m. remove1 x (LS m))"
      using unlink_everywhere [OF Cons.prems(1)] Cons.prems(2) by auto
    then show ?thesis using Cons.IH [of H' "\<lambda>m. remove1 x (LS m)"] Cons.prems(2) Unlink by simp
  qed
qed simp

end

interpretation dll: item_lists lists_rep "\<lambda>x l. dl_list_add_tail (Item x) (Head l)" "\<lambda>x. dl_list_del_init (Item x)"
proof
  show "\<exists>H'. dl_list_add_tail (Item x) (Head l) H = Some H' \<and> lists_rep L H' (LS(l := LS l @ [x]))"
    if "lists_rep L H LS" "l \<in> L" "\<And>m. m \<in> L \<Longrightarrow> x \<notin> set (LS m)" for L H and LS :: "'a \<Rightarrow> 'b list" and l x
    using rep_add_tail [OF that] by blast
  show "\<exists>H'. dl_list_del_init (Item x) H = Some H' \<and> lists_rep L H' (LS(l := remove1 x (LS l)))"
    if "lists_rep L H LS" "l \<in> L" "x \<in> set (LS l)" for L H and LS :: "'a \<Rightarrow> 'b list" and l x
    using rep_del_init [OF that] by blast
qed (auto simp: lists_rep_def)

text \<open>C26. The doubly linked lists implement lists. Starting from heads whose chains hold the lists \<open>LS\<close>, any
  sequence of \<^verbatim>\<open>dl_list_add_tail\<close> of items that are in no list and \<^verbatim>\<open>dl_list_del_init\<close> of items that are
  in one follows no NULL pointer, and the chains then hold what appending and removing give. The
  readers agree: \<^verbatim>\<open>dl_list_empty\<close>, \<^verbatim>\<open>dl_list_first\<close> and \<^verbatim>\<open>dl_list_len\<close> return what the lists say, so the
  length loop ends.\<close>

theorem dl_list_refines:
  assumes "lists_rep L H LS" "list_cmds_ok L LS ks"
  shows "\<exists>H'. list_cmds_run (\<lambda>x l. dl_list_add_tail (Item x) (Head l)) (\<lambda>x. dl_list_del_init (Item x)) ks H = Some H' \<and>
    (\<forall>l\<in>L. (let xs = fold list_cmd_abs ks LS l in
      dl_list_empty (Head l) H' = (xs = []) \<and> dl_list_len (Head l) H' = Some (length xs) \<and>
      dl_list_first (Head l) H' = (case xs of [] \<Rightarrow> None | x # _ \<Rightarrow> Some (Item x))))"
  using dll.run_refines [OF assms] by (auto simp: rep_empty rep_len rep_first)

theorem dl_list_refines_witness:
  "\<exists>H'. list_cmds_run (\<lambda>x l. dl_list_add_tail (Item x) (Head l)) (\<lambda>x. dl_list_del_init (Item x))
      [Append (7::nat) (0::nat), Append 8 0, Append 9 1, Unlink 7, Append 7 1]
      (dl_list_init (Head 0) (dl_list_init (Head 1) (\<lambda>_. \<lparr>dl_next = None, dl_prev = None\<rparr>))) = Some H' \<and>
    dl_list_len (Head 1) H' = Some 2 \<and> dl_list_first (Head 0) H' = Some (Item 8)"
proof -
  have "lists_rep {0, 1} (dl_list_init (Head 0) (dl_list_init (Head 1) (\<lambda>_. \<lparr>dl_next = None, dl_prev = None\<rparr>)))
      (((\<lambda>_ :: nat. [] :: nat list)(1 := []))(0 := []))"
    by (intro rep_init) (simp_all add: lists_rep_def)
  from dl_list_refines [OF this, of "[Append 7 0, Append 8 0, Append 9 1, Unlink 7, Append 7 1]"]
  show ?thesis by (auto simp: Let_def)
qed

end
