(* ===== verification/LocalApic.thy ===== *)
theory LocalApic
  imports Prelude
begin

text \<open>
  The timer of the local APIC (\<^verbatim>\<open>kernel/localapic.c\<close>). The model-specific registers of a core are a
  function from register numbers; the current-count register is changed by the hardware, so nothing
  is assumed of its value. The two calibration variables are shared by all cores.
\<close>

definition APIC_REGISTER_EOI :: nat where "APIC_REGISTER_EOI = 0x80B"
definition APIC_REGISTER_TIMER :: nat where "APIC_REGISTER_TIMER = 0x832"
definition APIC_REGISTER_TIMER_DIV :: nat where "APIC_REGISTER_TIMER_DIV = 0x83E"
definition APIC_REGISTER_TIMER_INIT_CNT :: nat where "APIC_REGISTER_TIMER_INIT_CNT = 0x838"
definition APIC_REGISTER_TIMER_CURR_CNT :: nat where "APIC_REGISTER_TIMER_CURR_CNT = 0x839"
definition APIC_TIMER_MODE_PERIODIC :: qword where "APIC_TIMER_MODE_PERIODIC = 0x020000"
definition APIC_TIMER_MODE_ONESHOT :: qword where "APIC_TIMER_MODE_ONESHOT = 0"
definition APIC_DELIVERY_STATUS_PENDING :: dword where "APIC_DELIVERY_STATUS_PENDING = 0x001000"
definition APIC_INTERRUPT_MASK :: qword where "APIC_INTERRUPT_MASK = 0x010000"

lemmas apic_registers = APIC_REGISTER_EOI_def APIC_REGISTER_TIMER_def APIC_REGISTER_TIMER_DIV_def
  APIC_REGISTER_TIMER_INIT_CNT_def APIC_REGISTER_TIMER_CURR_CNT_def

record apic_cal =
  ticks_in_10ms :: qword
  ticks_in_1ms :: qword

type_synonym msrs = "nat \<Rightarrow> qword"

definition x2apic_read :: "msrs \<Rightarrow> nat \<Rightarrow> qword" where "x2apic_read r msr = r msr"
definition x2apic_write :: "nat \<Rightarrow> qword \<Rightarrow> msrs \<Rightarrow> msrs" where "x2apic_write msr value r = r(msr := value)"

definition lapic_send_eoi :: "msrs \<Rightarrow> msrs" where
  "lapic_send_eoi r = x2apic_write APIC_REGISTER_EOI 0 r"

definition lapic_get_ticks_in_1ms :: "apic_cal \<Rightarrow> qword \<times> apic_cal" where
  "lapic_get_ticks_in_1ms k =
     (let k = (if ticks_in_1ms k = 0 then k\<lparr>ticks_in_1ms := ticks_in_10ms k div 10\<rparr> else k)
      in (ticks_in_1ms k, k))"

text \<open>The calibration, with the count the timer shows after the 10 ms wait as an argument.\<close>

definition lapic_cal_ticks_in_10ms :: "qword \<Rightarrow> apic_cal \<Rightarrow> msrs \<Rightarrow> apic_cal \<times> msrs" where
  "lapic_cal_ticks_in_10ms curr_cnt k r =
     (let r = x2apic_write APIC_REGISTER_TIMER_DIV 3 r;
          r = x2apic_write APIC_REGISTER_TIMER_INIT_CNT 0xFFFFFFFF r;
          value = x2apic_read r APIC_REGISTER_TIMER;
          r = x2apic_write APIC_REGISTER_TIMER (value OR APIC_INTERRUPT_MASK) r
      in (k\<lparr>ticks_in_10ms := 0xFFFFFFFF - curr_cnt\<rparr>, r))"

text \<open>The tick count for a time in milliseconds, at most the 32 bits of the register.\<close>

definition timer_ticks :: "apic_cal \<Rightarrow> int \<Rightarrow> qword" where
  "timer_ticks k msec =
     (let ticks = (ticks_in_10ms k div 10) * word_of_int msec
      in if 0xFFFFFFFF < ticks then 0xFFFFFFFF else ticks)"

definition lapic_start_timer :: "apic_cal \<Rightarrow> int \<Rightarrow> msrs \<Rightarrow> msrs" where
  "lapic_start_timer k msec r =
     x2apic_write APIC_REGISTER_TIMER_INIT_CNT (timer_ticks k msec)
       (x2apic_write APIC_REGISTER_TIMER (48 OR APIC_TIMER_MODE_PERIODIC)
         (x2apic_write APIC_REGISTER_TIMER_DIV 3 r))"

definition lapic_start_timer_oneshot :: "apic_cal \<Rightarrow> int \<Rightarrow> msrs \<Rightarrow> msrs" where
  "lapic_start_timer_oneshot k msec r =
     x2apic_write APIC_REGISTER_TIMER_INIT_CNT (timer_ticks k msec)
       (x2apic_write APIC_REGISTER_TIMER (48 OR APIC_TIMER_MODE_ONESHOT)
         (x2apic_write APIC_REGISTER_TIMER_DIV 3 r))"

definition lapic_stop_timer :: "msrs \<Rightarrow> msrs" where
  "lapic_stop_timer r = x2apic_write APIC_REGISTER_TIMER_INIT_CNT 0 r"

text \<open>Time slice and ticks consumed; a division by zero when the timer was never calibrated.\<close>

definition lapic_consumed_time_slice :: "apic_cal \<Rightarrow> msrs \<Rightarrow> (int \<times> int \<times> apic_cal) option" where
  "lapic_consumed_time_slice k r =
     (let init_cnt = ucast (x2apic_read r APIC_REGISTER_TIMER_INIT_CNT) :: dword;
          curr_cnt = ucast (x2apic_read r APIC_REGISTER_TIMER_CURR_CNT) :: dword;
          time_tick = uint (init_cnt - curr_cnt);
          (t, k) = lapic_get_ticks_in_1ms k
      in if t = 0 then None else Some (sint ((word_of_int time_tick :: qword) div t), time_tick, k))"

definition lapic_timer_interrupt_pending :: "msrs \<Rightarrow> dword" where
  "lapic_timer_interrupt_pending r = ucast (x2apic_read r APIC_REGISTER_TIMER) AND APIC_DELIVERY_STATUS_PENDING"

section \<open>Bounds\<close>

lemma timer_ticks_bound: "timer_ticks k msec \<le> 0xFFFFFFFF"
  by (simp add: timer_ticks_def Let_def not_less)

lemma lapic_get_ticks_nonzero:
  "10 \<le> ticks_in_10ms k \<Longrightarrow> fst (lapic_get_ticks_in_1ms k) \<noteq> 0"
proof -
  assume "10 \<le> ticks_in_10ms k"
  then have "1 \<le> unat (ticks_in_10ms k) div 10" by (simp add: word_le_nat_alt)
  then have "unat (ticks_in_10ms k div 10) \<noteq> 0" by (simp add: unat_div)
  then have "ticks_in_10ms k div 10 \<noteq> 0" by (metis unat_0)
  then show ?thesis by (simp add: lapic_get_ticks_in_1ms_def Let_def)
qed

lemma sint_small: "unat w < 2 ^ 63 \<Longrightarrow> sint w = int (unat w)" for w :: qword
proof -
  assume "unat w < 2 ^ 63"
  then have "int (unat w) < int (2 ^ 63)" by (simp only: of_nat_less_iff)
  then have "uint w < 2 ^ 63" by simp
  moreover have "- (2 ^ 63) \<le> uint w" by (rule order.trans [of _ 0]) simp_all
  ultimately have "signed_take_bit 63 (uint w) = uint w" by (intro signed_take_bit_int_eq_self)
  then show ?thesis by (simp add: sint_uint)
qed

lemma consumed_returns:
  assumes "10 \<le> ticks_in_10ms k"
  obtains sl t k' where "lapic_consumed_time_slice k r = Some (sl, t, k')" "0 \<le> t" "0 \<le> sl" "sl \<le> t"
    "ticks_in_10ms k' = ticks_in_10ms k"
proof -
  obtain t k' where tk: "lapic_get_ticks_in_1ms k = (t, k')" by fastforce
  have t: "t \<noteq> 0" using lapic_get_ticks_nonzero [OF assms] by (simp add: tk)
  have k': "ticks_in_10ms k' = ticks_in_10ms k" using tk by (auto simp: lapic_get_ticks_in_1ms_def Let_def split: if_splits)
  define d where "d = (ucast (x2apic_read r APIC_REGISTER_TIMER_INIT_CNT) - ucast (x2apic_read r APIC_REGISTER_TIMER_CURR_CNT) :: dword)"
  let ?w = "ucast d :: qword"
  have d: "uint d < 2 ^ 32" using uint_lt2p [of d] by simp
  have ud: "unat d < 2 ^ 32" using unsigned_less [of d] by simp
  then have w: "unat ?w = unat d" by (simp add: unsigned_ucast_eq take_bit_nat_eq_self)
  have le: "unat (?w div t) \<le> unat d" by (simp add: unat_div w)
  then have "unat (?w div t) < 2 ^ 63" using ud by simp
  then have si: "sint (?w div t) = int (unat (?w div t))" by (rule sint_small)
  have le': "int (unat (?w div t)) \<le> int (unat d)" using le by (simp only: of_nat_le_iff)
  have c: "lapic_consumed_time_slice k r = Some (sint (?w div t), uint d, k')"
    using t by (simp add: lapic_consumed_time_slice_def Let_def tk flip: d_def)
  have "0 \<le> sint (?w div t)" "sint (?w div t) \<le> uint d" using le' unfolding si by simp_all
  then show thesis using k' by (intro that [OF c]) simp_all
qed

end
