(* ===== verification/Thread.thy ===== *)
theory Thread
  imports DlList Atomic LocalApic ShellStorage Memory
begin

text \<open>
  Threads and the per-core scheduler (\<^verbatim>\<open>kernel/thread.c\<close>) and the signals of \<^verbatim>\<open>kernel/signal.c\<close> it
  delivers.

  A pointer to a thread control block is its index in \<^verbatim>\<open>g_global_thread_list\<close>: the blocks below
  \<^verbatim>\<open>MAX_PROCESSOR_COUNT\<close> are the idle threads of the cores (\<^verbatim>\<open>g_idle_thread_list\<close>), the others the
  pool that \<^verbatim>\<open>thread_init\<close> allocates. The lists of blocks are the linked lists of \<^verbatim>\<open>kernel/list.h\<close>
  over one heap of links. Every operation takes the core it runs on (\<^verbatim>\<open>get_apic_id\<close>). The result
  \<^const>\<open>None\<close> is an endless loop (\<^verbatim>\<open>debug_halt\<close>, \<^verbatim>\<open>debug_niy\<close>, a spinlock nobody releases) or an access
  through NULL. \<^verbatim>\<open>tcb_lock\<close> and \<^verbatim>\<open>tcb_unlock\<close> are empty in this configuration (\<^verbatim>\<open>NO_TCB_LOCK\<close>), memory
  fences have no effect on a sequential model and console output is left out.
\<close>

section \<open>Data\<close>

datatype thread_state_enum =
  THREAD_STATE_NOTALLOC | THREAD_STATE_CREATED | THREAD_STATE_RUNNING | THREAD_STATE_READY |
  THREAD_STATE_BLOCKED | THREAD_STATE_EXITED

definition THREAD_INTENTION_READY :: dword where "THREAD_INTENTION_READY = 8"
definition THREAD_INTENTION_BLOCKED :: dword where "THREAD_INTENTION_BLOCKED = 16"
definition THREAD_INTENTION_EXITED :: dword where "THREAD_INTENTION_EXITED = 32"
definition THREAD_INFINITE_TIME_QUANTUM :: int where "THREAD_INFINITE_TIME_QUANTUM = 0"
definition THREAD_DEFAULT_TIME_QUANTUM :: int where "THREAD_DEFAULT_TIME_QUANTUM = THREAD_INFINITE_TIME_QUANTUM"
definition THREAD_DEFAULT_TIME_SLICE :: int where "THREAD_DEFAULT_TIME_SLICE = 10"
definition THREAD_IDLE_THREAD_TIME_SLICE :: int where "THREAD_IDLE_THREAD_TIME_SLICE = 10"
definition RUNNABLE_MAX :: qword where "RUNNABLE_MAX = 2048"
definition THREAD_INIT_NAME :: qword where "THREAD_INIT_NAME = - 1"
definition CONFIG_TCB_SIZE :: qword where "CONFIG_TCB_SIZE = 0x1000"
definition CONFIG_STACK_SIZE :: qword where "CONFIG_STACK_SIZE = 0x10000"

text \<open>\<^verbatim>\<open>core_set_t\<close> is an array of eight doublewords; a set bit forbids the core.\<close>

type_synonym core_set_t = "dword carray"

datatype list_id = Runnable nat | Blocked nat | Local_tcb nat | Global_tcb | Migrating

text \<open>
  Where a thread resumes after \<^verbatim>\<open>context_switch\<close>, which is the return address on its kernel stack:
  \<^verbatim>\<open>return_from_setup_thread\<close> for a thread that never ran, \<^verbatim>\<open>schedule\<close> or \<^verbatim>\<open>schedule_to\<close> otherwise.
\<close>

datatype resume_point = From_setup | From_schedule

record TCB =
  stack :: qword
  user_stack :: qword
  stack_base :: qword
  tcb_id :: nat
  gen :: dword
  tcb_flags :: qword
  running_core :: "16 word"
  tstate :: thread_state_enum
  intention :: atomic_t
  tname :: qword
  signal_flag :: int
  signal_handler :: qword
  time_slice :: int
  remaining_time_slice :: int
  time_quantum :: int
  remaining_time_quantum :: int
  acc_ltc :: qword
  core_mask :: core_set_t
  sched_list :: "list_id option"
  refc :: atomic_t
  resume :: resume_point

record thread_list =
  tl_lock :: spinlock_t
  tl_count :: qword

record signal_t =
  sig_dest :: int
  signum :: int

record sched_state =
  tcbs :: "TCB carray"
  links :: "(list_id, nat) dl_node dl_heap"
  tls :: "list_id \<Rightarrow> thread_list"
  running_thread :: "nat option carray"
  g_running_thread_list :: "nat option carray"
  g_exit_thread_cnt :: atomic_t
  g_thread_cnt :: atomic_t
  tdcnt :: atomic_t
  trcnt :: atomic_t
  tcb_base_addr :: qword
  elf_load_entry :: qword
  sym_thread_exit :: qword
  sym_return_from_setup :: qword
  g_memory_start :: qword
  km :: mem_state
  ss :: ss_area
  apic :: apic_cal
  msr :: "msrs carray"
  sig_links :: "(nat, qword) dl_node dl_heap"
  sig_tls :: "thread_list carray"
  sigs :: "qword \<Rightarrow> signal_t"
  delivered :: "(nat \<times> qword \<times> int) list"

text \<open>Updates of one block, one list, and the list locks.\<close>

definition upd_tcb :: "nat \<Rightarrow> (TCB \<Rightarrow> TCB) \<Rightarrow> sched_state \<Rightarrow> sched_state" where
  "upd_tcb t f s = s\<lparr>tcbs := (tcbs s)(t := f (tcbs s t))\<rparr>"

definition upd_list :: "list_id \<Rightarrow> (thread_list \<Rightarrow> thread_list) \<Rightarrow> sched_state \<Rightarrow> sched_state" where
  "upd_list l f s = s\<lparr>tls := (tls s)(l := f (tls s l))\<rparr>"

definition count_inc :: "list_id \<Rightarrow> sched_state \<Rightarrow> sched_state" where
  "count_inc l = upd_list l (\<lambda>t. t\<lparr>tl_count := tl_count t + 1\<rparr>)"

definition count_dec :: "list_id \<Rightarrow> sched_state \<Rightarrow> sched_state" where
  "count_dec l = upd_list l (\<lambda>t. t\<lparr>tl_count := tl_count t - 1\<rparr>)"

definition list_lock :: "list_id \<Rightarrow> sched_state \<Rightarrow> sched_state option" where
  "list_lock l s = do { k \<leftarrow> spinlock_lock (tl_lock (tls s l)); Some (upd_list l (\<lambda>t. t\<lparr>tl_lock := k\<rparr>) s) }"

definition list_trylock :: "list_id \<Rightarrow> sched_state \<Rightarrow> bool \<times> sched_state" where
  "list_trylock l s = (let (b, k) = spinlock_trylock (tl_lock (tls s l)) in (b, upd_list l (\<lambda>t. t\<lparr>tl_lock := k\<rparr>) s))"

definition list_unlock :: "list_id \<Rightarrow> sched_state \<Rightarrow> sched_state" where
  "list_unlock l = upd_list l (\<lambda>t. t\<lparr>tl_lock := spinlock_unlock (tl_lock t)\<rparr>)"

text \<open>The linked-list operations on the links of the blocks.\<close>

definition links_init :: "(list_id, nat) dl_node \<Rightarrow> sched_state \<Rightarrow> sched_state" where
  "links_init n s = s\<lparr>links := dl_list_init n (links s)\<rparr>"

definition links_add_tail :: "nat \<Rightarrow> list_id \<Rightarrow> sched_state \<Rightarrow> sched_state option" where
  "links_add_tail t l s = do { h \<leftarrow> dl_list_add_tail (Item t) (Head l) (links s); Some (s\<lparr>links := h\<rparr>) }"

definition links_del :: "nat \<Rightarrow> sched_state \<Rightarrow> sched_state option" where
  "links_del t s = do { h \<leftarrow> dl_list_del (Item t) (links s); Some (s\<lparr>links := h\<rparr>) }"

definition links_del_init :: "nat \<Rightarrow> sched_state \<Rightarrow> sched_state option" where
  "links_del_init t s = do { h \<leftarrow> dl_list_del_init (Item t) (links s); Some (s\<lparr>links := h\<rparr>) }"

text \<open>\<^verbatim>\<open>dl_list_entry\<close> of a node that is the link of a block.\<close>

definition entry :: "(list_id, nat) dl_node option \<Rightarrow> nat option" where
  "entry p = (case p of Some (Item t) \<Rightarrow> Some t | _ \<Rightarrow> None)"

section \<open>Core masks\<close>

definition ISSET_CORE_MASK :: "core_set_t \<Rightarrow> nat \<Rightarrow> dword" where
  "ISSET_CORE_MASK cm i = cm (i div 32) AND push_bit (i mod 32) 1"

definition CLEAR_CORE_MASK :: "core_set_t \<Rightarrow> nat \<Rightarrow> core_set_t" where
  "CLEAR_CORE_MASK cm i = cm(i div 32 := cm (i div 32) AND NOT (push_bit (i mod 32) 1))"

definition FILL_CORE_MASK :: "core_set_t \<Rightarrow> core_set_t" where
  "FILL_CORE_MASK cm = (\<lambda>j. if j < 8 then - 1 else cm j)"

definition INIT_CORE_MASK :: "core_set_t \<Rightarrow> core_set_t" where
  "INIT_CORE_MASK cm = (\<lambda>j. if j < 8 then 0 else cm j)"

definition COPY_CORE_MASK :: "core_set_t \<Rightarrow> core_set_t \<Rightarrow> core_set_t" where
  "COPY_CORE_MASK d src = (\<lambda>j. if j < 8 then src j else d j)"

definition core_is_allowed :: "TCB \<Rightarrow> nat \<Rightarrow> bool" where
  "core_is_allowed t cid \<longleftrightarrow> \<not> ISSET_CORE_MASK (core_mask t) cid \<noteq> 0"

text \<open>A negative core other than -1 is an index far outside the mask.\<close>

definition set_core :: "nat \<Rightarrow> core_set_t \<Rightarrow> int \<Rightarrow> sched_state \<Rightarrow> sched_state option" where
  "set_core t cst cr s =
     (if cr < - 1 then None
      else
        (let cst = (if cr = - 1 then INIT_CORE_MASK cst else CLEAR_CORE_MASK (FILL_CORE_MASK cst) (nat cr))
         in Some (upd_tcb t (\<lambda>b. b\<lparr>core_mask := COPY_CORE_MASK (core_mask b) cst\<rparr>) s)))"

section \<open>Initialisation\<close>

definition get_current :: "nat \<Rightarrow> sched_state \<Rightarrow> nat option" where
  "get_current c s = running_thread s c"

definition thread_list_init :: "list_id \<Rightarrow> sched_state \<Rightarrow> sched_state" where
  "thread_list_init l s =
     links_init (Head l) (upd_list l (\<lambda>t. t\<lparr>tl_lock := spinlock_init (tl_lock t), tl_count := 0\<rparr>) s)"

definition sched_init :: "sched_state \<Rightarrow> sched_state" where
  "sched_init s =
     (let s = fold (\<lambda>i s. (thread_list_init (Blocked i) (thread_list_init (Runnable i) s))
                            \<lparr>running_thread := (running_thread s)(i := None)\<rparr>) [0..<MAX_PROCESSOR_COUNT] s
      in thread_list_init Migrating s)"

text \<open>The address of a block, for the pointers stored outside this component.\<close>

definition tcb_addr :: "sched_state \<Rightarrow> nat \<Rightarrow> qword" where
  "tcb_addr s t =
     (if t < MAX_PROCESSOR_COUNT
      then va (g_memory_start s) (0x800000 + g_memory_start s + CONFIG_TCB_SIZE * of_nat t)
      else tcb_base_addr s + 4096 * of_nat (t - MAX_PROCESSOR_COUNT))"

definition init_pool_tcb :: "qword \<Rightarrow> nat \<Rightarrow> TCB \<Rightarrow> TCB" where
  "init_pool_tcb a i b =
     b\<lparr>tstate := THREAD_STATE_NOTALLOC, tcb_id := MAX_PROCESSOR_COUNT + i, gen := 0,
       stack := a + CONFIG_TCB_SIZE, stack_base := a + CONFIG_TCB_SIZE, user_stack := 0,
       time_slice := THREAD_DEFAULT_TIME_SLICE, remaining_time_slice := THREAD_DEFAULT_TIME_SLICE,
       time_quantum := THREAD_DEFAULT_TIME_QUANTUM, remaining_time_quantum := THREAD_DEFAULT_TIME_QUANTUM,
       intention := 0, running_core := - 1, core_mask := INIT_CORE_MASK (core_mask b),
       tname := THREAD_INIT_NAME, signal_flag := 0, signal_handler := 0, acc_ltc := 0,
       sched_list := Some Global_tcb, refc := 0\<rparr>"

definition init_idle_tcb :: "qword \<Rightarrow> nat \<Rightarrow> TCB \<Rightarrow> TCB" where
  "init_idle_tcb a i b =
     b\<lparr>tstate := THREAD_STATE_CREATED, tcb_id := i, gen := 0,
       stack := a + CONFIG_TCB_SIZE, stack_base := a + CONFIG_TCB_SIZE, user_stack := 0,
       time_slice := THREAD_IDLE_THREAD_TIME_SLICE, remaining_time_slice := THREAD_IDLE_THREAD_TIME_SLICE,
       time_quantum := THREAD_DEFAULT_TIME_QUANTUM, remaining_time_quantum := THREAD_DEFAULT_TIME_QUANTUM,
       intention := 0, running_core := of_nat i, core_mask := INIT_CORE_MASK (core_mask b),
       tname := 0, signal_flag := 0, signal_handler := 0, acc_ltc := 0, sched_list := None, refc := 0\<rparr>"

fun ofold :: "('a \<Rightarrow> 's \<Rightarrow> 's option) \<Rightarrow> 'a list \<Rightarrow> 's \<Rightarrow> 's option" where
  "ofold f [] s = Some s"
| "ofold f (x # xs) s = do { s \<leftarrow> f x s; ofold f xs s }"

definition pool_step :: "nat \<Rightarrow> sched_state \<Rightarrow> sched_state option" where
  "pool_step i s = do {
     let t = MAX_PROCESSOR_COUNT + i;
     let s = upd_tcb t (init_pool_tcb (tcb_addr s t) i) s;
     let s = links_init (Item t) s;
     s \<leftarrow> links_add_tail t Global_tcb s;
     let s = count_inc Global_tcb s;
     Some (s\<lparr>ss := store_tcb_info t (tcb_addr s t) (ss s)\<rparr>)
   }"

definition idle_step :: "nat \<Rightarrow> sched_state \<Rightarrow> sched_state" where
  "idle_step i s =
     (let s = upd_tcb i (init_idle_tcb (tcb_addr s i) i) s;
          s = links_init (Item i) s
      in s\<lparr>ss := store_tcb_info i (tcb_addr s i) (ss s)\<rparr>)"

definition thread_init :: "sched_state \<Rightarrow> sched_state option" where
  "thread_init s = do {
     let s = thread_list_init Global_tcb s;
     let s = fold (\<lambda>i s. (thread_list_init (Local_tcb i) s)
                           \<lparr>g_running_thread_list := (g_running_thread_list s)(i := None)\<rparr>) [0..<MAX_PROCESSOR_COUNT] s;
     (a, k) \<leftarrow> az_alloc (km s) (4096 * of_nat CONFIG_NUM_THREAD);
     if a = 0 then None
     else do {
       let s = s\<lparr>km := k, tcb_base_addr := a\<rparr>;
       s \<leftarrow> ofold pool_step [0..<CONFIG_NUM_THREAD] s;
       Some (fold idle_step [0..<MAX_PROCESSOR_COUNT] s)
     }
   }"

section \<open>Allocation and release of blocks\<close>

definition reset_tcb :: "TCB \<Rightarrow> TCB" where
  "reset_tcb b =
     b\<lparr>refc := atomic_set (refc b) 1, user_stack := 0, time_slice := THREAD_DEFAULT_TIME_SLICE,
       remaining_time_slice := THREAD_DEFAULT_TIME_SLICE, time_quantum := THREAD_DEFAULT_TIME_QUANTUM,
       remaining_time_quantum := THREAD_DEFAULT_TIME_QUANTUM, intention := atomic_set (intention b) 0,
       running_core := - 1, core_mask := INIT_CORE_MASK (core_mask b), tname := THREAD_INIT_NAME,
       tstate := THREAD_STATE_CREATED, sched_list := None\<rparr>"

definition alloc_tcb :: "nat \<Rightarrow> sched_state \<Rightarrow> (nat \<times> sched_state) option" where
  "alloc_tcb c s = do {
     (t, s) \<leftarrow>
       (if tl_count (tls s (Local_tcb c)) \<noteq> 0 then do {
          t \<leftarrow> entry (dl_next (links s (Head (Local_tcb c))));
          s \<leftarrow> links_del t s;
          let s = count_dec (Local_tcb c) s;
          if 0 < atomic_get (refc (tcbs s t)) then None else Some (t, s)
        } else do {
          s \<leftarrow> list_lock Global_tcb s;
          if dl_list_empty (Head Global_tcb) (links s) then None
          else do {
            t \<leftarrow> entry (dl_next (links s (Head Global_tcb)));
            s \<leftarrow> links_del t s;
            Some (t, list_unlock Global_tcb (count_dec Global_tcb s))
          }
        });
     Some (t, links_init (Item t) (upd_tcb t reset_tcb s))
   }"

definition alloc_tcb_idle :: "nat \<Rightarrow> sched_state \<Rightarrow> nat \<times> sched_state" where
  "alloc_tcb_idle cid s = (cid, upd_tcb cid (\<lambda>b. b\<lparr>refc := atomic_inc (refc b)\<rparr>) s)"

definition is_idle_thread :: "nat \<Rightarrow> sched_state \<Rightarrow> bool" where
  "is_idle_thread t s \<longleftrightarrow> tcb_id (tcbs s t) < MAX_PROCESSOR_COUNT"

definition THREAD_INIT_CREATE :: nat where "THREAD_INIT_CREATE = 0"
definition THREAD_INIT_IDLE :: nat where "THREAD_INIT_IDLE = 1"
definition THREAD_INIT_DESTROY :: nat where "THREAD_INIT_DESTROY = 2"

definition init_tcb :: "nat \<Rightarrow> qword \<Rightarrow> nat \<Rightarrow> sched_state \<Rightarrow> sched_state option" where
  "init_tcb t stk ty s =
     (let tcb_temp = tcb_base_addr s + 4096 * (of_nat (tcb_id (tcbs s t)) - of_nat MAX_PROCESSOR_COUNT)
      in if ty = THREAD_INIT_CREATE then
           Some (upd_tcb t (\<lambda>b. b\<lparr>stack_base := stk + CONFIG_STACK_SIZE,
             remaining_time_slice := THREAD_DEFAULT_TIME_SLICE,
             remaining_time_quantum := THREAD_DEFAULT_TIME_QUANTUM, tname := THREAD_INIT_NAME, acc_ltc := 0\<rparr>) s)
         else if ty = THREAD_INIT_IDLE then
           Some (upd_tcb t (\<lambda>b. b\<lparr>remaining_time_slice := THREAD_IDLE_THREAD_TIME_SLICE,
             remaining_time_quantum := THREAD_IDLE_THREAD_TIME_SLICE, acc_ltc := 0\<rparr>) s)
         else if ty = THREAD_INIT_DESTROY then do {
           (_, k) \<leftarrow> az_free (km s) (stack_base (tcbs s t) - CONFIG_STACK_SIZE);
           Some (upd_tcb t (\<lambda>b. b\<lparr>stack := tcb_temp + CONFIG_TCB_SIZE, stack_base := tcb_temp + CONFIG_TCB_SIZE,
             tstate := THREAD_STATE_NOTALLOC, running_core := - 1\<rparr>) (s\<lparr>km := k\<rparr>))
         }
         else None)"

definition gen_inc :: "nat \<Rightarrow> sched_state \<Rightarrow> sched_state" where
  "gen_inc t = upd_tcb t (\<lambda>b. b\<lparr>gen := gen b + 1\<rparr>)"

definition destroy_tcb :: "nat \<Rightarrow> nat \<Rightarrow> sched_state \<Rightarrow> sched_state option" where
  "destroy_tcb c t s = do {
     let cnt = tl_count (tls s (Local_tcb c));
     let (got, s1) = (if 1 < cnt then list_trylock Global_tcb s else (False, s));
     s \<leftarrow>
       (if got then do {
          s \<leftarrow> links_add_tail t Global_tcb s1;
          s \<leftarrow> init_tcb t 0 THREAD_INIT_DESTROY (count_inc Global_tcb s);
          Some (list_unlock Global_tcb (gen_inc t s))
        } else if 4 < cnt then do {
          s \<leftarrow> list_lock Global_tcb s1;
          h \<leftarrow> dl_list_append (Head (Local_tcb c)) (Head Global_tcb) (links s);
          let s = upd_list Global_tcb (\<lambda>l. l\<lparr>tl_count := tl_count l + tl_count (tls s (Local_tcb c))\<rparr>) (s\<lparr>links := h\<rparr>);
          s \<leftarrow> init_tcb t 0 THREAD_INIT_DESTROY (list_unlock Global_tcb s);
          let s = links_init (Head (Local_tcb c)) (gen_inc t s);
          s \<leftarrow> links_add_tail t (Local_tcb c) s;
          Some (upd_list (Local_tcb c) (\<lambda>l. l\<lparr>tl_count := 1\<rparr>) s)
        } else do {
          s \<leftarrow> init_tcb t 0 THREAD_INIT_DESTROY s1;
          s \<leftarrow> links_add_tail t (Local_tcb c) (gen_inc t s);
          Some (count_inc (Local_tcb c) s)
        });
     Some (s\<lparr>g_exit_thread_cnt := atomic_inc (g_exit_thread_cnt s), g_thread_cnt := atomic_dec (g_thread_cnt s),
       tdcnt := atomic_inc (tdcnt s)\<rparr>)
   }"

definition get_tcb :: "qword \<Rightarrow> sched_state \<Rightarrow> nat option \<times> sched_state" where
  "get_tcb tid s =
     (if of_nat (MAX_PROCESSOR_COUNT + CONFIG_NUM_THREAD) \<le> tid then (None, s)
      else
        (let t = unat tid
         in if tstate (tcbs s t) = THREAD_STATE_NOTALLOC then (None, s)
            else (Some t, upd_tcb t (\<lambda>b. b\<lparr>refc := atomic_inc (refc b)\<rparr>) s)))"

definition put_tcb :: "nat \<Rightarrow> nat \<Rightarrow> sched_state \<Rightarrow> sched_state option" where
  "put_tcb c t s =
     (let (z, k) = atomic_dec_and_test (refc (tcbs s t));
          s = upd_tcb t (\<lambda>b. b\<lparr>refc := k\<rparr>) s
      in if z then
           if tstate (tcbs s t) = THREAD_STATE_EXITED then destroy_tcb c t s
           else if tstate (tcbs s t) \<noteq> THREAD_STATE_NOTALLOC then None else Some s
         else Some s)"

section \<open>Creating a thread\<close>

text \<open>\<^verbatim>\<open>*(--kstack) = v\<close>.\<close>

definition kpush :: "qword \<Rightarrow> memory \<times> qword \<Rightarrow> memory \<times> qword" where
  "kpush v mk = (store_qword (fst mk) (snd mk - 8) v, snd mk - 8)"

definition GDT_KERNEL_CODE_SEGMENT :: qword where "GDT_KERNEL_CODE_SEGMENT = 0x08"
definition GDT_KERNEL_DATA_SEGMENT :: qword where "GDT_KERNEL_DATA_SEGMENT = 0x10"
definition THREAD_FLAGS_IF :: qword where "THREAD_FLAGS_IF = 0x200"
definition THREAD_FLAGS_IOPL :: qword where "THREAD_FLAGS_IOPL = 0x3000"

definition setup_frame :: "qword \<Rightarrow> qword \<Rightarrow> qword \<Rightarrow> qword \<Rightarrow> qword \<Rightarrow> qword \<Rightarrow> memory \<Rightarrow> memory \<times> qword" where
  "setup_frame thread_exit_fn setup_fn kstack entrypoint stack_address thread_param m =
     (let m = store_qword m (stack_address + CONFIG_STACK_SIZE - 8) thread_exit_fn;
          mk = kpush GDT_KERNEL_DATA_SEGMENT (m, kstack);
          mk = kpush (stack_address + CONFIG_STACK_SIZE - 8) mk;
          mk = kpush (THREAD_FLAGS_IOPL OR THREAD_FLAGS_IF) mk;
          mk = kpush GDT_KERNEL_CODE_SEGMENT mk;
          (m, k) = kpush entrypoint mk;
          m = store_qword m (k - 48) thread_param;
          m = store_qword m (k - 56) thread_param;
          (m, k) = kpush (stack_address + CONFIG_STACK_SIZE) (m, k);
          mk = (m, k - 8 * 14);
          mk = (kpush GDT_KERNEL_DATA_SEGMENT ^^ 4) mk;
          mk = kpush setup_fn mk
      in (kpush 0 ^^ 6) mk)"

definition setup_thread :: "nat \<Rightarrow> qword \<Rightarrow> qword \<Rightarrow> qword \<Rightarrow> sched_state \<Rightarrow> sched_state" where
  "setup_thread t entrypoint stack_address thread_param s =
     (let (m, k) = setup_frame (sym_thread_exit s) (sym_return_from_setup s) (stack (tcbs s t))
                     entrypoint stack_address thread_param (mem (km s))
      in upd_tcb t (\<lambda>b. b\<lparr>stack := k, resume := From_setup\<rparr>) (s\<lparr>km := (km s)\<lparr>mem := m\<rparr>\<rparr>))"

definition create_thread :: "nat \<Rightarrow> qword \<Rightarrow> qword \<Rightarrow> int \<Rightarrow> sched_state \<Rightarrow> (int \<times> sched_state) option" where
  "create_thread c ip argv cmask s = do {
     (t, s) \<leftarrow> alloc_tcb c s;
     let s = snd (get_tcb (of_nat (tcb_id (tcbs s t))) s);
     (stack_address, k) \<leftarrow> az_alloc (km s) CONFIG_STACK_SIZE;
     s \<leftarrow> init_tcb t stack_address THREAD_INIT_CREATE (s\<lparr>km := k\<rparr>);
     let s = upd_tcb t (\<lambda>b. b\<lparr>running_core := word_of_int cmask\<rparr>) s;
     s \<leftarrow> set_core t (\<lambda>_. 0) cmask s;
     let s = setup_thread t (if ip = 0 then elf_load_entry s else ip) stack_address argv s;
     s \<leftarrow> list_lock Migrating s;
     s \<leftarrow> links_add_tail t Migrating s;
     let s = count_inc Migrating s;
     let s = upd_tcb t (\<lambda>b. b\<lparr>sched_list := Some Migrating, tstate := THREAD_STATE_READY\<rparr>) s;
     s \<leftarrow> put_tcb c t (list_unlock Migrating s);
     let s = s\<lparr>g_thread_cnt := atomic_inc (g_thread_cnt s), trcnt := atomic_inc (trcnt s)\<rparr>;
     Some (int (tcb_id (tcbs s t)), s)
   }"

definition sys_clone :: "nat \<Rightarrow> int option \<Rightarrow> qword \<Rightarrow> qword \<Rightarrow> sched_state \<Rightarrow> (int \<times> int option \<times> sched_state) option" where
  "sys_clone c idp ep argv s = do {
     (tid, s) \<leftarrow> create_thread c ep argv (- 1) s;
     if tid \<noteq> 0 then Some (0, map_option (\<lambda>_. tid) idp, s) else Some (- 1, idp, s)
   }"

section \<open>State changes and names\<close>

definition thread_exit :: "nat \<Rightarrow> sched_state \<Rightarrow> sched_state" where
  "thread_exit t = upd_tcb t (\<lambda>b. b\<lparr>tstate := THREAD_STATE_EXITED,
     intention := atomic_set (intention b) (intention b AND NOT THREAD_INTENTION_EXITED)\<rparr>)"

definition thread_suspend :: "nat \<Rightarrow> int \<Rightarrow> sched_state \<Rightarrow> (int \<times> sched_state) option" where
  "thread_suspend c tid s = do {
     let (p, s) = get_tcb (qword_of_int tid) s;
     t \<leftarrow> p;
     s \<leftarrow> put_tcb c t (upd_tcb t (\<lambda>b. b\<lparr>intention := atomic_or THREAD_INTENTION_BLOCKED (intention b)\<rparr>) s);
     Some (0, s)
   }"

definition thread_wake_up :: "nat \<Rightarrow> int \<Rightarrow> sched_state \<Rightarrow> (int \<times> sched_state) option" where
  "thread_wake_up c tid s = do {
     let (p, s) = get_tcb (qword_of_int tid) s;
     t \<leftarrow> p;
     s \<leftarrow> put_tcb c t (upd_tcb t (\<lambda>b. b\<lparr>intention := atomic_or THREAD_INTENTION_READY (intention b)\<rparr>) s);
     Some (0, s)
   }"

definition lk_thread_set_name :: "nat \<Rightarrow> qword \<Rightarrow> qword \<Rightarrow> sched_state \<Rightarrow> sched_state option" where
  "lk_thread_set_name c tid name s = do {
     let (p, s) = get_tcb tid s;
     t \<leftarrow> p;
     put_tcb c t (upd_tcb t (\<lambda>b. b\<lparr>tname := name\<rparr>) s)
   }"

fun lookup_tid_loop :: "nat \<Rightarrow> qword \<Rightarrow> nat list \<Rightarrow> sched_state \<Rightarrow> (qword \<times> sched_state) option" where
  "lookup_tid_loop c name [] s = Some (- 1, s)"
| "lookup_tid_loop c name (i # is) s =
     (case get_tcb (of_nat i) s of
        (None, s) \<Rightarrow> lookup_tid_loop c name is s
      | (Some t, s) \<Rightarrow>
          if tstate (tcbs s t) = THREAD_STATE_NOTALLOC
          then do { s \<leftarrow> put_tcb c t s; lookup_tid_loop c name is s }
          else if tname (tcbs s t) = name
          then do { s' \<leftarrow> put_tcb c t s; Some (of_nat (tcb_id (tcbs s t)), s') }
          else do { s \<leftarrow> put_tcb c t s; lookup_tid_loop c name is s })"

definition lk_thread_lookup_tid :: "nat \<Rightarrow> qword \<Rightarrow> sched_state \<Rightarrow> (qword \<times> sched_state) option" where
  "lk_thread_lookup_tid c name s =
     lookup_tid_loop c name [MAX_PROCESSOR_COUNT..<CONFIG_NUM_THREAD + MAX_PROCESSOR_COUNT] s"

fun lookup_state_loop :: "nat \<Rightarrow> qword \<Rightarrow> nat list \<Rightarrow> sched_state \<Rightarrow> sched_state option" where
  "lookup_state_loop c tid [] s = Some s"
| "lookup_state_loop c tid (i # is) s =
     (case get_tcb (of_nat i) s of
        (None, s) \<Rightarrow> lookup_state_loop c tid is s
      | (Some t, s) \<Rightarrow>
          if tname (tcbs s t) = tid then put_tcb c t s
          else do { s \<leftarrow> put_tcb c t s; lookup_state_loop c tid is s })"

definition lk_thread_lookup_state :: "nat \<Rightarrow> qword \<Rightarrow> sched_state \<Rightarrow> (qword \<times> sched_state) option" where
  "lk_thread_lookup_state c tid s = do {
     s \<leftarrow> lookup_state_loop c tid [MAX_PROCESSOR_COUNT..<CONFIG_NUM_THREAD + MAX_PROCESSOR_COUNT] s;
     Some (- 1, s)
   }"

end
