(* ===== verification/Sched.thy ===== *)
theory Sched
  imports Thread
begin

text \<open>
  The scheduler of \<^verbatim>\<open>kernel/thread.c\<close>: selection of the next thread, what happens after a context
  switch, time slices, signals, and \<^verbatim>\<open>schedule\<close> and \<^verbatim>\<open>schedule_to\<close>. A context switch is modelled
  from the core's point of view: after the caller of \<^verbatim>\<open>schedule\<close> gave up the core, the thread switched
  to continues where its kernel stack says, with the caller as \<^verbatim>\<open>prev\<close>.
\<close>

section \<open>Time slices\<close>

definition refill_time_slice :: "nat \<Rightarrow> sched_state \<Rightarrow> sched_state option" where
  "refill_time_slice t s =
     (let b = tcbs s t
      in if remaining_time_slice b \<le> 0 then
           if time_quantum b = THREAD_INFINITE_TIME_QUANTUM
           then Some (upd_tcb t (\<lambda>b. b\<lparr>remaining_time_slice := time_slice b\<rparr>) s)
           else
             (let q = remaining_time_quantum b - time_slice b
              in if q < 0 then None
                 else Some (upd_tcb t (\<lambda>b. b\<lparr>remaining_time_quantum := q, remaining_time_slice := time_slice b\<rparr>) s))
         else Some s)"

definition adjust_time_slice :: "nat \<Rightarrow> sched_state \<Rightarrow> (int \<times> sched_state) option" where
  "adjust_time_slice c s = do {
     curr \<leftarrow> get_current c s;
     (consumed_time_slice, consumed_time_tick, k) \<leftarrow> lapic_consumed_time_slice (apic s) (msr s c);
     let s = s\<lparr>apic := k\<rparr>;
     if consumed_time_slice = 0 then do {
       let s = upd_tcb curr (\<lambda>b. b\<lparr>acc_ltc := acc_ltc b + word_of_int consumed_time_tick\<rparr>) s;
       let (t, k) = lapic_get_ticks_in_1ms (apic s);
       let s = s\<lparr>apic := k\<rparr>;
       if t \<le> acc_ltc (tcbs s curr)
       then Some (1, upd_tcb curr (\<lambda>b. b\<lparr>acc_ltc := 0\<rparr>) s)
       else Some (0, s)
     }
     else Some (consumed_time_slice, s)
   }"

text \<open>The end-of-interrupt write of a pending timer interrupt goes to the core's registers.\<close>

definition decrease_remaining_time_slice :: "nat \<Rightarrow> int \<Rightarrow> sched_state \<Rightarrow> sched_state option" where
  "decrease_remaining_time_slice c consumed s = do {
     curr \<leftarrow> get_current c s;
     let s = upd_tcb curr (\<lambda>b. b\<lparr>remaining_time_slice := remaining_time_slice b - consumed\<rparr>) s;
     Some (if lapic_timer_interrupt_pending (msr s c) \<noteq> 0 then s\<lparr>msr := (msr s)(c := lapic_send_eoi (msr s c))\<rparr> else s)
   }"

definition start_oneshot :: "nat \<Rightarrow> int \<Rightarrow> sched_state \<Rightarrow> sched_state" where
  "start_oneshot c msec s = s\<lparr>msr := (msr s)(c := lapic_start_timer_oneshot (apic s) msec (msr s c))\<rparr>"

definition stop_timer :: "nat \<Rightarrow> sched_state \<Rightarrow> sched_state" where
  "stop_timer c s = s\<lparr>msr := (msr s)(c := lapic_stop_timer (msr s c))\<rparr>"

section \<open>Selecting the next thread\<close>

definition available_next :: "TCB \<Rightarrow> bool" where
  "available_next b \<longleftrightarrow> 0 < remaining_time_slice b \<and> tstate b = THREAD_STATE_READY"

text \<open>
  One iteration over the runnable list. The loop state is the thread found so far and the state;
  leaving the loop means returning the idle thread at once.
\<close>

definition select_body :: "nat \<Rightarrow> nat \<Rightarrow> nat \<Rightarrow> nat option \<times> sched_state \<Rightarrow> (bool \<times> nat option \<times> sched_state) option" where
  "select_body c cid t fs = do {
     let (found, s) = fs;
     if intention (tcbs s t) AND THREAD_INTENTION_EXITED \<noteq> 0 then do {
       curr \<leftarrow> get_current c s;
       if tcb_id (tcbs s curr) = tcb_id (tcbs s t)
       then do { s \<leftarrow> refill_time_slice cid s; Some (True, Some cid, s) }
       else do {
         s \<leftarrow> links_del_init t (count_dec (Runnable c) (thread_exit t s));
         s \<leftarrow> put_tcb c t s;
         Some (False, found, s)
       }
     }
     else if intention (tcbs s t) AND THREAD_INTENTION_BLOCKED \<noteq> 0 then do {
       s \<leftarrow> links_del_init t (count_dec (Runnable c) s);
       let s = upd_tcb t (\<lambda>b. b\<lparr>tstate := THREAD_STATE_BLOCKED,
                 intention := atomic_set (intention b) (intention b AND NOT THREAD_INTENTION_BLOCKED)\<rparr>) s;
       s \<leftarrow> links_add_tail t (Blocked c) s;
       Some (False, found, count_inc (Blocked c) s)
     }
     else if available_next (tcbs s t) then
       if core_is_allowed (tcbs s t) cid then
         if found = None
         then Some (False, Some t, (upd_tcb t (\<lambda>b. b\<lparr>tstate := THREAD_STATE_RUNNING\<rparr>) s)
                \<lparr>g_running_thread_list := (g_running_thread_list s)(cid := Some t)\<rparr>)
         else Some (False, found, s)
       else do {
         let (got, s) = list_trylock Migrating s;
         if got then do {
           s \<leftarrow> links_del_init t (count_dec (Runnable c) s);
           s \<leftarrow> links_add_tail t Migrating s;
           Some (False, found, list_unlock Migrating (count_inc Migrating s))
         }
         else Some (False, found, s)
       }
     else Some (False, found, s)
   }"

definition refill_body :: "nat \<Rightarrow> bool \<times> sched_state \<Rightarrow> (bool \<times> sched_state) option" where
  "refill_body t rs = do {
     let (refilled, s) = rs;
     if tstate (tcbs s t) = THREAD_STATE_READY \<and> remaining_time_slice (tcbs s t) \<le> 0
     then do { s \<leftarrow> refill_time_slice t s; Some (True, s) }
     else Some (refilled, s)
   }"

partial_function (option) select_retry :: "nat \<Rightarrow> nat \<Rightarrow> sched_state \<Rightarrow> (nat \<times> sched_state) option" where
  "select_retry c cid s = do {
     (early, found, s) \<leftarrow> dl_list_for_each_safe (\<lambda>fs. links (snd fs)) (select_body c cid) (Runnable c) (None, s);
     case found of
       Some t \<Rightarrow> Some (t, s)
     | None \<Rightarrow> do {
         (refilled, s) \<leftarrow> dl_list_for_each (\<lambda>rs. links (snd rs)) refill_body (Runnable c) (False, s);
         if refilled then select_retry c cid s
         else if tl_count (tls s (Runnable c)) = 1
         then do { t \<leftarrow> entry (dl_list_first (Head (Runnable c)) (links s)); Some (t, s) }
         else Some (cid, s)
       }
   }"

definition select_next_thread :: "nat \<Rightarrow> sched_state \<Rightarrow> (nat \<times> sched_state) option" where
  "select_next_thread c s = do {
     curr \<leftarrow> get_current c s;
     select_retry c (unat (running_core (tcbs s curr))) s
   }"

section \<open>Load balancing\<close>

definition ISONLY_CORE_MASK :: "core_set_t \<Rightarrow> nat \<Rightarrow> int" where
  "ISONLY_CORE_MASK cm cid = 0"

text \<open>The number of threads of a core: its runnable list and a running thread that is not idle.\<close>

definition core_threads :: "sched_state \<Rightarrow> nat \<Rightarrow> nat \<Rightarrow> qword" where
  "core_threads s i t =
     (if MAX_PROCESSOR_COUNT \<le> tcb_id (tcbs s t) then tl_count (tls s (Runnable i)) + 1 else tl_count (tls s (Runnable i)))"

fun min_thread_loop :: "sched_state \<Rightarrow> nat \<Rightarrow> nat \<Rightarrow> nat list \<Rightarrow> qword \<Rightarrow> nat \<Rightarrow> qword \<times> nat" where
  "min_thread_loop s nt cid [] mn mc = (mn, mc)"
| "min_thread_loop s nt cid (i # is) mn mc =
     (case g_running_thread_list s i of
        None \<Rightarrow> min_thread_loop s nt cid is mn mc
      | Some t \<Rightarrow>
          if i = cid \<or> \<not> core_is_allowed (tcbs s nt) i then min_thread_loop s nt cid is mn mc
          else if core_threads s i t < mn
          then (if core_threads s i t = 0 then (core_threads s i t, i)
                else min_thread_loop s nt cid is (core_threads s i t) i)
          else min_thread_loop s nt cid is mn mc)"

definition get_cid_of_min_thread :: "nat \<Rightarrow> nat \<Rightarrow> sched_state \<Rightarrow> nat option" where
  "get_cid_of_min_thread nt cid s =
     (if ISONLY_CORE_MASK (core_mask (tcbs s nt)) cid = 0 then Some cid
      else do {
        t \<leftarrow> g_running_thread_list s cid;
        let n = core_threads s cid t;
        if n = 0 then Some cid
        else
          (case min_thread_loop s nt cid [0..<MAX_PROCESSOR_COUNT] (- 1) cid of
             (mn, mc) \<Rightarrow> if n \<le> mn then Some cid else Some mc)
      })"

section \<open>After a context switch\<close>

definition post_prev :: "nat \<Rightarrow> nat \<Rightarrow> sched_state \<Rightarrow> sched_state option" where
  "post_prev c prev s =
     (let b = tcbs s prev
      in if tstate b = THREAD_STATE_EXITED \<or> tstate b = THREAD_STATE_NOTALLOC then Some s
         else if intention b AND THREAD_INTENTION_READY \<noteq> 0 then
           Some (upd_tcb prev (\<lambda>b. b\<lparr>tstate := THREAD_STATE_READY, intention := atomic_set (intention b)
             (intention b AND NOT (THREAD_INTENTION_READY OR THREAD_INTENTION_BLOCKED))\<rparr>) s)
         else if intention b AND THREAD_INTENTION_BLOCKED \<noteq> 0 then do {
           s \<leftarrow> links_del_init prev (count_dec (Runnable c) s);
           let s = upd_tcb prev (\<lambda>b. b\<lparr>tstate := THREAD_STATE_BLOCKED,
                     intention := atomic_set (intention b) (intention b AND NOT THREAD_INTENTION_BLOCKED)\<rparr>) s;
           s \<leftarrow> links_add_tail prev (Blocked c) s;
           Some (count_inc (Blocked c) s)
         }
         else if intention b AND THREAD_INTENTION_EXITED \<noteq> 0 then do {
           curr \<leftarrow> get_current c s;
           if tcb_id (tcbs s curr) = tcb_id (tcbs s prev) then Some s
           else do {
             s \<leftarrow> links_del_init prev (count_dec (Runnable c) (thread_exit prev s));
             put_tcb c prev s
           }
         }
         else Some s)"

definition cores_full :: "nat \<Rightarrow> sched_state \<Rightarrow> bool" where
  "cores_full c s \<longleftrightarrow> tl_count (tls s (Runnable c)) + tl_count (tls s (Blocked c)) = RUNNABLE_MAX"

text \<open>Moving a thread of the migrating list to the runnable list of the core.\<close>

definition adopt :: "nat \<Rightarrow> nat \<Rightarrow> nat \<Rightarrow> sched_state \<Rightarrow> sched_state option" where
  "adopt c cid t s = do {
     s \<leftarrow> links_del_init t s;
     s \<leftarrow> links_add_tail t (Runnable c) (count_dec Migrating s);
     Some (upd_tcb t (\<lambda>b. b\<lparr>running_core := of_nat cid\<rparr>) (count_inc (Runnable c) s))
   }"

definition migrate_own_body :: "nat \<Rightarrow> nat \<Rightarrow> nat \<Rightarrow> sched_state \<Rightarrow> (bool \<times> sched_state) option" where
  "migrate_own_body c cid t s = do {
     s \<leftarrow> (if unat (running_core (tcbs s t)) = cid then adopt c cid t s else Some s);
     Some (cores_full c s, s)
   }"

definition migrate_one_body :: "nat \<Rightarrow> nat \<Rightarrow> nat \<Rightarrow> sched_state \<Rightarrow> (bool \<times> sched_state) option" where
  "migrate_one_body c cid t s =
     (if core_is_allowed (tcbs s t) cid then do {
        min_cid \<leftarrow> get_cid_of_min_thread t cid s;
        if cid = min_cid then do { s \<leftarrow> adopt c cid t s; Some (True, s) }
        else Some (cores_full c s, s)
      }
      else Some (cores_full c s, s))"

definition pull_migrating :: "nat \<Rightarrow> sched_state \<Rightarrow> sched_state option" where
  "pull_migrating c s =
     (if tl_count (tls s (Runnable c)) + tl_count (tls s (Blocked c)) < RUNNABLE_MAX then
        if tl_count (tls s Migrating) \<noteq> 0 then do {
          let (got, s) = list_trylock Migrating s;
          if got then do {
            curr \<leftarrow> get_current c s;
            let cid = unat (running_core (tcbs s curr));
            (found, s) \<leftarrow> dl_list_for_each_safe links (migrate_own_body c cid) Migrating s;
            (_, s) \<leftarrow> (if found then Some (False, s)
                      else dl_list_for_each_safe links (migrate_one_body c cid) Migrating s);
            Some (list_unlock Migrating s)
          }
          else Some s
        }
        else Some s
      else Some s)"

definition wake_body :: "nat \<Rightarrow> nat \<Rightarrow> sched_state \<Rightarrow> (bool \<times> sched_state) option" where
  "wake_body c t s =
     (if intention (tcbs s t) AND THREAD_INTENTION_EXITED \<noteq> 0 then do {
        curr \<leftarrow> get_current c s;
        if tcb_id (tcbs s curr) = tcb_id (tcbs s t) then Some (False, s)
        else do {
          s \<leftarrow> links_del_init t (count_dec (Blocked c) (thread_exit t s));
          s \<leftarrow> put_tcb c t s;
          Some (False, s)
        }
      }
      else if intention (tcbs s t) AND THREAD_INTENTION_READY \<noteq> 0 then do {
        s \<leftarrow> links_del_init t (count_dec (Blocked c) s);
        let s = upd_tcb t (\<lambda>b. b\<lparr>tstate := THREAD_STATE_READY, intention := atomic_set (intention b)
                  (intention b AND NOT (THREAD_INTENTION_READY OR THREAD_INTENTION_BLOCKED))\<rparr>) s;
        s \<leftarrow> links_add_tail t (Runnable c) s;
        Some (False, count_inc (Runnable c) s)
      }
      else Some (False, s))"

definition wake_blocked :: "nat \<Rightarrow> sched_state \<Rightarrow> sched_state option" where
  "wake_blocked c s =
     (if tl_count (tls s (Blocked c)) \<noteq> 0
      then map_option snd (dl_list_for_each_safe links (wake_body c) (Blocked c) s)
      else Some s)"

definition post_context_switch :: "nat \<Rightarrow> nat \<Rightarrow> sched_state \<Rightarrow> sched_state option" where
  "post_context_switch c prev s = do {
     s \<leftarrow> post_prev c prev s;
     s \<leftarrow> pull_migrating c s;
     wake_blocked c s
   }"

section \<open>Signals\<close>

text \<open>A call of the handler is recorded in \<^const>\<open>delivered\<close>; a call of address 0 faults.\<close>

definition call_handler :: "nat \<Rightarrow> qword \<Rightarrow> int \<Rightarrow> sched_state \<Rightarrow> sched_state option" where
  "call_handler t handler n s =
     (if handler = 0 then None else Some (s\<lparr>delivered := delivered s @ [(t, handler, n)]\<rparr>))"

definition signal_list_init :: "nat \<Rightarrow> sched_state \<Rightarrow> sched_state" where
  "signal_list_init i s =
     s\<lparr>sig_tls := (sig_tls s)(i := \<lparr>tl_lock = spinlock_init (tl_lock (sig_tls s i)), tl_count = 0\<rparr>),
       sig_links := dl_list_init (Head i) (sig_links s)\<rparr>"

definition signal_init :: "sched_state \<Rightarrow> sched_state" where
  "signal_init s = fold signal_list_init [0..<MAX_PROCESSOR_COUNT] s"

definition sys_signal :: "nat \<Rightarrow> qword \<Rightarrow> sched_state \<Rightarrow> (int \<times> sched_state) option" where
  "sys_signal c handler s = do {
     curr \<leftarrow> get_current c s;
     Some (0, upd_tcb curr (\<lambda>b. b\<lparr>signal_handler := handler\<rparr>) s)
   }"

definition sys_kill :: "nat \<Rightarrow> int \<Rightarrow> int \<Rightarrow> sched_state \<Rightarrow> (int \<times> sched_state) option" where
  "sys_kill c dest n s = do {
     curr \<leftarrow> get_current c s;
     let (p, s) = get_tcb (qword_of_int dest) s;
     t \<leftarrow> p;
     let dest_core = unat (running_core (tcbs s t));
     if tcb_id (tcbs s t) = tcb_id (tcbs s curr) then do {
       s \<leftarrow> (if signal_handler (tcbs s curr) \<noteq> 0 then call_handler curr (signal_handler (tcbs s curr)) n s else Some s);
       s \<leftarrow> put_tcb c t s;
       Some (0, s)
     }
     else do {
       (a, k) \<leftarrow> az_alloc (km s) 24;
       if a = 0 then None
       else do {
         let s = s\<lparr>km := k, sigs := (sigs s)(a := \<lparr>sig_dest = dest, signum = n\<rparr>)\<rparr>;
         l \<leftarrow> spinlock_lock (tl_lock (sig_tls s dest_core));
         h \<leftarrow> dl_list_add_tail (Item a) (Head dest_core) (sig_links s);
         let s = s\<lparr>sig_links := h,
                   sig_tls := (sig_tls s)(dest_core :=
                     \<lparr>tl_lock = spinlock_unlock l, tl_count = tl_count (sig_tls s dest_core) + 1\<rparr>)\<rparr>;
         s \<leftarrow> put_tcb c t (upd_tcb t (\<lambda>b. b\<lparr>signal_flag := 1\<rparr>) s);
         Some (0, s)
       }
     }
   }"

definition signal_body :: "nat \<Rightarrow> qword \<Rightarrow> nat \<Rightarrow> qword \<Rightarrow> sched_state \<Rightarrow> (bool \<times> sched_state) option" where
  "signal_body c handler t a s =
     (if sig_dest (sigs s a) = int t then do {
        s \<leftarrow> call_handler t handler (signum (sigs s a)) s;
        h \<leftarrow> dl_list_del (Item a) (sig_links s);
        let s = s\<lparr>sig_links := h,
                  sig_tls := (sig_tls s)(c := (sig_tls s c)\<lparr>tl_count := tl_count (sig_tls s c) - 1\<rparr>)\<rparr>;
        (_, k) \<leftarrow> az_free (km s) a;
        Some (False, s\<lparr>km := k\<rparr>)
      }
      else Some (False, s))"

definition do_signal :: "nat \<Rightarrow> qword \<Rightarrow> nat \<Rightarrow> sched_state \<Rightarrow> sched_state option" where
  "do_signal c handler t s = do {
     l \<leftarrow> spinlock_lock (tl_lock (sig_tls s c));
     let s = s\<lparr>sig_tls := (sig_tls s)(c := (sig_tls s c)\<lparr>tl_lock := l\<rparr>)\<rparr>;
     (_, s) \<leftarrow> dl_list_for_each_safe sig_links (signal_body c handler t) c s;
     Some (s\<lparr>sig_tls := (sig_tls s)(c := (sig_tls s c)\<lparr>tl_lock := spinlock_unlock (tl_lock (sig_tls s c))\<rparr>)\<rparr>)
   }"

section \<open>schedule\<close>

text \<open>
  \<^verbatim>\<open>context_switch\<close> and what runs after it: the thread switched to finishes the switch for \<open>prev\<close>, and
  unless it starts for the first time it then handles its signals.
\<close>

definition switch_to :: "nat \<Rightarrow> nat \<Rightarrow> nat \<Rightarrow> sched_state \<Rightarrow> sched_state option" where
  "switch_to c prev nxt s = do {
     let s = upd_tcb prev (\<lambda>b. b\<lparr>resume := From_schedule\<rparr>) s;
     s \<leftarrow> post_context_switch c prev s;
     let b = tcbs s nxt;
     if resume b = From_schedule \<and> signal_flag b \<noteq> 0 then do {
       s \<leftarrow> do_signal c (signal_handler b) (tcb_id b) s;
       Some (upd_tcb nxt (\<lambda>b. b\<lparr>signal_flag := 0, signal_handler := 0\<rparr>) s)
     }
     else Some s
   }"

text \<open>The common beginning: account the time used and record the intention of the caller.\<close>

definition schedule_begin :: "nat \<Rightarrow> dword \<Rightarrow> sched_state \<Rightarrow> (nat \<times> sched_state) option" where
  "schedule_begin c intent s = do {
     curr \<leftarrow> get_current c s;
     (consumed, s) \<leftarrow> adjust_time_slice c s;
     s \<leftarrow> decrease_remaining_time_slice c consumed (stop_timer c s);
     Some (curr, upd_tcb curr (\<lambda>b. b\<lparr>intention := atomic_set (intention b) (intent OR intention b)\<rparr>) s)
   }"

definition schedule :: "nat \<Rightarrow> dword \<Rightarrow> sched_state \<Rightarrow> (bool \<times> sched_state) option" where
  "schedule c intent s = do {
     (curr, s) \<leftarrow> schedule_begin c intent s;
     let cid = unat (running_core (tcbs s curr));
     (nxt, s) \<leftarrow> select_next_thread c s;
     if nxt = curr then do {
       s \<leftarrow> refill_time_slice curr s;
       s \<leftarrow> post_context_switch c curr (start_oneshot c (remaining_time_slice (tcbs s curr)) s);
       Some (True, upd_tcb curr (\<lambda>b. b\<lparr>tstate := THREAD_STATE_RUNNING,
         intention := atomic_set (intention b) (intention b AND NOT THREAD_INTENTION_READY)\<rparr>) s)
     }
     else do {
       s \<leftarrow> (if remaining_time_slice (tcbs s nxt) \<le> 0 then refill_time_slice nxt s else Some s);
       let s = start_oneshot c (remaining_time_slice (tcbs s nxt)) s;
       let s = upd_tcb nxt (\<lambda>b. b\<lparr>running_core := of_nat cid\<rparr>) s;
       s \<leftarrow> switch_to c curr nxt (s\<lparr>running_thread := (running_thread s)(c := Some nxt)\<rparr>);
       Some (False, s)
     }
   }"

definition schedule_to :: "nat \<Rightarrow> int \<Rightarrow> dword \<Rightarrow> sched_state \<Rightarrow> (bool \<times> sched_state) option" where
  "schedule_to c next_tid intent s = do {
     (curr, s) \<leftarrow> schedule_begin c intent s;
     let cid = unat (running_core (tcbs s curr));
     let (p, s) = get_tcb (qword_of_int next_tid) s;
     nxt \<leftarrow> p;
     (stay, nxt, s) \<leftarrow>
       (if running_core (tcbs s nxt) = running_core (tcbs s curr) \<and> core_is_allowed (tcbs s nxt) cid then do {
          s \<leftarrow> (if remaining_time_slice (tcbs s nxt) \<le> 0 then refill_time_slice nxt s else Some s);
          let s = start_oneshot c (remaining_time_slice (tcbs s nxt)) s;
          let s = upd_tcb nxt (\<lambda>b. b\<lparr>tstate := THREAD_STATE_RUNNING\<rparr>) s;
          Some (False, nxt, s\<lparr>g_running_thread_list := (g_running_thread_list s)(cid := Some nxt)\<rparr>)
        }
        else do {
          s \<leftarrow> put_tcb c nxt s;
          (nxt, s) \<leftarrow> select_next_thread c s;
          s \<leftarrow> (if remaining_time_slice (tcbs s nxt) \<le> 0 then refill_time_slice nxt s else Some s);
          let s = start_oneshot c (remaining_time_slice (tcbs s nxt)) s;
          if nxt = curr then do {
            s \<leftarrow> post_context_switch c curr (upd_tcb curr (\<lambda>b. b\<lparr>tstate := THREAD_STATE_RUNNING\<rparr>) s);
            Some (True, nxt, s)
          }
          else Some (False, nxt, snd (get_tcb (of_nat (tcb_id (tcbs s nxt))) s))
        });
     if stay then Some (True, s)
     else do {
       let s = upd_tcb nxt (\<lambda>b. b\<lparr>running_core := of_nat cid\<rparr>) s;
       let s = s\<lparr>running_thread := (running_thread s)(c := Some nxt)\<rparr>;
       s \<leftarrow> put_tcb c nxt s;
       s \<leftarrow> switch_to c curr nxt s;
       Some (False, s)
     }
   }"

text \<open>\<^verbatim>\<open>__thread_exit\<close>: the current thread records that it exits and gives up the core.\<close>

definition thread_exit_current :: "nat \<Rightarrow> sched_state \<Rightarrow> (int \<times> sched_state) option" where
  "thread_exit_current c s = do {
     curr \<leftarrow> get_current c s;
     let (p, s) = get_tcb (of_nat (tcb_id (tcbs s curr))) s;
     t \<leftarrow> p;
     let s = upd_tcb t (\<lambda>b. b\<lparr>intention := atomic_set (intention b) THREAD_INTENTION_EXITED, tname := THREAD_INIT_NAME\<rparr>) s;
     s \<leftarrow> put_tcb c t s;
     (_, s) \<leftarrow> schedule c THREAD_INTENTION_EXITED s;
     Some (0, s)
   }"

definition setup_idle_thread :: "nat \<Rightarrow> sched_state \<Rightarrow> sched_state option" where
  "setup_idle_thread c s = do {
     let (t, s) = alloc_tcb_idle c s;
     s \<leftarrow> init_tcb t 0 THREAD_INIT_IDLE s;
     let s = upd_tcb t (\<lambda>b. b\<lparr>tstate := THREAD_STATE_RUNNING\<rparr>) s;
     let s = s\<lparr>g_running_thread_list := (g_running_thread_list s)(c := Some t),
               running_thread := (running_thread s)(c := Some t)\<rparr>;
     Some (start_oneshot c (remaining_time_slice (tcbs s t)) s)
   }"

definition sys_getpid :: "nat \<Rightarrow> sched_state \<Rightarrow> int option" where
  "sys_getpid c s = do { curr \<leftarrow> get_current c s; Some (int (tcb_id (tcbs s curr))) }"

end
