(* ===== verification/SchedInv.thy ===== *)
theory SchedInv
  imports Sched
begin

text \<open>
  The invariant of the scheduler: which list every thread control block is in, what its state is
  there, and that the stacks of the threads are live blocks of the kernel's allocator.
\<close>

section \<open>Fields\<close>

lemma upd_tcb_fields [simp]:
  "tcbs (upd_tcb t f s) = (tcbs s)(t := f (tcbs s t))" "links (upd_tcb t f s) = links s"
  "tls (upd_tcb t f s) = tls s" "running_thread (upd_tcb t f s) = running_thread s"
  "g_running_thread_list (upd_tcb t f s) = g_running_thread_list s" "km (upd_tcb t f s) = km s"
  "apic (upd_tcb t f s) = apic s" "msr (upd_tcb t f s) = msr s" "tcb_base_addr (upd_tcb t f s) = tcb_base_addr s"
  "g_thread_cnt (upd_tcb t f s) = g_thread_cnt s" "sig_tls (upd_tcb t f s) = sig_tls s"
  "sig_links (upd_tcb t f s) = sig_links s" "delivered (upd_tcb t f s) = delivered s" "sigs (upd_tcb t f s) = sigs s"
  by (simp_all add: upd_tcb_def)

lemma upd_list_fields [simp]:
  "tcbs (upd_list l f s) = tcbs s" "links (upd_list l f s) = links s"
  "tls (upd_list l f s) = (tls s)(l := f (tls s l))" "running_thread (upd_list l f s) = running_thread s"
  "g_running_thread_list (upd_list l f s) = g_running_thread_list s" "km (upd_list l f s) = km s"
  "apic (upd_list l f s) = apic s" "msr (upd_list l f s) = msr s" "tcb_base_addr (upd_list l f s) = tcb_base_addr s"
  "g_thread_cnt (upd_list l f s) = g_thread_cnt s" "sig_tls (upd_list l f s) = sig_tls s"
  "sig_links (upd_list l f s) = sig_links s" "delivered (upd_list l f s) = delivered s" "sigs (upd_list l f s) = sigs s"
  by (simp_all add: upd_list_def)

lemmas list_op_defs = count_inc_def count_dec_def list_unlock_def list_trylock_def

lemma links_init_fields [simp]:
  "tcbs (links_init n s) = tcbs s" "links (links_init n s) = dl_list_init n (links s)"
  "tls (links_init n s) = tls s" "running_thread (links_init n s) = running_thread s"
  "g_running_thread_list (links_init n s) = g_running_thread_list s" "km (links_init n s) = km s"
  "apic (links_init n s) = apic s" "msr (links_init n s) = msr s" "tcb_base_addr (links_init n s) = tcb_base_addr s"
  by (simp_all add: links_init_def)

section \<open>The invariant\<close>

abbreviation NT :: nat where "NT \<equiv> MAX_PROCESSOR_COUNT + CONFIG_NUM_THREAD"

definition pool_tids :: "nat set" where
  "pool_tids = {MAX_PROCESSOR_COUNT..<NT}"

definition list_ids :: "list_id set" where
  "list_ids = Runnable ` {..<MAX_PROCESSOR_COUNT} \<union> Blocked ` {..<MAX_PROCESSOR_COUNT} \<union>
     Local_tcb ` {..<MAX_PROCESSOR_COUNT} \<union> {Global_tcb, Migrating}"

lemma list_ids_simps [simp]:
  "Runnable c \<in> list_ids \<longleftrightarrow> c < MAX_PROCESSOR_COUNT" "Blocked c \<in> list_ids \<longleftrightarrow> c < MAX_PROCESSOR_COUNT"
  "Local_tcb c \<in> list_ids \<longleftrightarrow> c < MAX_PROCESSOR_COUNT" "Global_tcb \<in> list_ids" "Migrating \<in> list_ids"
  by (auto simp: list_ids_def)

text \<open>What holds of the blocks in a list.\<close>

fun listed_ok :: "list_id \<Rightarrow> TCB \<Rightarrow> bool" where
  "listed_ok (Runnable c) b \<longleftrightarrow> tstate b \<in> {THREAD_STATE_READY, THREAD_STATE_RUNNING} \<and> running_core b = of_nat c \<and> refc b = 1"
| "listed_ok (Blocked c) b \<longleftrightarrow> tstate b \<in> {THREAD_STATE_BLOCKED, THREAD_STATE_READY} \<and> running_core b = of_nat c \<and> refc b = 1"
| "listed_ok (Local_tcb c) b \<longleftrightarrow> tstate b = THREAD_STATE_NOTALLOC \<and> refc b = 0"
| "listed_ok Global_tcb b \<longleftrightarrow> tstate b = THREAD_STATE_NOTALLOC \<and> refc b = 0"
| "listed_ok Migrating b \<longleftrightarrow> tstate b = THREAD_STATE_READY \<and> refc b = 1"

text \<open>What holds of every block.\<close>

definition tcb_ok :: "nat \<Rightarrow> TCB \<Rightarrow> bool" where
  "tcb_ok t b \<longleftrightarrow> tcb_id b = t \<and> 0 < time_slice b \<and> time_quantum b = 0 \<and> signal_flag b = 0"

definition idle_ok :: "nat \<Rightarrow> TCB \<Rightarrow> bool" where
  "idle_ok c b \<longleftrightarrow> tstate b \<notin> {THREAD_STATE_EXITED, THREAD_STATE_NOTALLOC} \<and> running_core b = of_nat c \<and>
     intention b AND (THREAD_INTENTION_BLOCKED OR THREAD_INTENTION_EXITED) = 0"

definition stack_addr :: "TCB \<Rightarrow> qword" where
  "stack_addr b = stack_base b - CONFIG_STACK_SIZE"

definition allocated :: "sched_state \<Rightarrow> nat set" where
  "allocated s = {t\<in>pool_tids. tstate (tcbs s t) \<noteq> THREAD_STATE_NOTALLOC}"

text \<open>The stacks of the allocated threads are different live blocks, or NULL after a failed allocation.\<close>

definition stacks_ok :: "nat set \<Rightarrow> (nat \<Rightarrow> TCB) \<Rightarrow> mem_state \<Rightarrow> bool" where
  "stacks_ok A B k \<longleftrightarrow>
     (\<forall>t\<in>A. stack_addr (B t) = 0 \<or> stack_addr (B t) \<in> fst ` kernel_live k) \<and>
     inj_on (\<lambda>t. stack_addr (B t)) {t\<in>A. stack_addr (B t) \<noteq> 0}"

definition lists_ok :: "nat set \<Rightarrow> (list_id \<Rightarrow> nat list) \<Rightarrow> sched_state \<Rightarrow> bool" where
  "lists_ok X LS s \<longleftrightarrow>
     lists_rep list_ids (links s) LS \<and>
     (\<forall>l\<in>list_ids. tl_count (tls s l) = of_nat (length (LS l))) \<and>
     (\<Union>l\<in>list_ids. set (LS l)) = pool_tids - X \<and>
     (\<forall>l\<in>list_ids. \<forall>t\<in>set (LS l). listed_ok l (tcbs s t))"

definition base_ok :: "sched_state \<Rightarrow> bool" where
  "base_ok s \<longleftrightarrow>
     (\<forall>t<NT. tcb_ok t (tcbs s t)) \<and> (\<forall>c<MAX_PROCESSOR_COUNT. idle_ok c (tcbs s c)) \<and>
     stacks_ok (allocated s) (tcbs s) (km s) \<and> kernel_ok (km s) \<and> 10 \<le> ticks_in_10ms (apic s) \<and>
     lock (tl_lock (tls s Global_tcb)) = 0 \<and> lock (tl_lock (tls s Migrating)) = 0"

text \<open>\<open>X\<close> holds the blocks that an operation is moving and that are in no list.\<close>

definition sched_ok :: "nat set \<Rightarrow> (list_id \<Rightarrow> nat list) \<Rightarrow> sched_state \<Rightarrow> bool" where
  "sched_ok X LS s \<longleftrightarrow> lists_ok X LS s \<and> base_ok s"

lemma lists_okD:
  assumes "lists_ok X LS s"
  shows "lists_rep list_ids (links s) LS" "l \<in> list_ids \<Longrightarrow> tl_count (tls s l) = of_nat (length (LS l))"
    "l \<in> list_ids \<Longrightarrow> t \<in> set (LS l) \<Longrightarrow> listed_ok l (tcbs s t)"
    "l \<in> list_ids \<Longrightarrow> t \<in> set (LS l) \<Longrightarrow> t \<in> pool_tids - X" "(\<Union>l\<in>list_ids. set (LS l)) = pool_tids - X"
  using assms by (auto simp: lists_ok_def)

lemma base_okD:
  assumes "base_ok s"
  shows "t < NT \<Longrightarrow> tcb_ok t (tcbs s t)" "c < MAX_PROCESSOR_COUNT \<Longrightarrow> idle_ok c (tcbs s c)"
    "stacks_ok (allocated s) (tcbs s) (km s)" "kernel_ok (km s)" "10 \<le> ticks_in_10ms (apic s)"
    "lock (tl_lock (tls s Global_tcb)) = 0" "lock (tl_lock (tls s Migrating)) = 0"
  using assms by (auto simp: base_ok_def)

lemma sched_okD: "sched_ok X LS s \<Longrightarrow> lists_ok X LS s" "sched_ok X LS s \<Longrightarrow> base_ok s"
  by (simp_all add: sched_ok_def)

text \<open>A block is in at most one list.\<close>

lemma one_list:
  assumes "lists_ok X LS s" "l \<in> list_ids" "m \<in> list_ids" "t \<in> set (LS l)" "t \<in> set (LS m)"
  shows "l = m"
  using lists_repD(3) [OF lists_okD(1) [OF assms(1)] assms(2,3)] assms(4,5) by auto

lemma pool_NT: "t \<in> pool_tids \<Longrightarrow> t < NT" "t \<in> pool_tids \<Longrightarrow> \<not> t < MAX_PROCESSOR_COUNT"
  by (auto simp: pool_tids_def)

section \<open>Moving blocks between lists\<close>

text \<open>Replacing the lists and the blocks of a state when the lists stay a partition of the pool.\<close>

lemma lists_ok_I:
  assumes "lists_rep list_ids (links s') LS'"
    and "\<And>l. l \<in> list_ids \<Longrightarrow> tl_count (tls s' l) = of_nat (length (LS' l))"
    and "(\<Union>l\<in>list_ids. set (LS' l)) = pool_tids - X"
    and "\<And>l t. l \<in> list_ids \<Longrightarrow> t \<in> set (LS' l) \<Longrightarrow> listed_ok l (tcbs s' t)"
  shows "lists_ok X LS' s'"
  using assms by (simp add: lists_ok_def)

lemma union_upd:
  "l \<in> L \<Longrightarrow> (\<Union>m\<in>L. set ((LS(l := xs)) m)) = set xs \<union> (\<Union>m\<in>L - {l}. set (LS m))"
  by (auto split: if_splits)

text \<open>Taking a block out of its list.\<close>

lemma union_remove:
  assumes "lists_ok X LS s" "l \<in> list_ids" "t \<in> set (LS l)"
  shows "(\<Union>m\<in>list_ids. set ((LS(l := remove1 t (LS l))) m)) = pool_tids - insert t X"
proof -
  have d: "distinct (LS l)" using lists_repD(2) [OF lists_okD(1) [OF assms(1)] assms(2)] .
  have "t \<notin> (\<Union>m\<in>list_ids - {l}. set (LS m))" using one_list [OF assms(1,2)] assms(3) by blast
  moreover have "(\<Union>m\<in>list_ids. set (LS m)) = set (LS l) \<union> (\<Union>m\<in>list_ids - {l}. set (LS m))"
    using assms(2) by auto
  ultimately show ?thesis
    unfolding union_upd [OF assms(2)] using lists_okD(5) [OF assms(1)] d by auto
qed

lemma union_add:
  assumes "lists_ok X LS s" "l \<in> list_ids" "t \<in> X" "t \<in> pool_tids"
  shows "(\<Union>m\<in>list_ids. set ((LS(l := LS l @ [t])) m)) = pool_tids - (X - {t})"
proof -
  have "(\<Union>m\<in>list_ids. set (LS m)) = set (LS l) \<union> (\<Union>m\<in>list_ids - {l}. set (LS m))"
    using assms(2) by auto
  then show ?thesis
    unfolding union_upd [OF assms(2)] using lists_okD(5) [OF assms(1)] assms(3,4) by auto
qed

lemma take_out:
  assumes o: "lists_ok X LS s" and l: "l \<in> list_ids" and t: "t \<in> set (LS l)"
  obtains h where "\<And>s'. links s' = links s \<Longrightarrow> links_del_init t s' = Some (s'\<lparr>links := h\<rparr>)"
    "\<And>s'. links s' = h \<Longrightarrow> (\<forall>m. tl_count (tls s' m) = tl_count (tls s m) - (if m = l then 1 else 0)) \<Longrightarrow>
      (\<forall>u. u \<noteq> t \<longrightarrow> tcbs s' u = tcbs s u) \<Longrightarrow> lists_ok (insert t X) (LS(l := remove1 t (LS l))) s'"
proof -
  obtain h where h: "dl_list_del_init (Item t) (links s) = Some h" "lists_rep list_ids h (LS(l := remove1 t (LS l)))"
    using rep_del_init [OF lists_okD(1) [OF o] l t] by blast
  have n: "length (LS l) = Suc (length (remove1 t (LS l)))" using t by (simp add: length_remove1) (metis Suc_pred length_pos_if_in_set)
  have d: "t \<notin> set (remove1 t (LS l))" using lists_repD(2) [OF lists_okD(1) [OF o] l] by simp
  have "lists_ok (insert t X) (LS(l := remove1 t (LS l))) s'"
    if s': "links s' = h" "\<forall>m. tl_count (tls s' m) = tl_count (tls s m) - (if m = l then 1 else 0)"
      "\<forall>u. u \<noteq> t \<longrightarrow> tcbs s' u = tcbs s u" for s'
  proof (rule lists_ok_I)
    show "tl_count (tls s' m) = of_nat (length ((LS(l := remove1 t (LS l))) m))" if "m \<in> list_ids" for m
      using lists_okD(2) [OF o that] n s'(2) by (cases "m = l") simp_all
    show "listed_ok m (tcbs s' u)" if "m \<in> list_ids" "u \<in> set ((LS(l := remove1 t (LS l))) m)" for m u
    proof -
      have "u \<in> set (LS m)" "u \<noteq> t"
        using that d set_remove1_subset [of t "LS l"] one_list [OF o l that(1) t] by (auto split: if_splits)
      then show ?thesis using lists_okD(3) [OF o that(1)] s'(3) by simp
    qed
  qed (use h(2) s'(1) union_remove [OF o l t] in simp_all)
  then show thesis using h(1) by (intro that [of h]) (simp_all add: links_del_init_def)
qed

lemma put_in:
  assumes o: "lists_ok X LS s" and l: "l \<in> list_ids" and t: "t \<in> X" "t \<in> pool_tids"
  obtains h where "\<And>s'. links s' = links s \<Longrightarrow> links_add_tail t l s' = Some (s'\<lparr>links := h\<rparr>)"
    "\<And>s'. links s' = h \<Longrightarrow> (\<forall>m. tl_count (tls s' m) = tl_count (tls s m) + (if m = l then 1 else 0)) \<Longrightarrow>
      (\<forall>u. u \<noteq> t \<longrightarrow> tcbs s' u = tcbs s u) \<Longrightarrow> listed_ok l (tcbs s' t) \<Longrightarrow> lists_ok (X - {t}) (LS(l := LS l @ [t])) s'"
proof -
  have nt: "t \<notin> set (LS m)" if "m \<in> list_ids" for m using lists_okD(4) [OF o that] t(1) by blast
  then obtain h where h: "dl_list_add_tail (Item t) (Head l) (links s) = Some h" "lists_rep list_ids h (LS(l := LS l @ [t]))"
    using rep_add_tail [OF lists_okD(1) [OF o] l, of t] by blast
  have "lists_ok (X - {t}) (LS(l := LS l @ [t])) s'"
    if s': "links s' = h" "\<forall>m. tl_count (tls s' m) = tl_count (tls s m) + (if m = l then 1 else 0)"
      "\<forall>u. u \<noteq> t \<longrightarrow> tcbs s' u = tcbs s u" "listed_ok l (tcbs s' t)" for s'
  proof (rule lists_ok_I)
    show "tl_count (tls s' m) = of_nat (length ((LS(l := LS l @ [t])) m))" if "m \<in> list_ids" for m
      using lists_okD(2) [OF o that] s'(2) by (cases "m = l") simp_all
    show "listed_ok m (tcbs s' u)" if "m \<in> list_ids" "u \<in> set ((LS(l := LS l @ [t])) m)" for m u
      using lists_okD(3) [OF o that(1), of u] that s'(3,4) nt [OF that(1)] by (cases "u = t") (auto split: if_splits)
  qed (use h(2) s'(1) union_add [OF o l t] in simp_all)
  then show thesis using h(1) by (intro that [of h]) (simp_all add: links_add_tail_def)
qed

text \<open>Changing blocks that are in no list, or a block in a way that keeps it fit for its list.\<close>

lemma lists_ok_tcbs:
  assumes "lists_ok X LS s" "links s' = links s" "\<And>l. l \<in> list_ids \<Longrightarrow> tl_count (tls s' l) = tl_count (tls s l)"
    and "\<And>l t. l \<in> list_ids \<Longrightarrow> t \<in> set (LS l) \<Longrightarrow> listed_ok l (tcbs s t) \<Longrightarrow> listed_ok l (tcbs s' t)"
  shows "lists_ok X LS s'"
  using assms unfolding lists_ok_def by simp

lemma lists_ok_upd_flight:
  assumes "lists_ok X LS s" "t \<in> X"
  shows "lists_ok X LS (upd_tcb t f s)"
proof (rule lists_ok_tcbs [OF assms(1)])
  show "listed_ok l (tcbs (upd_tcb t f s) u)" if "l \<in> list_ids" "u \<in> set (LS l)" "listed_ok l (tcbs s u)" for l u
    using that lists_okD(4) [OF assms(1) that(1,2)] assms(2) by auto
qed simp_all

section \<open>Blocks and stacks\<close>

lemma stacks_ok_cong:
  assumes "stacks_ok A B k" "\<And>t. t \<in> A \<Longrightarrow> stack_base (B' t) = stack_base (B t)"
  shows "stacks_ok A B' k"
proof -
  have e: "stack_addr (B' t) = stack_addr (B t)" if "t \<in> A" for t using assms(2) [OF that] by (simp add: stack_addr_def)
  then have "{t\<in>A. stack_addr (B' t) \<noteq> 0} = {t\<in>A. stack_addr (B t) \<noteq> 0}" by auto
  then show ?thesis using assms(1) e unfolding stacks_ok_def inj_on_def by auto
qed

lemma base_ok_upd:
  assumes b: "base_ok s" and s': "\<And>u. u \<noteq> t \<Longrightarrow> tcbs s' u = tcbs s u" "km s' = km s"
      "ticks_in_10ms (apic s') = ticks_in_10ms (apic s)"
      "lock (tl_lock (tls s' Global_tcb)) = 0" "lock (tl_lock (tls s' Migrating)) = 0"
    and t: "tcb_ok t (tcbs s' t)" "t < MAX_PROCESSOR_COUNT \<Longrightarrow> idle_ok t (tcbs s' t)"
      "stack_base (tcbs s' t) = stack_base (tcbs s t)"
      "tstate (tcbs s' t) = THREAD_STATE_NOTALLOC \<longleftrightarrow> tstate (tcbs s t) = THREAD_STATE_NOTALLOC"
  shows "base_ok s'"
proof -
  have "tstate (tcbs s' u) = THREAD_STATE_NOTALLOC \<longleftrightarrow> tstate (tcbs s u) = THREAD_STATE_NOTALLOC" for u
    using s'(1) t(4) by (cases "u = t") simp_all
  then have a: "allocated s' = allocated s" by (simp add: allocated_def)
  have "stack_base (tcbs s' u) = stack_base (tcbs s u)" for u using s'(1) t(3) by (cases "u = t") simp_all
  then have "stacks_ok (allocated s') (tcbs s') (km s')"
    unfolding a s'(2) by (intro stacks_ok_cong [OF base_okD(3) [OF b]])
  moreover have "tcb_ok u (tcbs s' u)" if "u < NT" for u
    using base_okD(1) [OF b that] s'(1) t(1) by (cases "u = t") simp_all
  moreover have "idle_ok u (tcbs s' u)" if "u < MAX_PROCESSOR_COUNT" for u
    using base_okD(2) [OF b that] s'(1) t(2) that by (cases "u = t") simp_all
  ultimately show ?thesis using b s'(2-5) by (simp add: base_ok_def)
qed

lemma free_stack:
  assumes k: "kernel_ok k" and st: "stacks_ok A B k" and t: "t \<in> A"
  obtains x k' where "az_free k (stack_addr (B t)) = Some (x, k')" "kernel_ok k'" "stacks_ok (A - {t}) B k'"
proof (cases "stack_addr (B t) = 0")
  case True
  have "mm_ok (g_free_memory k)" using k by (simp add: kernel_ok_def)
  moreover have "stacks_ok (A - {t}) B k"
    using st unfolding stacks_ok_def by (auto elim: inj_on_subset)
  ultimately show thesis using az_free_NULL k that True by metis
next
  case False
  let ?a = "stack_addr (B t)"
  have "?a \<in> fst ` kernel_live k" using st t False by (auto simp: stacks_ok_def)
  then obtain n where n: "(?a, n) \<in> kernel_live k" by auto
  obtain k' where k': "az_free k ?a = Some (True, k')" "kernel_ok k'" "kernel_live k' = kernel_live k - {(?a, n)}"
    using kmem.free_law [OF k n] by blast
  have "stack_addr (B u) = 0 \<or> stack_addr (B u) \<in> fst ` kernel_live k'" if "u \<in> A - {t}" for u
  proof (cases "stack_addr (B u) = 0")
    case nz: False
    have "stack_addr (B u) \<in> fst ` kernel_live k" using st that nz unfolding stacks_ok_def by blast
    then obtain m where "(stack_addr (B u), m) \<in> kernel_live k" by auto
    moreover have "stack_addr (B u) \<noteq> ?a"
      using st that t nz False unfolding stacks_ok_def inj_on_def by blast
    ultimately show ?thesis using k'(3) by force
  qed simp
  moreover have "inj_on (\<lambda>u. stack_addr (B u)) {u\<in>A - {t}. stack_addr (B u) \<noteq> 0}"
    using st unfolding stacks_ok_def by (auto elim: inj_on_subset)
  ultimately show thesis using k'(1,2) that unfolding stacks_ok_def by blast
qed

text \<open>\<^verbatim>\<open>init_tcb\<close> in the \<^verbatim>\<open>DESTROY\<close> case.\<close>

lemma init_destroy:
  assumes b: "base_ok s" and t: "t \<in> allocated s"
  obtains b' k' where
    "\<And>s'. tcbs s' = tcbs s \<Longrightarrow> km s' = km s \<Longrightarrow> tcb_base_addr s' = tcb_base_addr s \<Longrightarrow>
      init_tcb t 0 THREAD_INIT_DESTROY s' = Some (upd_tcb t (\<lambda>_. b') (s'\<lparr>km := k'\<rparr>))"
    "tstate b' = THREAD_STATE_NOTALLOC" "refc b' = refc (tcbs s t)" "tcb_ok t b'" "kernel_ok k'"
    "stacks_ok (allocated s - {t}) (tcbs s) k'" "signal_flag b' = signal_flag (tcbs s t)"
    "signal_handler b' = signal_handler (tcbs s t)"
proof -
  obtain x k' where k': "az_free (km s) (stack_addr (tcbs s t)) = Some (x, k')" "kernel_ok k'"
    "stacks_ok (allocated s - {t}) (tcbs s) k'"
    using free_stack [OF base_okD(4,3) [OF b] t] by blast
  have "tcb_ok t (tcbs s t)" using base_okD(1) [OF b] t pool_NT by (auto simp: allocated_def)
  then show thesis
    using k' by (intro that [of "(tcbs s t)\<lparr>stack := tcb_base_addr s + 4096 * (of_nat (tcb_id (tcbs s t)) - of_nat MAX_PROCESSOR_COUNT) + CONFIG_TCB_SIZE,
        stack_base := tcb_base_addr s + 4096 * (of_nat (tcb_id (tcbs s t)) - of_nat MAX_PROCESSOR_COUNT) + CONFIG_TCB_SIZE,
        tstate := THREAD_STATE_NOTALLOC, running_core := - 1\<rparr>" k'])
      (simp_all add: init_tcb_def THREAD_INIT_DESTROY_def THREAD_INIT_CREATE_def THREAD_INIT_IDLE_def stack_addr_def tcb_ok_def
        upd_tcb_def Let_def)
qed

section \<open>Releasing a block\<close>

text \<open>What an operation leaves alone when it only works on the block \<open>t\<close> and the free lists of core \<open>c\<close>.\<close>

definition others_same :: "nat \<Rightarrow> sched_state \<Rightarrow> sched_state \<Rightarrow> bool" where
  "others_same t s s' \<longleftrightarrow> (\<forall>u. u \<noteq> t \<longrightarrow> tcbs s' u = tcbs s u) \<and> running_thread s' = running_thread s \<and>
     g_running_thread_list s' = g_running_thread_list s \<and> msr s' = msr s \<and> apic s' = apic s"

lemma global_lock_free:
  assumes "base_ok s"
  shows "spinlock_lock (tl_lock (tls s Global_tcb)) = Some ((tl_lock (tls s Global_tcb))\<lparr>lock := 1\<rparr>)"
    "spinlock_trylock (tl_lock (tls s Global_tcb)) = (True, (tl_lock (tls s Global_tcb))\<lparr>lock := 1\<rparr>)"
  using base_okD(6) [OF assms] by (simp_all add: spinlock_lock_free spinlock_trylock_def cmpxchg_def)

lemma base_ok_destroyed:
  assumes b: "base_ok s" and t: "t \<in> allocated s"
    and s': "\<And>u. u \<noteq> t \<Longrightarrow> tcbs s' u = tcbs s u" "ticks_in_10ms (apic s') = ticks_in_10ms (apic s)"
      "lock (tl_lock (tls s' Global_tcb)) = 0" "lock (tl_lock (tls s' Migrating)) = 0"
      "tcb_ok t (tcbs s' t)" "tstate (tcbs s' t) = THREAD_STATE_NOTALLOC" "kernel_ok (km s')"
      "stacks_ok (allocated s - {t}) (tcbs s) (km s')"
  shows "base_ok s'"
proof -
  have p: "t \<in> pool_tids" using t by (simp add: allocated_def)
  have "allocated s' = allocated s - {t}"
    using s'(1,6) by (auto simp: allocated_def) metis
  moreover have "stacks_ok (allocated s - {t}) (tcbs s') (km s')"
    by (rule stacks_ok_cong [OF s'(8)]) (simp add: s'(1))
  moreover have "tcb_ok u (tcbs s' u)" if "u < NT" for u
    using base_okD(1) [OF b that] s'(1,5) by (cases "u = t") simp_all
  moreover have "idle_ok u (tcbs s' u)" if "u < MAX_PROCESSOR_COUNT" for u
    using base_okD(2) [OF b that] s'(1) pool_NT(2) [OF p] that by (cases "u = t") simp_all
  ultimately show ?thesis using b s'(2-4,7) by (simp add: base_ok_def)
qed

lemma destroy_tcb_ok:
  assumes o: "lists_ok {t} LS s" and b: "base_ok s" and t: "t \<in> allocated s" "refc (tcbs s t) = 0" and c: "c < MAX_PROCESSOR_COUNT"
  obtains s' LS' where "destroy_tcb c t s = Some s'" "lists_ok {} LS' s'" "base_ok s'" "others_same t s s'"
    "\<And>l. l \<noteq> Local_tcb c \<Longrightarrow> l \<noteq> Global_tcb \<Longrightarrow> LS' l = LS l" "tstate (tcbs s' t) = THREAD_STATE_NOTALLOC"
proof -
  have p: "t \<in> pool_tids" using t by (simp add: allocated_def)
  obtain b' k' where I: "\<And>s'. tcbs s' = tcbs s \<Longrightarrow> km s' = km s \<Longrightarrow> tcb_base_addr s' = tcb_base_addr s \<Longrightarrow>
      init_tcb t 0 THREAD_INIT_DESTROY s' = Some (upd_tcb t (\<lambda>_. b') (s'\<lparr>km := k'\<rparr>))"
    and B: "tstate b' = THREAD_STATE_NOTALLOC" "refc b' = 0" "tcb_ok t b'" "kernel_ok k'"
      "stacks_ok (allocated s - {t}) (tcbs s) k'"
    using init_destroy [OF b t(1)] t(2) by metis
  let ?cnt = "tl_count (tls s (Local_tcb c))"
  let ?fin = "\<lambda>s. s\<lparr>g_exit_thread_cnt := atomic_inc (g_exit_thread_cnt s), g_thread_cnt := atomic_dec (g_thread_cnt s),
       tdcnt := atomic_inc (tdcnt s)\<rparr>"
  show thesis
  proof (cases "1 < ?cnt")
    case True
    obtain h where h: "\<And>s'. links s' = links s \<Longrightarrow> links_add_tail t Global_tcb s' = Some (s'\<lparr>links := h\<rparr>)"
      "\<And>s'. links s' = h \<Longrightarrow> (\<forall>m. tl_count (tls s' m) = tl_count (tls s m) + (if m = Global_tcb then 1 else 0)) \<Longrightarrow>
        (\<forall>u. u \<noteq> t \<longrightarrow> tcbs s' u = tcbs s u) \<Longrightarrow> listed_ok Global_tcb (tcbs s' t) \<Longrightarrow>
        lists_ok ({t} - {t}) (LS(Global_tcb := LS Global_tcb @ [t])) s'"
      using put_in [OF o, of Global_tcb t] p by auto
    let ?s1 = "upd_list Global_tcb (\<lambda>l. l\<lparr>tl_lock := (tl_lock (tls s Global_tcb))\<lparr>lock := 1\<rparr>\<rparr>) s"
    let ?s2 = "count_inc Global_tcb (?s1\<lparr>links := h\<rparr>)"
    let ?s' = "?fin (list_unlock Global_tcb (gen_inc t (upd_tcb t (\<lambda>_. b') (?s2\<lparr>km := k'\<rparr>))))"
    have d: "destroy_tcb c t s = Some ?s'"
      using True h(1) [of ?s1] I [of ?s2] by (simp add: destroy_tcb_def list_trylock_def global_lock_free [OF b] count_inc_def)
    have "lists_ok {} (LS(Global_tcb := LS Global_tcb @ [t])) ?s'"
      using h(2) [of ?s'] B by (simp add: list_op_defs gen_inc_def spinlock_unlock_def)
    moreover have "base_ok ?s'"
      using B base_okD(6,7) [OF b]
      by (intro base_ok_destroyed [OF b t(1)]) (simp_all add: list_op_defs gen_inc_def spinlock_unlock_def tcb_ok_def)
    ultimately show thesis
      using d B by (intro that [of ?s' "LS(Global_tcb := LS Global_tcb @ [t])"])
        (simp_all add: others_same_def list_op_defs gen_inc_def)
  next
    case small: False
    then have n4: "\<not> 4 < ?cnt" by (auto simp: word_less_nat_alt)
    obtain h where h: "\<And>s'. links s' = links s \<Longrightarrow> links_add_tail t (Local_tcb c) s' = Some (s'\<lparr>links := h\<rparr>)"
      "\<And>s'. links s' = h \<Longrightarrow> (\<forall>m. tl_count (tls s' m) = tl_count (tls s m) + (if m = Local_tcb c then 1 else 0)) \<Longrightarrow>
        (\<forall>u. u \<noteq> t \<longrightarrow> tcbs s' u = tcbs s u) \<Longrightarrow> listed_ok (Local_tcb c) (tcbs s' t) \<Longrightarrow>
        lists_ok ({t} - {t}) (LS(Local_tcb c := LS (Local_tcb c) @ [t])) s'"
      using put_in [OF o, of "Local_tcb c" t] p c by auto
    let ?s1 = "gen_inc t (upd_tcb t (\<lambda>_. b') (s\<lparr>km := k'\<rparr>))"
    let ?s' = "?fin (count_inc (Local_tcb c) (?s1\<lparr>links := h\<rparr>))"
    have d: "destroy_tcb c t s = Some ?s'"
      using small n4 h(1) [of ?s1] I [of s] by (simp add: destroy_tcb_def gen_inc_def)
    have "lists_ok {} (LS(Local_tcb c := LS (Local_tcb c) @ [t])) ?s'"
      using h(2) [of ?s'] B by (simp add: list_op_defs gen_inc_def)
    moreover have "base_ok ?s'"
      using B base_okD(6,7) [OF b]
      by (intro base_ok_destroyed [OF b t(1)]) (simp_all add: list_op_defs gen_inc_def tcb_ok_def)
    ultimately show thesis
      using d B by (intro that [of ?s' "LS(Local_tcb c := LS (Local_tcb c) @ [t])"])
        (simp_all add: others_same_def list_op_defs gen_inc_def)
  qed
qed

text \<open>Dropping the last reference to an exited thread, and a reference that is not the last.\<close>

lemma put_tcb_last:
  assumes o: "lists_ok {t} LS s" and b: "base_ok s" and t: "t \<in> pool_tids" "tstate (tcbs s t) = THREAD_STATE_EXITED" "refc (tcbs s t) = 1"
    and c: "c < MAX_PROCESSOR_COUNT"
  obtains s' LS' where "put_tcb c t s = Some s'" "lists_ok {} LS' s'" "base_ok s'" "others_same t s s'"
    "\<And>l. l \<noteq> Local_tcb c \<Longrightarrow> l \<noteq> Global_tcb \<Longrightarrow> LS' l = LS l" "tstate (tcbs s' t) = THREAD_STATE_NOTALLOC"
proof -
  let ?s = "upd_tcb t (\<lambda>b. b\<lparr>refc := 0\<rparr>) s"
  have "put_tcb c t s = destroy_tcb c t ?s"
    using t(2,3) by (simp add: put_tcb_def atomic_dec_and_test_def Let_def)
  moreover have "lists_ok {t} LS ?s" using o by (rule lists_ok_upd_flight) simp
  moreover have "base_ok ?s"
    using b base_okD(1) [OF b] base_okD(2) [OF b, of t] base_okD(6,7) [OF b] pool_NT [OF t(1)]
    by (intro base_ok_upd [OF b, of t]) (auto simp: tcb_ok_def idle_ok_def)
  moreover have "t \<in> allocated ?s" using t by (simp add: allocated_def)
  ultimately obtain s' LS' where s': "put_tcb c t s = Some s'" "lists_ok {} LS' s'" "base_ok s'" "others_same t ?s s'"
    "\<And>l. l \<noteq> Local_tcb c \<Longrightarrow> l \<noteq> Global_tcb \<Longrightarrow> LS' l = LS l" "tstate (tcbs s' t) = THREAD_STATE_NOTALLOC"
    using destroy_tcb_ok [of t LS ?s c] c by auto
  moreover have "others_same t s s'" using s'(4) by (simp add: others_same_def)
  ultimately show thesis using that by blast
qed

lemma get_put_same:
  assumes "refc (tcbs s t) = r" "r \<noteq> 0"
  shows "put_tcb c t (upd_tcb t (\<lambda>b. b\<lparr>refc := r + 1\<rparr>) s) = Some s"
  using assms by (simp add: put_tcb_def atomic_dec_and_test_def Let_def upd_tcb_def fun_upd_idem)

section \<open>Moving a block\<close>

lemma move_list:
  assumes o: "lists_ok X LS s" and l: "l \<in> list_ids" "m \<in> list_ids" "l \<noteq> m" and t: "t \<in> set (LS l)"
  obtains h1 h2 where "\<And>s'. links s' = links s \<Longrightarrow> links_del_init t s' = Some (s'\<lparr>links := h1\<rparr>)"
    "\<And>s'. links s' = h1 \<Longrightarrow> links_add_tail t m s' = Some (s'\<lparr>links := h2\<rparr>)"
    "\<And>s'. links s' = h2 \<Longrightarrow>
      (\<forall>n. tl_count (tls s' n) = tl_count (tls s n) + (if n = m then 1 else 0) - (if n = l then 1 else 0)) \<Longrightarrow>
      (\<forall>u. u \<noteq> t \<longrightarrow> tcbs s' u = tcbs s u) \<Longrightarrow> listed_ok m (tcbs s' t) \<Longrightarrow>
      lists_ok X (LS(l := remove1 t (LS l), m := LS m @ [t])) s'"
proof -
  have tX: "t \<notin> X" "t \<in> pool_tids" using lists_okD(4) [OF o l(1) t] by auto
  obtain h1 where h1: "\<And>s'. links s' = links s \<Longrightarrow> links_del_init t s' = Some (s'\<lparr>links := h1\<rparr>)"
    "\<And>s'. links s' = h1 \<Longrightarrow> (\<forall>m. tl_count (tls s' m) = tl_count (tls s m) - (if m = l then 1 else 0)) \<Longrightarrow>
      (\<forall>u. u \<noteq> t \<longrightarrow> tcbs s' u = tcbs s u) \<Longrightarrow> lists_ok (insert t X) (LS(l := remove1 t (LS l))) s'"
    using take_out [OF o l(1) t] by metis
  let ?s1 = "count_dec l (s\<lparr>links := h1\<rparr>)"
  have o1: "lists_ok (insert t X) (LS(l := remove1 t (LS l))) ?s1" by (rule h1(2)) (simp_all add: count_dec_def)
  obtain h2 where h2: "\<And>s'. links s' = links ?s1 \<Longrightarrow> links_add_tail t m s' = Some (s'\<lparr>links := h2\<rparr>)"
    "\<And>s'. links s' = h2 \<Longrightarrow> (\<forall>n. tl_count (tls s' n) = tl_count (tls ?s1 n) + (if n = m then 1 else 0)) \<Longrightarrow>
      (\<forall>u. u \<noteq> t \<longrightarrow> tcbs s' u = tcbs ?s1 u) \<Longrightarrow> listed_ok m (tcbs s' t) \<Longrightarrow>
      lists_ok (insert t X - {t}) (LS(l := remove1 t (LS l), m := (LS(l := remove1 t (LS l))) m @ [t])) s'"
    by (rule put_in [OF o1 l(2) insertI1 tX(2)]) (rule that)
  have e: "insert t X - {t} = X" "(LS(l := remove1 t (LS l))) m = LS m" using tX(1) l(3) by auto
  have "lists_ok X (LS(l := remove1 t (LS l), m := LS m @ [t])) s'"
    if "links s' = h2" "\<forall>n. tl_count (tls s' n) = tl_count (tls s n) + (if n = m then 1 else 0) - (if n = l then 1 else 0)"
      "\<forall>u. u \<noteq> t \<longrightarrow> tcbs s' u = tcbs s u" "listed_ok m (tcbs s' t)" for s'
    using h2(2) [of s'] that l(3) unfolding e by (simp add: count_dec_def)
  then show thesis using h2(1) by (intro that [OF h1(1)]) (simp_all add: count_dec_def)
qed

lemma listed_allocated:
  assumes "lists_ok X LS s" "l \<in> list_ids" "t \<in> set (LS l)" "l \<noteq> Global_tcb" "\<And>c. l \<noteq> Local_tcb c"
  shows "t \<in> allocated s" "refc (tcbs s t) = 1" "t \<in> pool_tids"
  using lists_okD(3,4) [OF assms(1-3)] assms(4,5) by (cases l; auto simp: allocated_def)+

text \<open>An exiting thread leaves its list and its block is released.\<close>

lemma exit_remove:
  assumes o: "lists_ok {} LS s" and b: "base_ok s" and l: "l \<in> list_ids" "l \<noteq> Global_tcb" "\<And>c. l \<noteq> Local_tcb c"
    and t: "t \<in> set (LS l)" and c: "c < MAX_PROCESSOR_COUNT"
  obtains s1 s' LS' where "links_del_init t (count_dec l (thread_exit t s)) = Some s1" "put_tcb c t s1 = Some s'"
    "lists_ok {} LS' s'" "base_ok s'" "others_same t s s'" "LS' l = remove1 t (LS l)"
    "\<And>m. m \<noteq> l \<Longrightarrow> m \<noteq> Local_tcb c \<Longrightarrow> m \<noteq> Global_tcb \<Longrightarrow> LS' m = LS m" "tstate (tcbs s' t) = THREAD_STATE_NOTALLOC"
proof -
  note a = listed_allocated [OF o l(1) t l(2,3)]
  obtain h where h: "\<And>s'. links s' = links s \<Longrightarrow> links_del_init t s' = Some (s'\<lparr>links := h\<rparr>)"
    "\<And>s'. links s' = h \<Longrightarrow> (\<forall>m. tl_count (tls s' m) = tl_count (tls s m) - (if m = l then 1 else 0)) \<Longrightarrow>
      (\<forall>u. u \<noteq> t \<longrightarrow> tcbs s' u = tcbs s u) \<Longrightarrow> lists_ok {t} (LS(l := remove1 t (LS l))) s'"
    using take_out [OF o l(1) t] by metis
  let ?s1 = "(count_dec l (thread_exit t s))\<lparr>links := h\<rparr>"
  have o1: "lists_ok {t} (LS(l := remove1 t (LS l))) ?s1" by (rule h(2)) (simp_all add: count_dec_def thread_exit_def)
  have b1: "base_ok ?s1"
    using b base_okD(1) [OF b] base_okD(6,7) [OF b] pool_NT [OF a(3)] a(1)
    by (intro base_ok_upd [OF b, of t]) (auto simp: tcb_ok_def count_dec_def thread_exit_def allocated_def)
  have "tstate (tcbs ?s1 t) = THREAD_STATE_EXITED" "refc (tcbs ?s1 t) = 1"
    using a(2) by (simp_all add: count_dec_def thread_exit_def)
  from put_tcb_last [OF o1 b1 a(3) this c]
  obtain s' LS' where s': "put_tcb c t ?s1 = Some s'" "lists_ok {} LS' s'" "base_ok s'" "others_same t ?s1 s'"
    "\<And>m. m \<noteq> Local_tcb c \<Longrightarrow> m \<noteq> Global_tcb \<Longrightarrow> LS' m = (LS(l := remove1 t (LS l))) m" "tstate (tcbs s' t) = THREAD_STATE_NOTALLOC"
    by blast
  have "others_same t s s'" using s'(4) by (simp add: others_same_def count_dec_def thread_exit_def)
  moreover have "links_del_init t (count_dec l (thread_exit t s)) = Some ?s1"
    using h(1) by (simp add: count_dec_def thread_exit_def)
  ultimately show thesis using s' l by (intro that [of ?s1 s' LS']) auto
qed

end
