(* ===== verification/SchedSelect.thy ===== *)
theory SchedSelect
  imports SchedInv
begin

text \<open>
  Selection of the next thread keeps the invariant, returns, and returns a thread of the core's own
  runnable list or the core's idle thread.
\<close>

section \<open>Clean threads\<close>

text \<open>A thread that is neither to be blocked nor to exit.\<close>

definition clean :: "TCB \<Rightarrow> bool" where
  "clean b \<longleftrightarrow> intention b AND (THREAD_INTENTION_BLOCKED OR THREAD_INTENTION_EXITED) = 0"

lemma and_or_zero: "(a :: dword) AND (b OR c) = 0 \<longleftrightarrow> a AND b = 0 \<and> a AND c = 0"
  by (simp add: bit.conj_disj_distrib or_eq_0_iff)

lemma clean_iff: "clean b \<longleftrightarrow> intention b AND THREAD_INTENTION_BLOCKED = 0 \<and> intention b AND THREAD_INTENTION_EXITED = 0"
  by (simp add: clean_def and_or_zero)

lemma idle_clean: "idle_ok c b \<Longrightarrow> clean b"
  by (simp add: idle_ok_def clean_def)

lemma clean_unblocked:
  assumes "intention b AND THREAD_INTENTION_EXITED = 0"
  shows "(intention b AND NOT THREAD_INTENTION_BLOCKED) AND (THREAD_INTENTION_BLOCKED OR THREAD_INTENTION_EXITED) = 0"
proof -
  have "(intention b AND NOT THREAD_INTENTION_BLOCKED) AND THREAD_INTENTION_EXITED =
      NOT THREAD_INTENTION_BLOCKED AND (intention b AND THREAD_INTENTION_EXITED)"
    by (simp add: ac_simps)
  moreover have "(intention b AND NOT THREAD_INTENTION_BLOCKED) AND THREAD_INTENTION_BLOCKED = 0"
    by (simp add: and.assoc)
  ultimately show ?thesis using assms unfolding and_or_zero by simp
qed

section \<open>The scan of the runnable list\<close>

text \<open>Where the current thread of core \<open>c\<close> is.\<close>

definition curr_loc :: "nat \<Rightarrow> nat \<Rightarrow> (list_id \<Rightarrow> nat list) \<Rightarrow> sched_state \<Rightarrow> bool" where
  "curr_loc c me LS s \<longleftrightarrow> me = c \<or> me \<in> set (LS (Runnable c)) \<or>
     me \<in> set (LS (Blocked c)) \<union> set (LS Migrating) \<and> clean (tcbs s me)"

definition slices_left :: "nat list \<Rightarrow> sched_state \<Rightarrow> bool" where
  "slices_left xs s \<longleftrightarrow> (\<forall>u\<in>set xs. tstate (tcbs s u) = THREAD_STATE_READY \<longrightarrow> 0 < remaining_time_slice (tcbs s u))"

text \<open>The threads that run on the other cores are in the runnable lists there.\<close>

definition others_run :: "nat \<Rightarrow> nat option carray \<Rightarrow> (list_id \<Rightarrow> nat list) \<Rightarrow> bool" where
  "others_run c R LS \<longleftrightarrow> (\<forall>d<MAX_PROCESSOR_COUNT. \<forall>t. d \<noteq> c \<longrightarrow> R d = Some t \<longrightarrow> t = d \<or> t \<in> set (LS (Runnable d)))"

lemma others_run_cong: "others_run c R LS \<Longrightarrow> (\<And>d. d \<noteq> c \<Longrightarrow> LS' (Runnable d) = LS (Runnable d)) \<Longrightarrow> others_run c R LS'"
  by (simp add: others_run_def)

definition sel_inv :: "nat \<Rightarrow> nat \<Rightarrow> nat option carray \<Rightarrow> bool \<Rightarrow> (list_id \<Rightarrow> nat list) \<Rightarrow> nat list \<Rightarrow> nat list \<Rightarrow>
    nat option \<Rightarrow> sched_state \<Rightarrow> bool" where
  "sel_inv c me R P LS pre xs found s \<longleftrightarrow>
     lists_ok {} LS s \<and> base_ok s \<and> LS (Runnable c) = pre @ xs \<and> (\<forall>u\<in>set pre. clean (tcbs s u)) \<and>
     (\<forall>u. found = Some u \<longrightarrow> u \<in> set pre) \<and> running_thread s = R \<and> R c = Some me \<and> curr_loc c me LS s \<and>
     (P \<longrightarrow> slices_left (pre @ xs) s) \<and> others_run c R LS"

lemma sel_invD:
  assumes "sel_inv c me R P LS pre xs found s"
  shows "lists_ok {} LS s" "base_ok s" "LS (Runnable c) = pre @ xs" "u \<in> set pre \<Longrightarrow> clean (tcbs s u)"
    "found = Some u \<Longrightarrow> u \<in> set pre" "running_thread s = R" "R c = Some me" "curr_loc c me LS s"
    "P \<Longrightarrow> slices_left (pre @ xs) s" "others_run c R LS"
  using assms by (auto simp: sel_inv_def)

lemma curr_NT:
  assumes o: "lists_ok {} LS s" and "curr_loc c me LS s" "c < MAX_PROCESSOR_COUNT"
  shows "me < NT"
proof -
  consider "me = c" | l where "l \<in> list_ids" "me \<in> set (LS l)"
    using assms(2,3) list_ids_simps unfolding curr_loc_def by blast
  then show ?thesis
  proof cases
    case 1
    then show ?thesis using assms(3) by simp
  next
    case 2
    then show ?thesis using lists_okD(4) [OF o 2] pool_NT(1) by blast
  qed
qed

lemma slices_left_cong: "slices_left ys s \<Longrightarrow> (\<And>u. u \<in> set xs \<Longrightarrow> u \<in> set ys \<and> tcbs s' u = tcbs s u) \<Longrightarrow> slices_left xs s'"
  by (simp add: slices_left_def)

lemma base_ok_same_stack:
  assumes "base_ok s" "t \<in> allocated s" "tstate (f (tcbs s t)) \<noteq> THREAD_STATE_NOTALLOC"
    "stack_base (f (tcbs s t)) = stack_base (tcbs s t)" "tcb_ok t (f (tcbs s t))"
    and s': "\<And>u. u \<noteq> t \<Longrightarrow> tcbs s' u = tcbs s u" "tcbs s' t = f (tcbs s t)" "km s' = km s" "apic s' = apic s"
      "lock (tl_lock (tls s' Global_tcb)) = 0" "lock (tl_lock (tls s' Migrating)) = 0"
  shows "base_ok s'"
proof (rule base_ok_upd [OF assms(1), of t])
  have "t \<in> pool_tids" using assms(2) by (simp add: allocated_def)
  then show "t < MAX_PROCESSOR_COUNT \<Longrightarrow> idle_ok t (tcbs s' t)" using pool_NT(2) by blast
  show "tstate (tcbs s' t) = THREAD_STATE_NOTALLOC \<longleftrightarrow> tstate (tcbs s t) = THREAD_STATE_NOTALLOC"
    using assms(2,3) s'(2) by (simp add: allocated_def)
qed (use assms s' in simp_all)

text \<open>The scanned thread leaves the list, or stays in it.\<close>

lemma sel_inv_distinct:
  assumes "sel_inv c me R P LS pre xs found s" "c < MAX_PROCESSOR_COUNT"
  shows "distinct (pre @ xs)"
  using lists_repD(2) [OF lists_okD(1) [OF sel_invD(1) [OF assms(1)]], of "Runnable c"] sel_invD(3) [OF assms(1)] assms(2) by simp

lemma sel_inv_drop:
  assumes i: "sel_inv c me R P LS pre (t # xs) found s" and c: "c < MAX_PROCESSOR_COUNT"
    and s': "lists_ok {} LS' s'" "base_ok s'" "LS' (Runnable c) = pre @ xs" "\<And>u. u \<noteq> t \<Longrightarrow> tcbs s' u = tcbs s u"
      "running_thread s' = running_thread s" "set (LS (Blocked c)) \<subseteq> set (LS' (Blocked c))" "set (LS Migrating) \<subseteq> set (LS' Migrating)"
      "\<And>d. d \<noteq> c \<Longrightarrow> LS' (Runnable d) = LS (Runnable d)"
    and me: "me = t \<Longrightarrow> curr_loc c me LS' s'"
  shows "sel_inv c me R P LS' pre xs found s'"
proof -
  note I = sel_invD [OF i]
  have d: "distinct (pre @ t # xs)" by (rule sel_inv_distinct [OF i c])
  have same: "tcbs s' u = tcbs s u" if "u \<in> set (pre @ xs)" for u
  proof -
    have "u \<noteq> t" using that d by auto
    then show ?thesis using s'(4) by simp
  qed
  have "curr_loc c me LS' s'"
  proof (cases "me = t")
    case False
    then have "tcbs s' me = tcbs s me" using s'(4) by simp
    then show ?thesis using I(8) s'(3,6,7) I(3) False unfolding curr_loc_def by auto
  qed (rule me)
  moreover have "slices_left (pre @ xs) s'" if P
    using I(9) [OF that] by (rule slices_left_cong) (use same in auto)
  ultimately show ?thesis
    using s'(1-3) s'(5) I(4-7) same others_run_cong [OF I(10) s'(8)] unfolding sel_inv_def by simp
qed

lemma sel_inv_keep:
  assumes i: "sel_inv c me R P LS pre (t # xs) found s" and cl: "clean (tcbs s t)" and f: "found' = found \<or> found' = Some t"
  shows "sel_inv c me R P LS (pre @ [t]) xs found' s"
  using sel_invD [OF i] cl f unfolding sel_inv_def by auto

text \<open>One iteration.\<close>

lemma sel_exited:
  assumes i: "sel_inv c me R P LS pre (t # xs) found s" and c: "c < MAX_PROCESSOR_COUNT"
    and e: "intention (tcbs s t) AND THREAD_INTENTION_EXITED \<noteq> 0" "me \<noteq> t"
  obtains LS' s' where "select_body c c t (found, s) = Some (False, found, s')" "sel_inv c me R P LS' pre xs found s'"
proof -
  note I = sel_invD [OF i]
  have L: "Runnable c \<in> list_ids" using c by simp
  have t: "t \<in> set (LS (Runnable c))" using I(3) by simp
  have d: "distinct (pre @ t # xs)" by (rule sel_inv_distinct [OF i c])
  obtain s1 s' LS' where r: "links_del_init t (count_dec (Runnable c) (thread_exit t s)) = Some s1" "put_tcb c t s1 = Some s'"
    "lists_ok {} LS' s'" "base_ok s'" "others_same t s s'" "LS' (Runnable c) = remove1 t (LS (Runnable c))"
    "\<And>m. m \<noteq> Runnable c \<Longrightarrow> m \<noteq> Local_tcb c \<Longrightarrow> m \<noteq> Global_tcb \<Longrightarrow> LS' m = LS m"
    by (rule exit_remove [OF I(1,2) L _ _ t c]) (auto intro: that)
  have ids: "tcb_id (tcbs s me) = me" "tcb_id (tcbs s t) = t"
    using base_okD(1) [OF I(2)] curr_NT [OF I(1,8) c] pool_NT(1) lists_okD(4) [OF I(1) L t] by (auto simp: tcb_ok_def)
  have "LS' (Runnable c) = pre @ xs" using r(6) I(3) d by (simp add: remove1_append)
  then have "sel_inv c me R P LS' pre xs found s'"
    using r(3-5,7) e(2) by (intro sel_inv_drop [OF i c]) (auto simp: others_same_def)
  moreover have "select_body c c t (found, s) = Some (False, found, s')"
    using e ids I(6,7) r(1,2) by (simp add: select_body_def get_current_def)
  ultimately show thesis by (rule that [rotated])
qed

lemma sel_blocked:
  assumes i: "sel_inv c me R P LS pre (t # xs) found s" and c: "c < MAX_PROCESSOR_COUNT"
    and e: "intention (tcbs s t) AND THREAD_INTENTION_EXITED = 0" "intention (tcbs s t) AND THREAD_INTENTION_BLOCKED \<noteq> 0"
  obtains LS' s' where "select_body c c t (found, s) = Some (False, found, s')" "sel_inv c me R P LS' pre xs found s'"
    "t \<in> set (LS' (Blocked c))" "tcbs s' t = (tcbs s t)\<lparr>tstate := THREAD_STATE_BLOCKED,
      intention := intention (tcbs s t) AND NOT THREAD_INTENTION_BLOCKED\<rparr>"
proof -
  note I = sel_invD [OF i]
  have L: "Runnable c \<in> list_ids" "Blocked c \<in> list_ids" "Runnable c \<noteq> Blocked c" using c by simp_all
  have t: "t \<in> set (LS (Runnable c))" using I(3) by simp
  have d: "distinct (pre @ t # xs)" by (rule sel_inv_distinct [OF i c])
  note al = listed_allocated [OF I(1) L(1) t] 
  let ?f = "\<lambda>b :: TCB. b\<lparr>tstate := THREAD_STATE_BLOCKED, intention := atomic_set (intention b) (intention b AND NOT THREAD_INTENTION_BLOCKED)\<rparr>"
  let ?LS = "LS(Runnable c := remove1 t (LS (Runnable c)), Blocked c := LS (Blocked c) @ [t])"
  obtain h1 h2 where h: "\<And>s'. links s' = links s \<Longrightarrow> links_del_init t s' = Some (s'\<lparr>links := h1\<rparr>)"
    "\<And>s'. links s' = h1 \<Longrightarrow> links_add_tail t (Blocked c) s' = Some (s'\<lparr>links := h2\<rparr>)"
    "\<And>s'. links s' = h2 \<Longrightarrow>
      (\<forall>n. tl_count (tls s' n) = tl_count (tls s n) + (if n = Blocked c then 1 else 0) - (if n = Runnable c then 1 else 0)) \<Longrightarrow>
      (\<forall>u. u \<noteq> t \<longrightarrow> tcbs s' u = tcbs s u) \<Longrightarrow> listed_ok (Blocked c) (tcbs s' t) \<Longrightarrow> lists_ok {} ?LS s'"
    by (rule move_list [OF I(1) L t]) (rule that)
  define s' where "s' = count_inc (Blocked c) ((upd_tcb t ?f ((count_dec (Runnable c) s)\<lparr>links := h1\<rparr>))\<lparr>links := h2\<rparr>)"
  have b: "select_body c c t (found, s) = Some (False, found, s')"
    using e h(1,2) by (simp add: select_body_def s'_def count_dec_def)
  have o: "lists_ok {} ?LS s'"
    using lists_okD(3) [OF I(1) L(1) t] by (intro h(3)) (auto simp: s'_def list_op_defs)
  have "base_ok s'"
    using al base_okD(1) [OF I(2)] base_okD(6,7) [OF I(2)] pool_NT(1)
    by (intro base_ok_same_stack [OF I(2), of t ?f]) (auto simp: s'_def list_op_defs tcb_ok_def)
  moreover have "curr_loc c t ?LS s'"
    using clean_unblocked [OF e(1)] by (simp add: curr_loc_def clean_def s'_def list_op_defs atomic_set_def)
  moreover have "?LS (Runnable c) = pre @ xs" using I(3) d by (simp add: remove1_append)
  ultimately have "sel_inv c me R P ?LS pre xs found s'"
    using o by (intro sel_inv_drop [OF i c]) (auto simp: s'_def list_op_defs)
  then show thesis using b by (intro that [of s' ?LS]) (simp_all add: s'_def list_op_defs atomic_set_def)
qed

lemma migrating_lock_free:
  assumes "base_ok s"
  shows "spinlock_lock (tl_lock (tls s Migrating)) = Some ((tl_lock (tls s Migrating))\<lparr>lock := 1\<rparr>)"
    "spinlock_trylock (tl_lock (tls s Migrating)) = (True, (tl_lock (tls s Migrating))\<lparr>lock := 1\<rparr>)"
  using base_okD(7) [OF assms] by (simp_all add: spinlock_lock_free spinlock_trylock_def cmpxchg_def)

lemma sel_migrate:
  assumes i: "sel_inv c me R P LS pre (t # xs) found s" and c: "c < MAX_PROCESSOR_COUNT"
    and e: "clean (tcbs s t)" "available_next (tcbs s t)" "\<not> core_is_allowed (tcbs s t) c"
  obtains LS' s' where "select_body c c t (found, s) = Some (False, found, s')" "sel_inv c me R P LS' pre xs found s'"
proof -
  note I = sel_invD [OF i]
  have L: "Runnable c \<in> list_ids" "Migrating \<in> list_ids" "Runnable c \<noteq> Migrating" using c by simp_all
  have t: "t \<in> set (LS (Runnable c))" using I(3) by simp
  have d: "distinct (pre @ t # xs)" by (rule sel_inv_distinct [OF i c])
  note al = listed_allocated [OF I(1) L(1) t]
  let ?LS = "LS(Runnable c := remove1 t (LS (Runnable c)), Migrating := LS Migrating @ [t])"
  obtain h1 h2 where h: "\<And>s'. links s' = links s \<Longrightarrow> links_del_init t s' = Some (s'\<lparr>links := h1\<rparr>)"
    "\<And>s'. links s' = h1 \<Longrightarrow> links_add_tail t Migrating s' = Some (s'\<lparr>links := h2\<rparr>)"
    "\<And>s'. links s' = h2 \<Longrightarrow>
      (\<forall>n. tl_count (tls s' n) = tl_count (tls s n) + (if n = Migrating then 1 else 0) - (if n = Runnable c then 1 else 0)) \<Longrightarrow>
      (\<forall>u. u \<noteq> t \<longrightarrow> tcbs s' u = tcbs s u) \<Longrightarrow> listed_ok Migrating (tcbs s' t) \<Longrightarrow> lists_ok {} ?LS s'"
    by (rule move_list [OF I(1) L t]) (rule that)
  let ?s1 = "upd_list Migrating (\<lambda>l. l\<lparr>tl_lock := (tl_lock (tls s Migrating))\<lparr>lock := 1\<rparr>\<rparr>) s"
  define s' where "s' = list_unlock Migrating (count_inc Migrating ((count_dec (Runnable c) ?s1)\<lparr>links := h2\<rparr>))"
  have b: "select_body c c t (found, s) = Some (False, found, s')"
    using e h(1,2) migrating_lock_free [OF I(2)]
    by (simp add: select_body_def s'_def count_dec_def list_trylock_def clean_iff)
  have o: "lists_ok {} ?LS s'"
    using lists_okD(3) [OF I(1) L(1) t] e(2) by (intro h(3)) (auto simp: s'_def list_op_defs available_next_def)
  have "base_ok s'"
    using al base_okD(1) [OF I(2)] base_okD(6,7) [OF I(2)] pool_NT(1)
    by (intro base_ok_same_stack [OF I(2), of t "\<lambda>b. b"]) (auto simp: s'_def list_op_defs spinlock_unlock_def allocated_def)
  moreover have "curr_loc c t ?LS s'" using e(1) by (simp add: curr_loc_def s'_def list_op_defs)
  moreover have "?LS (Runnable c) = pre @ xs" using I(3) d by (simp add: remove1_append)
  ultimately have "sel_inv c me R P ?LS pre xs found s'"
    using o by (intro sel_inv_drop [OF i c]) (auto simp: s'_def list_op_defs)
  then show thesis using b that by blast
qed

lemma sel_found:
  assumes i: "sel_inv c me R P LS pre (t # xs) None s" and c: "c < MAX_PROCESSOR_COUNT"
    and e: "clean (tcbs s t)" "available_next (tcbs s t)" "core_is_allowed (tcbs s t) c"
  obtains s' where "select_body c c t (None, s) = Some (False, Some t, s')" "sel_inv c me R P LS (pre @ [t]) xs (Some t) s'"
    "tcbs s' = (tcbs s)(t := (tcbs s t)\<lparr>tstate := THREAD_STATE_RUNNING\<rparr>)" "links s' = links s" "tls s' = tls s"
proof -
  note I = sel_invD [OF i]
  have L: "Runnable c \<in> list_ids" using c by simp
  have t: "t \<in> set (LS (Runnable c))" using I(3) by simp
  have d: "distinct (pre @ t # xs)" by (rule sel_inv_distinct [OF i c])
  note al = listed_allocated [OF I(1) L(1) t]
  let ?f = "\<lambda>b :: TCB. b\<lparr>tstate := THREAD_STATE_RUNNING\<rparr>"
  define s' where "s' = (upd_tcb t ?f s)\<lparr>g_running_thread_list := (g_running_thread_list s)(c := Some t)\<rparr>"
  have b: "select_body c c t (None, s) = Some (False, Some t, s')"
    using e by (simp add: select_body_def s'_def clean_iff)
  have o: "lists_ok {} LS s'"
  proof (rule lists_ok_tcbs [OF I(1)])
    show "listed_ok l (tcbs s' u)" if "l \<in> list_ids" "u \<in> set (LS l)" "listed_ok l (tcbs s u)" for l u
      using that one_list [OF I(1) L that(1) t] by (cases "u = t") (auto simp: s'_def)
  qed (simp_all add: s'_def)
  have bo: "base_ok s'"
    using al base_okD(1) [OF I(2)] base_okD(6,7) [OF I(2)] pool_NT(1)
    by (intro base_ok_same_stack [OF I(2), of t ?f]) (auto simp: s'_def tcb_ok_def)
  have cl: "clean (tcbs s' u)" if "u \<in> set (pre @ [t])" for u
    using that I(4) e(1) by (cases "u = t") (auto simp: s'_def clean_def)
  have "curr_loc c me LS s'" using I(8) by (cases "me = t") (auto simp: curr_loc_def s'_def clean_def)
  moreover have "slices_left (pre @ t # xs) s'" if P
    using I(9) [OF that] by (auto simp: slices_left_def s'_def)
  ultimately have "sel_inv c me R P LS (pre @ [t]) xs (Some t) s'"
    using o bo cl I(3,6,7,10) unfolding sel_inv_def by (simp add: s'_def)
  then show thesis using b by (intro that [of s']) (simp_all add: s'_def)
qed

lemma refill_ok:
  assumes b: "base_ok s" and t: "t < NT"
  obtains s' where "refill_time_slice t s = Some s'" "tcbs s' = (tcbs s)(t := (tcbs s t)\<lparr>remaining_time_slice :=
      (if remaining_time_slice (tcbs s t) \<le> 0 then time_slice (tcbs s t) else remaining_time_slice (tcbs s t))\<rparr>)"
    "links s' = links s" "tls s' = tls s" "running_thread s' = running_thread s" "base_ok s'"
    "0 < remaining_time_slice (tcbs s' t)" "g_running_thread_list s' = g_running_thread_list s" "apic s' = apic s" "msr s' = msr s"
proof -
  let ?f = "\<lambda>b :: TCB. b\<lparr>remaining_time_slice := (if remaining_time_slice b \<le> 0 then time_slice b else remaining_time_slice b)\<rparr>"
  have ok: "tcb_ok t (tcbs s t)" using base_okD(1) [OF b t] .
  have r: "refill_time_slice t s = Some (upd_tcb t ?f s)"
    using ok by (simp add: refill_time_slice_def tcb_ok_def THREAD_INFINITE_TIME_QUANTUM_def Let_def upd_tcb_def fun_upd_idem)
  have "base_ok (upd_tcb t ?f s)"
    using ok base_okD(2) [OF b] base_okD(6,7) [OF b]
    by (intro base_ok_upd [OF b, of t]) (auto simp: tcb_ok_def idle_ok_def)
  then show thesis using ok by (intro that [OF r]) (simp_all add: tcb_ok_def)
qed

lemma lists_ok_refilled:
  assumes "lists_ok X LS s" "links s' = links s" "tls s' = tls s"
    and "tcbs s' = (tcbs s)(t := (tcbs s t)\<lparr>remaining_time_slice := r\<rparr>)"
  shows "lists_ok X LS s'"
proof (rule lists_ok_tcbs [OF assms(1)])
  show "listed_ok l (tcbs s' u)" if "listed_ok l (tcbs s u)" for l u
    using that by (cases l; cases "u = t") (auto simp: assms(4))
qed (use assms in simp_all)

text \<open>The scan leaves early only at the current thread, when that exits.\<close>

definition sel_left :: "nat \<Rightarrow> nat \<Rightarrow> nat option carray \<Rightarrow> nat option \<Rightarrow> sched_state \<Rightarrow> bool" where
  "sel_left c me R found s \<longleftrightarrow> found = Some c \<and> running_thread s = R \<and> base_ok s \<and> intention (tcbs s me) AND THREAD_INTENTION_EXITED \<noteq> 0 \<and>
     (\<exists>LS. lists_ok {} LS s \<and> me \<in> set (LS (Runnable c)) \<and> others_run c R LS)"

lemma select_body_ok:
  assumes i: "sel_inv c me R P LS pre (t # xs) found s" and c: "c < MAX_PROCESSOR_COUNT"
  shows "\<exists>b fs. select_body c c t (found, s) = Some (b, fs) \<and>
    (if b then sel_left c me R (fst fs) (snd fs) else \<exists>LS' pre'. sel_inv c me R P LS' pre' xs (fst fs) (snd fs))"
proof -
  note I = sel_invD [OF i]
  have t: "t \<in> set (LS (Runnable c))" using I(3) by simp
  consider (exit_me) "intention (tcbs s t) AND THREAD_INTENTION_EXITED \<noteq> 0" "me = t"
    | (exit_other) "intention (tcbs s t) AND THREAD_INTENTION_EXITED \<noteq> 0" "me \<noteq> t"
    | (block) "intention (tcbs s t) AND THREAD_INTENTION_EXITED = 0" "intention (tcbs s t) AND THREAD_INTENTION_BLOCKED \<noteq> 0"
    | (found) "clean (tcbs s t)" "available_next (tcbs s t)" "core_is_allowed (tcbs s t) c" "found = None"
    | (move) "clean (tcbs s t)" "available_next (tcbs s t)" "\<not> core_is_allowed (tcbs s t) c"
    | (keep) "clean (tcbs s t)" "\<not> available_next (tcbs s t) \<or> core_is_allowed (tcbs s t) c \<and> found \<noteq> None"
    by (auto simp: clean_iff)
  then show ?thesis
  proof cases
    case exit_me
    have "c < NT" using c by simp
    then obtain s' where s': "refill_time_slice c s = Some s'" "tcbs s' = (tcbs s)(c := (tcbs s c)\<lparr>remaining_time_slice :=
        (if remaining_time_slice (tcbs s c) \<le> 0 then time_slice (tcbs s c) else remaining_time_slice (tcbs s c))\<rparr>)"
      "links s' = links s" "tls s' = tls s" "running_thread s' = running_thread s" "base_ok s'"
      by (rule refill_ok [OF I(2)])
    have "lists_ok {} LS s'" using I(1) s'(3,4,2) by (rule lists_ok_refilled)
    then have "sel_left c me R (Some c) s'" using s'(5,6) I(6,10) t exit_me by (auto simp: sel_left_def s'(2))
    moreover have "select_body c c t (found, s) = Some (True, Some c, s')"
      using exit_me I(6,7) s'(1) by (simp add: select_body_def get_current_def)
    ultimately show ?thesis by auto
  next
    case exit_other
    then show ?thesis using sel_exited [OF i c] by (metis fst_conv snd_conv)
  next
    case block
    then show ?thesis using sel_blocked [OF i c] by (metis fst_conv snd_conv)
  next
    case found
    then show ?thesis using sel_found [of c me R P LS pre t xs s] i c by (metis fst_conv snd_conv)
  next
    case move
    then show ?thesis using sel_migrate [OF i c] by (metis fst_conv snd_conv)
  next
    case keep
    then have "select_body c c t (found, s) = Some (False, found, s)" by (auto simp: select_body_def clean_iff)
    then show ?thesis using sel_inv_keep [OF i keep(1), of found] by auto
  qed
qed

section \<open>The whole selection\<close>

abbreviation sel_start :: "nat \<Rightarrow> nat \<Rightarrow> nat option carray \<Rightarrow> bool \<Rightarrow> (list_id \<Rightarrow> nat list) \<Rightarrow> sched_state \<Rightarrow> bool" where
  "sel_start c me R P LS s \<equiv> sel_inv c me R P LS [] (LS (Runnable c)) None s"

abbreviation sel_done :: "nat \<Rightarrow> nat \<Rightarrow> nat option carray \<Rightarrow> bool \<Rightarrow> (list_id \<Rightarrow> nat list) \<Rightarrow> nat option \<Rightarrow> sched_state \<Rightarrow> bool" where
  "sel_done c me R P LS found s \<equiv> sel_inv c me R P LS (LS (Runnable c)) [] found s"

text \<open>
  The loops are followed with a second invariant \<open>K\<close>, of the threads still to be scanned and the
  state, for what a proof wants to know about one thread.
\<close>

lemma select_scan:
  assumes i: "sel_start c me R P LS s" and c: "c < MAX_PROCESSOR_COUNT" and K: "K (LS (Runnable c)) s"
    and step: "\<And>LS pre t xs found s b found' s'. sel_inv c me R P LS pre (t # xs) found s \<Longrightarrow> K (t # xs) s \<Longrightarrow>
      select_body c c t (found, s) = Some (b, found', s') \<Longrightarrow> (if b then K' s' else K xs s')"
  obtains b found s' where
    "dl_list_for_each_safe (\<lambda>fs. links (snd fs)) (select_body c c) (Runnable c) (None, s) = Some (b, found, s')"
    "b \<Longrightarrow> sel_left c me R found s' \<and> K' s'" "\<not> b \<Longrightarrow> \<exists>LS'. sel_done c me R P LS' found s' \<and> K [] s'"
proof -
  let ?Inv = "\<lambda>xs fs. (\<exists>LS pre. sel_inv c me R P LS pre xs (fst fs) (snd fs)) \<and> K xs (snd fs)"
  let ?Q = "\<lambda>b fs. if b then sel_left c me R (fst fs) (snd fs) \<and> K' (snd fs)
    else (\<exists>LS'. sel_done c me R P LS' (fst fs) (snd fs)) \<and> K [] (snd fs)"
  have "\<exists>b fs. dl_list_for_each_safe (\<lambda>fs. links (snd fs)) (select_body c c) (Runnable c) (None, s) = Some (b, fs) \<and> ?Q b fs"
  proof (rule for_each_safe_rule [where Inv = ?Inv and LS = LS and L = list_ids])
    show "?Inv (LS (Runnable c)) (None, s)" using i K by auto
    show "lists_rep list_ids (links (snd (None, s))) LS" using lists_okD(1) [OF sel_invD(1) [OF i]] by simp
    show "\<exists>b fs1. select_body c c t fs = Some (b, fs1) \<and> (if b then ?Q True fs1 else ?Inv xs fs1 \<and> chain (links (snd fs1)) (Runnable c) xs)"
      if inv: "?Inv (t # xs) fs" for t xs fs
    proof -
      obtain LS1 pre where i1: "sel_inv c me R P LS1 pre (t # xs) (fst fs) (snd fs)" using inv by blast
      obtain b fs1 where b: "select_body c c t (fst fs, snd fs) = Some (b, fs1)"
        "if b then sel_left c me R (fst fs1) (snd fs1) else \<exists>LS pre. sel_inv c me R P LS pre xs (fst fs1) (snd fs1)"
        using select_body_ok [OF i1 c] by blast
      have k: "if b then K' (snd fs1) else K xs (snd fs1)"
        using step [OF i1, of b "fst fs1" "snd fs1"] inv b(1) by simp
      have "chain (links (snd fs1)) (Runnable c) xs" if inv1: "?Inv xs fs1"
      proof -
        obtain LS2 pre2 where i2: "sel_inv c me R P LS2 pre2 xs (fst fs1) (snd fs1)" using inv1 by blast
        show ?thesis using rep_chain [OF lists_okD(1) [OF sel_invD(1) [OF i2]] _ sel_invD(3) [OF i2]] c by simp
      qed
      then show ?thesis using b k by (cases b) auto
    qed
    show "?Q False fs" if inv: "?Inv [] fs" for fs
    proof -
      obtain LS1 pre where i1: "sel_inv c me R P LS1 pre [] (fst fs) (snd fs)" using inv by blast
      then have "sel_done c me R P LS1 (fst fs) (snd fs)" using sel_invD(3) [OF i1] by simp
      then show ?thesis using inv by auto
    qed
  qed (use c in simp)
  then obtain b fs where r: "dl_list_for_each_safe (\<lambda>fs. links (snd fs)) (select_body c c) (Runnable c) (None, s) = Some (b, fs)" "?Q b fs"
    by blast
  then show thesis by (intro that [of b "fst fs" "snd fs"]) auto
qed

definition refill_inv :: "nat \<Rightarrow> nat \<Rightarrow> nat option carray \<Rightarrow> (sched_state \<Rightarrow> bool) \<Rightarrow> (list_id \<Rightarrow> nat list) \<Rightarrow> sched_state \<Rightarrow>
    nat list \<Rightarrow> bool \<times> sched_state \<Rightarrow> bool" where
  "refill_inv c me R K LS s0 xs rs \<longleftrightarrow> K (snd rs) \<and> sel_done c me R False LS None (snd rs) \<and> (\<not> fst rs \<longrightarrow> snd rs = s0) \<and>
     (fst rs \<longrightarrow> (\<exists>u\<in>set (LS (Runnable c)). tstate (tcbs s0 u) = THREAD_STATE_READY \<and> remaining_time_slice (tcbs s0 u) \<le> 0)) \<and>
     (\<exists>pre. LS (Runnable c) = pre @ xs \<and> slices_left pre (snd rs) \<and> (\<forall>u\<in>set xs. tcbs (snd rs) u = tcbs s0 u))"

lemma refill_body_ok:
  assumes i: "refill_inv c me R K LS s0 (t # xs) rs" and c: "c < MAX_PROCESSOR_COUNT"
    and refill: "\<And>t s s' r. K s \<Longrightarrow> t \<in> set (LS (Runnable c)) \<Longrightarrow> tstate (tcbs s t) = THREAD_STATE_READY \<Longrightarrow>
      tcbs s' = (tcbs s)(t := (tcbs s t)\<lparr>remaining_time_slice := r\<rparr>) \<Longrightarrow> K s'"
  shows "\<exists>rs1. refill_body t rs = Some rs1 \<and> refill_inv c me R K LS s0 xs rs1 \<and> links (snd rs1) = links (snd rs)"
proof -
  obtain r s where rs: "rs = (r, s)" by (cases rs)
  obtain pre where I: "sel_done c me R False LS None s" "\<not> r \<longrightarrow> s = s0"
    "r \<longrightarrow> (\<exists>u\<in>set (LS (Runnable c)). tstate (tcbs s0 u) = THREAD_STATE_READY \<and> remaining_time_slice (tcbs s0 u) \<le> 0)"
    "LS (Runnable c) = pre @ t # xs" "slices_left pre s" "\<forall>u\<in>set (t # xs). tcbs s u = tcbs s0 u" "K s"
    using i unfolding refill_inv_def rs fst_conv snd_conv by blast
  note D = sel_invD [OF I(1)]
  have d: "distinct (pre @ t # xs)" using sel_inv_distinct [OF I(1) c] I(4) by simp
  show ?thesis
  proof (cases "tstate (tcbs s t) = THREAD_STATE_READY \<and> remaining_time_slice (tcbs s t) \<le> 0")
    case True
    have tn: "t < NT" using lists_okD(4) [OF D(1), of "Runnable c" t] I(4) c pool_NT(1) by auto
    obtain s' where s': "refill_time_slice t s = Some s'" "tcbs s' = (tcbs s)(t := (tcbs s t)\<lparr>remaining_time_slice :=
        (if remaining_time_slice (tcbs s t) \<le> 0 then time_slice (tcbs s t) else remaining_time_slice (tcbs s t))\<rparr>)"
      "links s' = links s" "tls s' = tls s" "running_thread s' = running_thread s" "base_ok s'"
      "0 < remaining_time_slice (tcbs s' t)"
      by (rule refill_ok [OF D(2) tn])
    have "lists_ok {} LS s'" using D(1) s'(3,4,2) by (rule lists_ok_refilled)
    moreover have "clean (tcbs s' u) = clean (tcbs s u)" for u using s'(2) by (simp add: clean_def)
    ultimately have "sel_done c me R False LS None s'"
      using D(4,6,7,8,10) s'(5,6) by (simp add: sel_inv_def curr_loc_def)
    moreover have "slices_left (pre @ [t]) s'"
      using I(5) s'(7) d unfolding s'(2) slices_left_def by auto
    moreover have "\<forall>u\<in>set xs. tcbs s' u = tcbs s0 u" using I(6) d by (auto simp: s'(2))
    moreover have "K s'" using refill [OF I(7) _ _ s'(2)] True I(4) by simp
    ultimately have "refill_inv c me R K LS s0 xs (True, s')"
      using I(4,6) True unfolding refill_inv_def by auto
    then show ?thesis using True s'(1,3) by (auto simp: refill_body_def rs)
  next
    case False
    then have "slices_left (pre @ [t]) s" using I(5) by (auto simp: slices_left_def)
    then have "refill_inv c me R K LS s0 xs (r, s)" using I unfolding refill_inv_def by fastforce
    then show ?thesis using False by (auto simp: refill_body_def rs)
  qed
qed

lemma refill_scan:
  assumes i: "sel_done c me R P LS None s" and c: "c < MAX_PROCESSOR_COUNT" and K: "K s"
    and refill: "\<And>t s s' r. K s \<Longrightarrow> t \<in> set (LS (Runnable c)) \<Longrightarrow> tstate (tcbs s t) = THREAD_STATE_READY \<Longrightarrow>
      tcbs s' = (tcbs s)(t := (tcbs s t)\<lparr>remaining_time_slice := r\<rparr>) \<Longrightarrow> K s'"
  obtains r s' where "dl_list_for_each (\<lambda>rs. links (snd rs)) refill_body (Runnable c) (False, s) = Some (r, s')"
    "\<not> r \<Longrightarrow> s' = s" "r \<Longrightarrow> \<not> P" "r \<Longrightarrow> sel_start c me R True LS s'" "K s'"
    "slices_left (LS (Runnable c)) s'" "r \<Longrightarrow> \<exists>u\<in>set (LS (Runnable c)). tstate (tcbs s u) = THREAD_STATE_READY"
proof -
  have "\<exists>rs. dl_list_for_each (\<lambda>rs. links (snd rs)) refill_body (Runnable c) (False, s) = Some rs \<and> refill_inv c me R K LS s [] rs"
  proof (rule for_each_rule [where Inv = "refill_inv c me R K LS s" and LS = LS and L = list_ids])
    have "sel_done c me R False LS None s" using i by (simp add: sel_inv_def)
    then show "refill_inv c me R K LS s (LS (Runnable c)) (False, s)" using K by (simp add: refill_inv_def slices_left_def)
    show "lists_rep list_ids (links (snd (False, s))) LS" using lists_okD(1) [OF sel_invD(1) [OF i]] by simp
    show "\<exists>rs1. refill_body t rs = Some rs1 \<and> refill_inv c me R K LS s xs rs1 \<and> links (snd rs1) = links (snd rs)"
      if "refill_inv c me R K LS s (t # xs) rs" for t xs rs using refill_body_ok [OF that c refill] .
  qed (use c in simp_all)
  then obtain r s' where rs: "dl_list_for_each (\<lambda>rs. links (snd rs)) refill_body (Runnable c) (False, s) = Some (r, s')"
    "refill_inv c me R K LS s [] (r, s')" by auto
  then have s': "sel_done c me R False LS None s'" "\<not> r \<Longrightarrow> s' = s" "slices_left (LS (Runnable c)) s'"
    "r \<Longrightarrow> \<exists>u\<in>set (LS (Runnable c)). tstate (tcbs s u) = THREAD_STATE_READY \<and> remaining_time_slice (tcbs s u) \<le> 0" "K s'"
    by (auto simp: refill_inv_def)
  have "\<not> P" if r
    using s'(4) [OF that] sel_invD(9) [OF i] by (force simp: slices_left_def)
  moreover have "sel_start c me R True LS s'" using s'(1,3) by (simp add: sel_inv_def)
  ultimately show thesis using rs(1) s'(2-5) by (intro that [of r s']) auto
qed

definition selected :: "nat \<Rightarrow> nat \<Rightarrow> nat option carray \<Rightarrow> nat \<Rightarrow> sched_state \<Rightarrow> bool" where
  "selected c me R t s \<longleftrightarrow> t = c \<and> sel_left c me R (Some c) s \<or>
     (\<exists>LS. sel_done c me R False LS None s \<and> (t = c \<or> t \<in> set (LS (Runnable c))))"

lemma sel_done_selected:
  assumes "sel_done c me R P LS found s" "t = c \<or> t \<in> set (LS (Runnable c))"
  shows "selected c me R t s"
  using assms by (auto simp: selected_def sel_inv_def)

text \<open>What a second invariant has to satisfy.\<close>

definition tracks :: "nat \<Rightarrow> nat \<Rightarrow> nat option carray \<Rightarrow> (nat list \<Rightarrow> sched_state \<Rightarrow> bool) \<Rightarrow> (sched_state \<Rightarrow> bool) \<Rightarrow> bool" where
  "tracks c me R K K' \<longleftrightarrow>
     (\<forall>P LS pre t xs found s b found' s'. sel_inv c me R P LS pre (t # xs) found s \<longrightarrow> K (t # xs) s \<longrightarrow>
        select_body c c t (found, s) = Some (b, found', s') \<longrightarrow> (if b then K' s' else K xs s')) \<and>
     (\<forall>t s s' r. K [] s \<longrightarrow> tstate (tcbs s t) = THREAD_STATE_READY \<longrightarrow>
        tcbs s' = (tcbs s)(t := (tcbs s t)\<lparr>remaining_time_slice := r\<rparr>) \<longrightarrow> K [] s') \<and>
     (\<forall>LS s. lists_ok {} LS s \<longrightarrow> K [] s \<longrightarrow> K (LS (Runnable c)) s) \<and> (\<forall>s. K [] s \<longrightarrow> K' s)"

lemma tracks_True: "tracks c me R (\<lambda>_ _. True) (\<lambda>_. True)"
  by (simp add: tracks_def)

text \<open>The retry after a refill finds that no thread is out of its time slice.\<close>

lemma select_retry_step:
  assumes i: "sel_start c me R P LS s" and c: "c < MAX_PROCESSOR_COUNT" and K: "K (LS (Runnable c)) s" and T: "tracks c me R K K'"
    and again: "\<And>LS s. \<not> P \<Longrightarrow> sel_start c me R True LS s \<Longrightarrow> K (LS (Runnable c)) s \<Longrightarrow>
      \<exists>t s'. select_retry c c s = Some (t, s') \<and> selected c me R t s' \<and> K' s'"
  shows "\<exists>t s'. select_retry c c s = Some (t, s') \<and> selected c me R t s' \<and> K' s'"
proof -
  have step: "if b then K' s' else K xs s'" if "sel_inv c me R P LS pre (t # xs) found s" "K (t # xs) s"
    "select_body c c t (found, s) = Some (b, found', s')" for LS pre t xs found s b found' s'
    using T that unfolding tracks_def by blast
  obtain b found s1 where f: "dl_list_for_each_safe (\<lambda>fs. links (snd fs)) (select_body c c) (Runnable c) (None, s) = Some (b, found, s1)"
    "b \<Longrightarrow> sel_left c me R found s1 \<and> K' s1" "\<not> b \<Longrightarrow> \<exists>LS'. sel_done c me R P LS' found s1 \<and> K [] s1"
    by (rule select_scan [where K = K and K' = K', OF i c K step]) (assumption+, rule that)
  have K's: "K' s1" using f(2,3) T by (cases b) (auto simp: tracks_def)
  show ?thesis
  proof (cases found)
    case (Some t)
    have "selected c me R t s1"
    proof (cases b)
      case True
      then show ?thesis using f(2) Some by (simp add: selected_def sel_left_def)
    next
      case False
      then obtain LS' where "sel_done c me R P LS' found s1" using f(3) by blast
      then show ?thesis using sel_invD(5) Some by (intro sel_done_selected) auto
    qed
    then show ?thesis using f(1) Some K's by (subst select_retry.simps) simp
  next
    case None
    then have nb: "\<not> b" using f(2) by (auto simp: sel_left_def)
    obtain LS1 where d: "sel_done c me R P LS1 None s1" "K [] s1" using f(3) nb None by blast
    have refill: "K [] s'" if "K [] s" "tstate (tcbs s t) = THREAD_STATE_READY"
      "tcbs s' = (tcbs s)(t := (tcbs s t)\<lparr>remaining_time_slice := r\<rparr>)" for t s s' r
      using T that unfolding tracks_def by blast
    obtain r s2 where r: "dl_list_for_each (\<lambda>rs. links (snd rs)) refill_body (Runnable c) (False, s1) = Some (r, s2)"
      "\<not> r \<Longrightarrow> s2 = s1" "r \<Longrightarrow> \<not> P" "r \<Longrightarrow> sel_start c me R True LS1 s2" "K [] s2"
      by (rule refill_scan [where K = "K []", OF d(1) c d(2) refill]) (assumption+, rule that)
    have u: "select_retry c c s = (if r then select_retry c c s2
        else if tl_count (tls s2 (Runnable c)) = 1 then do { t \<leftarrow> entry (dl_list_first (Head (Runnable c)) (links s2)); Some (t, s2) }
        else Some (c, s2))"
      using f(1) None r(1) by (subst select_retry.simps) simp
    show ?thesis
    proof (cases r)
      case True
      have "K (LS1 (Runnable c)) s2" using T r(5) sel_invD(1) [OF r(4) [OF True]] unfolding tracks_def by blast
      then show ?thesis using again [OF r(3,4)] u True by simp
    next
      case False
      note s2 = r(2) [OF False] and L = lists_okD [OF sel_invD(1) [OF d(1)]]
      have first: "entry (dl_list_first (Head (Runnable c)) (links s1)) = Some (hd (LS1 (Runnable c))) \<and> LS1 (Runnable c) \<noteq> []"
        if "tl_count (tls s1 (Runnable c)) = 1"
        using that L(2) [of "Runnable c"] c rep_first [OF L(1), of "Runnable c"]
        by (cases "LS1 (Runnable c)") (simp_all add: entry_def)
      show ?thesis
        using u False s2 first K's sel_done_selected [OF d(1)] by (cases "tl_count (tls s1 (Runnable c)) = 1") auto
    qed
  qed
qed

lemma select_retry_ok:
  assumes "sel_start c me R P LS s" "c < MAX_PROCESSOR_COUNT" "K (LS (Runnable c)) s" "tracks c me R K K'"
  shows "\<exists>t s'. select_retry c c s = Some (t, s') \<and> selected c me R t s' \<and> K' s'"
  using assms by (intro select_retry_step [OF assms]) (auto intro: select_retry_step)

end
