(* ===== verification/SchedSwitch.thy ===== *)
theory SchedSwitch
  imports SchedSelect
begin

text \<open>
  What a context switch does to the previous thread and to the lists, and that \<^verbatim>\<open>schedule\<close> keeps the
  invariant of the whole system.
\<close>

section \<open>The length of a list\<close>

lemma length_list_le:
  assumes o: "lists_ok X LS s" and l: "l \<in> list_ids"
  shows "length (LS l) \<le> CONFIG_NUM_THREAD"
proof -
  have "length (LS l) = card (set (LS l))" using lists_repD(2) [OF lists_okD(1) [OF o] l] by (simp add: distinct_card)
  also have "\<dots> \<le> card pool_tids" by (rule card_mono) (use lists_okD(4) [OF o l] in \<open>auto simp: pool_tids_def\<close>)
  finally show ?thesis by (simp add: pool_tids_def)
qed

lemma count_zero_iff:
  assumes o: "lists_ok X LS s" and l: "l \<in> list_ids"
  shows "tl_count (tls s l) = 0 \<longleftrightarrow> LS l = []"
proof -
  have "unat (tl_count (tls s l)) = length (LS l)"
    using length_list_le [OF o l] lists_okD(2) [OF o l] by (simp add: unat_of_nat take_bit_nat_eq_self CONFIG_NUM_THREAD_def)
  then show ?thesis by (metis length_0_conv unat_eq_zero)
qed

section \<open>The invariant of the system\<close>

text \<open>The thread that runs on a core is its idle thread or one of its runnable list.\<close>

definition sys_ok :: "(list_id \<Rightarrow> nat list) \<Rightarrow> sched_state \<Rightarrow> bool" where
  "sys_ok LS s \<longleftrightarrow> lists_ok {} LS s \<and> base_ok s \<and>
     (\<forall>d<MAX_PROCESSOR_COUNT. \<forall>t. running_thread s d = Some t \<longrightarrow> t = d \<or> t \<in> set (LS (Runnable d)))"

lemma sys_okD:
  assumes "sys_ok LS s"
  shows "lists_ok {} LS s" "base_ok s"
    "d < MAX_PROCESSOR_COUNT \<Longrightarrow> running_thread s d = Some t \<Longrightarrow> t = d \<or> t \<in> set (LS (Runnable d))"
  using assms by (auto simp: sys_ok_def)

lemma sys_others_run: "sys_ok LS s \<Longrightarrow> others_run c (running_thread s) LS"
  by (simp add: sys_ok_def others_run_def)

lemma sys_okI:
  assumes "lists_ok {} LS s" "base_ok s" "others_run c R LS" "\<And>d. d \<noteq> c \<Longrightarrow> running_thread s d = R d"
    "\<And>t. running_thread s c = Some t \<Longrightarrow> t = c \<or> t \<in> set (LS (Runnable c))"
  shows "sys_ok LS s"
  using assms unfolding sys_ok_def others_run_def by metis

lemma unat_core: "c < MAX_PROCESSOR_COUNT \<Longrightarrow> unat (of_nat c :: 16 word) = c"
  by (simp add: unat_of_nat take_bit_nat_eq_self MAX_PROCESSOR_COUNT_def)

lemma running_on:
  assumes "sys_ok LS s" "running_thread s c = Some t" "c < MAX_PROCESSOR_COUNT"
  shows "unat (running_core (tcbs s t)) = c" "t < NT" "tcb_id (tcbs s t) = t"
    "tstate (tcbs s t) \<notin> {THREAD_STATE_EXITED, THREAD_STATE_NOTALLOC}"
proof -
  note S = sys_okD [OF assms(1)]
  consider "t = c" | "t \<in> set (LS (Runnable c))" using S(3) [OF assms(3,2)] by blast
  then have *: "running_core (tcbs s t) = of_nat c \<and> t < NT \<and> tstate (tcbs s t) \<notin> {THREAD_STATE_EXITED, THREAD_STATE_NOTALLOC}"
  proof cases
    case 1
    then show ?thesis using base_okD(2) [OF S(2) assms(3)] assms(3) by (simp add: idle_ok_def)
  next
    case 2
    then show ?thesis
      using lists_okD(3,4) [OF S(1) _ 2] assms(3) pool_NT(1) by auto
  qed
  then show "unat (running_core (tcbs s t)) = c" "t < NT" "tstate (tcbs s t) \<notin> {THREAD_STATE_EXITED, THREAD_STATE_NOTALLOC}"
    using unat_core [OF assms(3)] by simp_all
  then show "tcb_id (tcbs s t) = t" using base_okD(1) [OF S(2)] by (simp add: tcb_ok_def)
qed

text \<open>A thread in another list is not the one that runs.\<close>

lemma not_running:
  assumes "sys_ok LS s" "c < MAX_PROCESSOR_COUNT" "running_thread s c = Some cur"
    and "l \<in> list_ids" "l \<noteq> Runnable c" "t \<in> set (LS l)"
  shows "t \<noteq> cur"
proof
  assume "t = cur"
  then have "t = c \<or> t \<in> set (LS (Runnable c))" using sys_okD(3) [OF assms(1-3)] by simp
  then show False
    using one_list [OF sys_okD(1) [OF assms(1)] assms(4) _ assms(6)] lists_okD(4) [OF sys_okD(1) [OF assms(1)] assms(4,6)]
      assms(2,5) pool_NT(2) by auto
qed

text \<open>Moving a block between lists, in the shape the operations use.\<close>

lemma sys_move:
  assumes S: "sys_ok LS s" and l: "l \<in> list_ids" "m \<in> list_ids" "l \<noteq> m"
    and t: "t \<in> set (LS l)" "listed_ok m b'" "tcb_ok t b'"
      "stack_base b' = stack_base (tcbs s t)" "tstate b' \<noteq> THREAD_STATE_NOTALLOC"
    and run: "\<forall>d. l = Runnable d \<longrightarrow> running_thread s d \<noteq> Some t"
    and nl: "\<And>d. l \<noteq> Local_tcb d" "l \<noteq> Global_tcb"
  obtains h1 h2 where "\<And>s'. links s' = links s \<Longrightarrow> links_del_init t s' = Some (s'\<lparr>links := h1\<rparr>)"
    "\<And>s'. links s' = h1 \<Longrightarrow> links_add_tail t m s' = Some (s'\<lparr>links := h2\<rparr>)"
    "\<And>s'. links s' = h2 \<Longrightarrow>
      (\<forall>n. tl_count (tls s' n) = tl_count (tls s n) + (if n = m then 1 else 0) - (if n = l then 1 else 0)) \<Longrightarrow>
      tcbs s' = (tcbs s)(t := b') \<Longrightarrow> km s' = km s \<Longrightarrow> apic s' = apic s \<Longrightarrow> running_thread s' = running_thread s \<Longrightarrow>
      lock (tl_lock (tls s' Global_tcb)) = 0 \<Longrightarrow> lock (tl_lock (tls s' Migrating)) = 0 \<Longrightarrow>
      sys_ok (LS(l := remove1 t (LS l), m := LS m @ [t])) s'"
proof -
  note D = sys_okD [OF S]
  obtain h1 h2 where h: "\<And>s'. links s' = links s \<Longrightarrow> links_del_init t s' = Some (s'\<lparr>links := h1\<rparr>)"
    "\<And>s'. links s' = h1 \<Longrightarrow> links_add_tail t m s' = Some (s'\<lparr>links := h2\<rparr>)"
    "\<And>s'. links s' = h2 \<Longrightarrow>
      (\<forall>n. tl_count (tls s' n) = tl_count (tls s n) + (if n = m then 1 else 0) - (if n = l then 1 else 0)) \<Longrightarrow>
      (\<forall>u. u \<noteq> t \<longrightarrow> tcbs s' u = tcbs s u) \<Longrightarrow> listed_ok m (tcbs s' t) \<Longrightarrow>
      lists_ok {} (LS(l := remove1 t (LS l), m := LS m @ [t])) s'"
    by (rule move_list [OF D(1) l(1-3) t(1)]) (rule that)
  have al: "t \<in> allocated s" by (rule listed_allocated [OF D(1) l(1) t(1) nl(2,1)])
  have "sys_ok (LS(l := remove1 t (LS l), m := LS m @ [t])) s'"
    if s': "links s' = h2" "\<forall>n. tl_count (tls s' n) = tl_count (tls s n) + (if n = m then 1 else 0) - (if n = l then 1 else 0)"
      "tcbs s' = (tcbs s)(t := b')" "km s' = km s" "apic s' = apic s" "running_thread s' = running_thread s"
      "lock (tl_lock (tls s' Global_tcb)) = 0" "lock (tl_lock (tls s' Migrating)) = 0" for s'
  proof -
    have "u = d \<or> u \<in> set ((LS(l := remove1 t (LS l), m := LS m @ [t])) (Runnable d))"
      if "d < MAX_PROCESSOR_COUNT" "running_thread s d = Some u" for d u
      using D(3) [OF that] run that(2) by (cases "u = t") auto
    moreover have "lists_ok {} (LS(l := remove1 t (LS l), m := LS m @ [t])) s'"
      using s' t(2) by (intro h(3)) auto
    moreover have "base_ok s'" using s' t by (intro base_ok_same_stack [OF D(2) al, of "\<lambda>_. b'"]) auto
    ultimately show ?thesis using s'(6) by (auto simp: sys_ok_def)
  qed
  then show thesis using h(1,2) by (intro that [of h1 h2]) auto
qed

text \<open>Changing the current thread's block, or another one, in place.\<close>

lemma sys_upd:
  assumes S: "sys_ok LS s" and t: "t < NT"
    and s': "tcbs s' = (tcbs s)(t := f (tcbs s t))" "links s' = links s" "tls s' = tls s" "km s' = km s"
      "ticks_in_10ms (apic s') = ticks_in_10ms (apic s)" "running_thread s' = running_thread s"
    and f: "tcb_ok t (f (tcbs s t))" "t < MAX_PROCESSOR_COUNT \<Longrightarrow> idle_ok t (f (tcbs s t))"
      "stack_base (f (tcbs s t)) = stack_base (tcbs s t)"
      "tstate (f (tcbs s t)) = THREAD_STATE_NOTALLOC \<longleftrightarrow> tstate (tcbs s t) = THREAD_STATE_NOTALLOC"
      "\<And>l. l \<in> list_ids \<Longrightarrow> t \<in> set (LS l) \<Longrightarrow> listed_ok l (f (tcbs s t))"
  shows "sys_ok LS s'"
proof -
  note D = sys_okD [OF S]
  have "lists_ok {} LS s'"
  proof (rule lists_ok_tcbs [OF D(1)])
    show "listed_ok l (tcbs s' u)" if "l \<in> list_ids" "u \<in> set (LS l)" "listed_ok l (tcbs s u)" for l u
      using that f(5) by (cases "u = t") (auto simp: s'(1))
  qed (use s' in simp_all)
  moreover have "base_ok s'"
    using base_okD(6,7) [OF D(2)] f s' by (intro base_ok_upd [OF D(2), of t]) auto
  ultimately show ?thesis using S s'(6) by (simp add: sys_ok_def)
qed

section \<open>The previous thread\<close>

definition READY_mask :: "TCB \<Rightarrow> TCB" where
  "READY_mask b = b\<lparr>tstate := THREAD_STATE_READY, intention := atomic_set (intention b)
     (intention b AND NOT (THREAD_INTENTION_READY OR THREAD_INTENTION_BLOCKED))\<rparr>"

definition BLOCKED_mask :: "TCB \<Rightarrow> TCB" where
  "BLOCKED_mask b = b\<lparr>tstate := THREAD_STATE_BLOCKED,
     intention := atomic_set (intention b) (intention b AND NOT THREAD_INTENTION_BLOCKED)\<rparr>"

lemmas mask_defs = READY_mask_def BLOCKED_mask_def atomic_set_def

lemma clean_masked: "intention b AND k = 0 \<Longrightarrow> (intention b AND m) AND k = 0" for k :: dword
  by (metis and.assoc and.commute and_zero_eq)

definition prev_loc :: "nat \<Rightarrow> nat \<Rightarrow> (list_id \<Rightarrow> nat list) \<Rightarrow> sched_state \<Rightarrow> bool" where
  "prev_loc c prev LS s \<longleftrightarrow> curr_loc c prev LS s \<and> (running_thread s c = Some prev \<longrightarrow> clean (tcbs s prev))"

lemma post_prev_ok:
  assumes S: "sys_ok LS s" and c: "c < MAX_PROCESSOR_COUNT" and cur: "running_thread s c = Some cur"
    and p: "prev_loc c prev LS s"
  obtains LS' s' where "post_prev c prev s = Some s'" "sys_ok LS' s'" "running_thread s' = running_thread s"
proof -
  note D = sys_okD [OF S]
  let ?b = "tcbs s prev"
  have pl: "curr_loc c prev LS s" "cur = prev \<Longrightarrow> clean ?b" using p cur by (auto simp: prev_loc_def)
  have pn: "prev < NT" by (rule curr_NT [OF D(1) pl(1) c])
  have ok: "tcb_ok prev ?b" using base_okD(1) [OF D(2) pn] .
  consider (skip) "tstate ?b = THREAD_STATE_EXITED \<or> tstate ?b = THREAD_STATE_NOTALLOC \<or>
        (intention ?b AND THREAD_INTENTION_READY = 0 \<and> clean ?b)"
    | (ready) "tstate ?b \<noteq> THREAD_STATE_EXITED" "tstate ?b \<noteq> THREAD_STATE_NOTALLOC" "intention ?b AND THREAD_INTENTION_READY \<noteq> 0"
    | (block) "tstate ?b \<noteq> THREAD_STATE_EXITED" "tstate ?b \<noteq> THREAD_STATE_NOTALLOC" "intention ?b AND THREAD_INTENTION_READY = 0"
        "intention ?b AND THREAD_INTENTION_BLOCKED \<noteq> 0"
    | (exit) "tstate ?b \<noteq> THREAD_STATE_EXITED" "tstate ?b \<noteq> THREAD_STATE_NOTALLOC" "intention ?b AND THREAD_INTENTION_READY = 0"
        "intention ?b AND THREAD_INTENTION_BLOCKED = 0" "intention ?b AND THREAD_INTENTION_EXITED \<noteq> 0"
    by (auto simp: clean_iff)
  then show thesis
  proof cases
    case skip
    then have "post_prev c prev s = Some s" by (auto simp: Let_def post_prev_def clean_iff)
    then show thesis using S that by blast
  next
    case ready
    have "sys_ok LS (upd_tcb prev READY_mask s)"
    proof (rule sys_upd [OF S pn, of _ READY_mask])
      show "tcb_ok prev (READY_mask ?b)" using ok by (simp add: tcb_ok_def mask_defs)
      show "idle_ok prev (READY_mask ?b)" if "prev < MAX_PROCESSOR_COUNT"
        using base_okD(2) [OF D(2) that] by (simp add: idle_ok_def mask_defs clean_masked)
      show "listed_ok l (READY_mask ?b)" if "l \<in> list_ids" "prev \<in> set (LS l)" for l
        using lists_okD(3) [OF D(1) that] ready(2) by (cases l) (auto simp: mask_defs)
    qed (use ready in \<open>simp_all add: mask_defs\<close>)
    moreover have "post_prev c prev s = Some (upd_tcb prev READY_mask s)"
      using ready by (simp add: Let_def post_prev_def READY_mask_def [abs_def])
    ultimately show thesis using that by auto
  next
    case block
    have nc: "\<not> clean ?b" using block by (simp add: clean_iff)
    then have "prev \<noteq> c" using idle_clean [OF base_okD(2) [OF D(2) c]] by auto
    then have r: "prev \<in> set (LS (Runnable c))" using pl(1) nc by (auto simp: curr_loc_def)
    have L: "Runnable c \<in> list_ids" "Blocked c \<in> list_ids" "Runnable c \<noteq> Blocked c" using c by simp_all
    have nr: "\<forall>d. Runnable c = Runnable d \<longrightarrow> running_thread s d \<noteq> Some prev" using pl(2) nc cur by auto
    have f: "listed_ok (Blocked c) (BLOCKED_mask ?b)" "tcb_ok prev (BLOCKED_mask ?b)"
      "stack_base (BLOCKED_mask ?b) = stack_base ?b" "tstate (BLOCKED_mask ?b) \<noteq> THREAD_STATE_NOTALLOC"
      using lists_okD(3) [OF D(1) L(1) r] ok by (auto simp: mask_defs tcb_ok_def)
    obtain h1 h2 where h: "\<And>s'. links s' = links s \<Longrightarrow> links_del_init prev s' = Some (s'\<lparr>links := h1\<rparr>)"
      "\<And>s'. links s' = h1 \<Longrightarrow> links_add_tail prev (Blocked c) s' = Some (s'\<lparr>links := h2\<rparr>)"
      "\<And>s'. links s' = h2 \<Longrightarrow>
        (\<forall>n. tl_count (tls s' n) = tl_count (tls s n) + (if n = Blocked c then 1 else 0) - (if n = Runnable c then 1 else 0)) \<Longrightarrow>
        tcbs s' = (tcbs s)(prev := BLOCKED_mask ?b) \<Longrightarrow> km s' = km s \<Longrightarrow> apic s' = apic s \<Longrightarrow>
        running_thread s' = running_thread s \<Longrightarrow>
        lock (tl_lock (tls s' Global_tcb)) = 0 \<Longrightarrow> lock (tl_lock (tls s' Migrating)) = 0 \<Longrightarrow>
        sys_ok (LS(Runnable c := remove1 prev (LS (Runnable c)), Blocked c := LS (Blocked c) @ [prev])) s'"
      by (rule sys_move [OF S L r f nr]) (simp, simp, rule that)
    let ?s' = "count_inc (Blocked c) ((upd_tcb prev BLOCKED_mask ((count_dec (Runnable c) s)\<lparr>links := h1\<rparr>))\<lparr>links := h2\<rparr>)"
    have "post_prev c prev s = Some ?s'"
      using block h(1,2) by (simp add: Let_def post_prev_def BLOCKED_mask_def [abs_def] count_dec_def)
    moreover have "sys_ok (LS(Runnable c := remove1 prev (LS (Runnable c)), Blocked c := LS (Blocked c) @ [prev])) ?s'"
      using base_okD(6,7) [OF D(2)] by (intro h(3)) (simp_all add: list_op_defs)
    ultimately show thesis using that by (auto simp: list_op_defs)
  next
    case exit
    have nc: "\<not> clean ?b" using exit by (simp add: clean_iff)
    then have "prev \<noteq> c" using idle_clean [OF base_okD(2) [OF D(2) c]] by auto
    then have r: "prev \<in> set (LS (Runnable c))" using pl(1) nc by (auto simp: curr_loc_def)
    have ne: "cur \<noteq> prev" using pl(2) nc by auto
    have L: "Runnable c \<in> list_ids" using c by simp
    obtain s1 s' LS' where e: "links_del_init prev (count_dec (Runnable c) (thread_exit prev s)) = Some s1" "put_tcb c prev s1 = Some s'"
      "lists_ok {} LS' s'" "base_ok s'" "others_same prev s s'" "LS' (Runnable c) = remove1 prev (LS (Runnable c))"
      "\<And>m. m \<noteq> Runnable c \<Longrightarrow> m \<noteq> Local_tcb c \<Longrightarrow> m \<noteq> Global_tcb \<Longrightarrow> LS' m = LS m"
      by (rule exit_remove [OF D(1,2) L _ _ r c]) (auto intro: that)
    have R: "running_thread s' = running_thread s" using e(5) by (simp add: others_same_def)
    have "sys_ok LS' s'"
    proof (rule sys_okI [OF e(3,4), of c "running_thread s"])
      show "others_run c (running_thread s) LS'" using sys_others_run [OF S] by (rule others_run_cong) (simp add: e(7))
      show "t = c \<or> t \<in> set (LS' (Runnable c))" if "running_thread s' c = Some t" for t
        using D(3) [OF c, of t] that cur ne unfolding R e(6) by auto
    qed (simp add: R)
    moreover have "post_prev c prev s = Some s'"
      using exit e(1,2) cur running_on(3) [OF S cur c] ok ne by (simp add: Let_def post_prev_def get_current_def tcb_ok_def)
    ultimately show thesis using R that by blast
  qed
qed

section \<open>Loops over a list\<close>

text \<open>
  A loop whose body keeps the invariant, seen through \<open>U\<close>, and takes at most the scanned thread out
  of the list.
\<close>

lemma sys_loop:
  assumes S: "sys_ok LS (U s)" and l: "l \<in> list_ids" and U: "\<And>s. links (U s) = links s" and R: "running_thread s = R"
    and K: "K LS (LS l) s"
    and step: "\<And>LS pre t xs s. sys_ok LS (U s) \<Longrightarrow> LS l = pre @ t # xs \<Longrightarrow> running_thread s = R \<Longrightarrow> K LS (t # xs) s \<Longrightarrow>
      \<exists>b s' LS' pre'. body t s = Some (b, s') \<and> sys_ok LS' (U s') \<and> running_thread s' = R \<and> LS' l = pre' @ xs \<and> K LS' xs s' \<and> (b \<longrightarrow> brk)"
  shows "\<exists>b s' LS' xs. dl_list_for_each_safe links body l s = Some (b, s') \<and> sys_ok LS' (U s') \<and> running_thread s' = R \<and>
    K LS' xs s' \<and> (b \<longrightarrow> brk) \<and> (\<not> b \<longrightarrow> xs = [])"
proof -
  let ?Inv = "\<lambda>xs s. \<exists>LS pre. sys_ok LS (U s) \<and> LS l = pre @ xs \<and> running_thread s = R \<and> K LS xs s"
  let ?Q = "\<lambda>b s. \<exists>LS xs. sys_ok LS (U s) \<and> running_thread s = R \<and> K LS xs s \<and> (b \<longrightarrow> brk) \<and> (\<not> b \<longrightarrow> xs = [])"
  have rep: "lists_rep list_ids (links s) LS" if "sys_ok LS (U s)" for LS s
    using lists_okD(1) [OF sys_okD(1) [OF that]] U by simp
  have "\<exists>b s'. dl_list_for_each_safe links body l s = Some (b, s') \<and> ?Q b s'"
  proof (rule for_each_safe_rule [where Inv = ?Inv and LS = LS and L = list_ids])
    show "?Inv (LS l) s" using S R K by auto
    show "lists_rep list_ids (links s) LS" by (rule rep [OF S])
    show "\<exists>b s1. body t s = Some (b, s1) \<and> (if b then ?Q True s1 else ?Inv xs s1 \<and> chain (links s1) l xs)"
      if inv: "?Inv (t # xs) s" for t xs s
    proof -
      obtain LS1 pre where 1: "sys_ok LS1 (U s)" "LS1 l = pre @ t # xs" "running_thread s = R" "K LS1 (t # xs) s" using inv by blast
      obtain b s1 LS2 pre2 where 2: "body t s = Some (b, s1)" "sys_ok LS2 (U s1)" "running_thread s1 = R" "LS2 l = pre2 @ xs" "K LS2 xs s1" "b \<longrightarrow> brk"
        using step [OF 1] by blast
      have "chain (links s1) l xs" by (rule rep_chain [OF rep [OF 2(2)] l 2(4)])
      then show ?thesis using 2 by auto
    qed
    show "?Q False s" if "?Inv [] s" for s using that by blast
  qed (rule l)
  then show ?thesis by blast
qed

section \<open>The migrating list\<close>

abbreviation unlocked :: "sched_state \<Rightarrow> sched_state" where
  "unlocked \<equiv> list_unlock Migrating"

lemma unlocked_fields [simp]:
  "links (unlocked s) = links s" "tcbs (unlocked s) = tcbs s" "running_thread (unlocked s) = running_thread s"
  "km (unlocked s) = km s" "apic (unlocked s) = apic s" "tl_count (tls (unlocked s) l) = tl_count (tls s l)"
  "lock (tl_lock (tls (unlocked s) Migrating)) = 0" "l \<noteq> Migrating \<Longrightarrow> tls (unlocked s) l = tls s l"
  by (simp_all add: list_unlock_def spinlock_unlock_def)

lemma adopt_ok:
  assumes S: "sys_ok LS (unlocked s)" and t: "t \<in> set (LS Migrating)" and c: "c < MAX_PROCESSOR_COUNT"
  obtains s' where "adopt c c t s = Some s'" "running_thread s' = running_thread s" "\<And>u. u \<noteq> t \<Longrightarrow> tcbs s' u = tcbs s u"
    "sys_ok (LS(Migrating := remove1 t (LS Migrating), Runnable c := LS (Runnable c) @ [t])) (unlocked s')"
proof -
  note D = sys_okD [OF S]
  have L: "Migrating \<in> list_ids" "Runnable c \<in> list_ids" "Migrating \<noteq> Runnable c" using c by simp_all
  let ?f = "\<lambda>b :: TCB. b\<lparr>running_core := of_nat c\<rparr>"
  have tn: "t < NT" using lists_okD(4) [OF D(1) L(1) t] pool_NT(1) by blast
  have f: "listed_ok (Runnable c) (?f (tcbs s t))" "tcb_ok t (?f (tcbs s t))"
    "stack_base (?f (tcbs s t)) = stack_base (tcbs (unlocked s) t)" "tstate (?f (tcbs s t)) \<noteq> THREAD_STATE_NOTALLOC"
    using lists_okD(3) [OF D(1) L(1) t] base_okD(1) [OF D(2) tn] by (auto simp: tcb_ok_def)
  have nr: "\<forall>d. Migrating = Runnable d \<longrightarrow> running_thread (unlocked s) d \<noteq> Some t" by simp
  obtain h1 h2 where h: "\<And>s'. links s' = links (unlocked s) \<Longrightarrow> links_del_init t s' = Some (s'\<lparr>links := h1\<rparr>)"
    "\<And>s'. links s' = h1 \<Longrightarrow> links_add_tail t (Runnable c) s' = Some (s'\<lparr>links := h2\<rparr>)"
    "\<And>s'. links s' = h2 \<Longrightarrow>
      (\<forall>n. tl_count (tls s' n) = tl_count (tls (unlocked s) n) + (if n = Runnable c then 1 else 0) - (if n = Migrating then 1 else 0)) \<Longrightarrow>
      tcbs s' = (tcbs (unlocked s))(t := ?f (tcbs s t)) \<Longrightarrow> km s' = km (unlocked s) \<Longrightarrow> apic s' = apic (unlocked s) \<Longrightarrow>
      running_thread s' = running_thread (unlocked s) \<Longrightarrow>
      lock (tl_lock (tls s' Global_tcb)) = 0 \<Longrightarrow> lock (tl_lock (tls s' Migrating)) = 0 \<Longrightarrow>
      sys_ok (LS(Migrating := remove1 t (LS Migrating), Runnable c := LS (Runnable c) @ [t])) s'"
    by (rule sys_move [OF S L t f nr]) (simp, simp, rule that)
  let ?s1 = "count_dec Migrating (s\<lparr>links := h1\<rparr>)"
  let ?s' = "upd_tcb t ?f (count_inc (Runnable c) (?s1\<lparr>links := h2\<rparr>))"
  have "adopt c c t s = Some ?s'"
    using h(1) [of s] h(2) [of ?s1] by (simp add: adopt_def count_dec_def)
  moreover have "sys_ok (LS(Migrating := remove1 t (LS Migrating), Runnable c := LS (Runnable c) @ [t])) (unlocked ?s')"
    using base_okD(6) [OF D(2)] by (intro h(3)) (simp_all add: count_inc_def count_dec_def)
  ultimately show thesis by (intro that [of ?s']) (simp_all add: list_op_defs)
qed

lemma get_cid_of_min_thread_own [simp]: "get_cid_of_min_thread t cid s = Some cid"
  by (simp add: get_cid_of_min_thread_def ISONLY_CORE_MASK_def)

text \<open>Pulling threads touches the blocks of the migrating list only.\<close>

definition pull_frame :: "nat \<Rightarrow> (list_id \<Rightarrow> nat list) \<Rightarrow> sched_state \<Rightarrow> (list_id \<Rightarrow> nat list) \<Rightarrow> sched_state \<Rightarrow> bool" where
  "pull_frame c LS0 s0 LS s \<longleftrightarrow> LS (Blocked c) = LS0 (Blocked c) \<and> set (LS Migrating) \<subseteq> set (LS0 Migrating) \<and>
     (\<forall>t. t \<notin> set (LS0 Migrating) \<longrightarrow> tcbs s t = tcbs s0 t)"

lemma migrate_bodies_ok:
  assumes S: "sys_ok LS (unlocked s)" and t: "LS Migrating = pre @ t # xs" and c: "c < MAX_PROCESSOR_COUNT"
    and body: "body = migrate_own_body c c \<or> body = migrate_one_body c c" and K: "pull_frame c LS0 s0 LS s"
  shows "\<exists>b s' LS' pre'. body t s = Some (b, s') \<and> sys_ok LS' (unlocked s') \<and> running_thread s' = running_thread s \<and>
    LS' Migrating = pre' @ xs \<and> pull_frame c LS0 s0 LS' s'"
proof -
  have tm: "t \<in> set (LS Migrating)" using t by simp
  let ?LS = "LS(Migrating := remove1 t (LS Migrating), Runnable c := LS (Runnable c) @ [t])"
  obtain s' where a: "adopt c c t s = Some s'" "running_thread s' = running_thread s" "\<And>u. u \<noteq> t \<Longrightarrow> tcbs s' u = tcbs s u"
    "sys_ok ?LS (unlocked s')"
    by (rule adopt_ok [OF S tm c]) (rule that)
  have "distinct (pre @ t # xs)" using lists_repD(2) [OF lists_okD(1) [OF sys_okD(1) [OF S]], of Migrating] t by simp
  then have m: "?LS Migrating = pre @ xs" using t by (simp add: remove1_append)
  have k: "pull_frame c LS0 s0 ?LS s'"
    unfolding pull_frame_def
  proof (intro conjI allI impI)
    show "?LS (Blocked c) = LS0 (Blocked c)" "set (?LS Migrating) \<subseteq> set (LS0 Migrating)"
      using K m t by (auto simp: pull_frame_def)
    show "tcbs s' u = tcbs s0 u" if "u \<notin> set (LS0 Migrating)" for u
    proof -
      have "u \<noteq> t" using K tm that by (auto simp: pull_frame_def)
      then show ?thesis using K a(3) that by (simp add: pull_frame_def)
    qed
  qed
  have stay: "LS Migrating = (pre @ [t]) @ xs" using t by simp
  have "(\<exists>b. body t s = Some (b, s')) \<or> (\<exists>b. body t s = Some (b, s))"
    using body a(1) unfolding migrate_own_body_def migrate_one_body_def by (elim disjE) (simp_all add: ex_bool_eq)
  then show ?thesis using a(2,4) m k K S stay by blast
qed

lemma pull_migrating_ok:
  assumes S: "sys_ok LS s" and c: "c < MAX_PROCESSOR_COUNT" and cur: "running_thread s c = Some cur"
  obtains LS' s' where "pull_migrating c s = Some s'" "sys_ok LS' s'" "running_thread s' = running_thread s" "pull_frame c LS s LS' s'"
proof -
  note D = sys_okD [OF S]
  let ?s1 = "upd_list Migrating (\<lambda>l. l\<lparr>tl_lock := (tl_lock (tls s Migrating))\<lparr>lock := 1\<rparr>\<rparr>) s"
  have u: "unlocked ?s1 = s"
    using base_okD(7) [OF D(2)] by (simp add: list_unlock_def upd_list_def spinlock_unlock_def fun_upd_idem)
  have cid: "unat (running_core (tcbs ?s1 cur)) = c" using running_on(1) [OF S cur c] by simp
  let ?R = "running_thread s"
  have loop: "\<exists>b s' LS'. dl_list_for_each_safe links body Migrating s0 = Some (b, s') \<and> sys_ok LS' (unlocked s') \<and> running_thread s' = ?R \<and>
      pull_frame c LS s LS' s'"
    if 0: "sys_ok LS0 (unlocked s0)" "running_thread s0 = ?R" "pull_frame c LS s LS0 s0" "body = migrate_own_body c c \<or> body = migrate_one_body c c"
    for s0 LS0 body
  proof -
    have "\<exists>b s' LS' (xs :: nat list). dl_list_for_each_safe links body Migrating s0 = Some (b, s') \<and> sys_ok LS' (unlocked s') \<and> running_thread s' = ?R \<and>
      pull_frame c LS s LS' s' \<and> (b \<longrightarrow> True) \<and> (\<not> b \<longrightarrow> xs = [])"
    proof (rule sys_loop [where U = unlocked and K = "\<lambda>LS' _ s'. pull_frame c LS s LS' s'" and brk = True, OF 0(1) _ _ 0(2,3)])
      show "\<exists>b s' LS' pre'. body t s1 = Some (b, s') \<and> sys_ok LS' (unlocked s') \<and> running_thread s' = ?R \<and> LS' Migrating = pre' @ xs \<and>
          pull_frame c LS s LS' s' \<and> (b \<longrightarrow> True)"
        if "sys_ok LS1 (unlocked s1)" "LS1 Migrating = pre @ t # xs" "running_thread s1 = ?R" "pull_frame c LS s LS1 s1" for LS1 pre t xs s1
        using migrate_bodies_ok [OF that(1,2) c 0(4) that(4)] that(3) by metis
    qed simp_all
    then show ?thesis by blast
  qed
  have k1: "pull_frame c LS s LS ?s1" by (simp add: pull_frame_def)
  obtain b2 s2 LS2 where 2: "dl_list_for_each_safe links (migrate_own_body c c) Migrating ?s1 = Some (b2, s2)"
    "sys_ok LS2 (unlocked s2)" "running_thread s2 = ?R" "pull_frame c LS s LS2 s2"
    using loop [of LS ?s1 "migrate_own_body c c"] S u k1 by auto
  obtain b3 s3 LS3 where 3: "(if b2 then Some (False, s2) else dl_list_for_each_safe links (migrate_one_body c c) Migrating s2) = Some (b3, s3)"
    "sys_ok LS3 (unlocked s3)" "running_thread s3 = ?R" "pull_frame c LS s LS3 s3"
    using loop [OF 2(2-4), of "migrate_one_body c c"] 2 by (cases b2) auto
  show thesis
  proof (cases "tl_count (tls s (Runnable c)) + tl_count (tls s (Blocked c)) < RUNNABLE_MAX \<and> tl_count (tls s Migrating) \<noteq> 0")
    case True
    have "pull_migrating c s = Some (unlocked s3)"
      using True 2(1) 3(1) cid cur migrating_lock_free [OF D(2)]
      by (simp add: pull_migrating_def list_trylock_def get_current_def)
    then show thesis using 3(2-4) by (intro that [of "unlocked s3" LS3]) (simp_all add: pull_frame_def)
  next
    case False
    then have "pull_migrating c s = Some s" by (auto simp: pull_migrating_def)
    then show thesis using S by (intro that [of s LS]) (simp_all add: pull_frame_def)
  qed
qed

section \<open>The blocked list\<close>

definition to_wake :: "TCB \<Rightarrow> bool" where
  "to_wake b \<longleftrightarrow> intention b AND THREAD_INTENTION_EXITED = 0 \<and> intention b AND THREAD_INTENTION_READY \<noteq> 0"

definition to_stay :: "TCB \<Rightarrow> bool" where
  "to_stay b \<longleftrightarrow> intention b AND THREAD_INTENTION_EXITED = 0 \<and> intention b AND THREAD_INTENTION_READY = 0"

lemma wake_body_ok:
  assumes S: "sys_ok LS s" and t: "LS (Blocked c) = pre @ t # xs" and c: "c < MAX_PROCESSOR_COUNT"
    and cur: "running_thread s c = Some cur"
  shows "\<exists>b s' LS' pre'. wake_body c t s = Some (b, s') \<and> sys_ok LS' s' \<and> running_thread s' = running_thread s \<and>
    LS' (Blocked c) = pre' @ xs \<and> (\<forall>u. u \<noteq> t \<longrightarrow> tcbs s' u = tcbs s u) \<and> set (LS (Runnable c)) \<subseteq> set (LS' (Runnable c)) \<and>
    set (LS (Blocked c)) - {t} \<subseteq> set (LS' (Blocked c)) \<and>
    (to_wake (tcbs s t) \<longrightarrow> t \<in> set (LS' (Runnable c)) \<and> tcbs s' t = READY_mask (tcbs s t)) \<and>
    (to_stay (tcbs s t) \<longrightarrow> t \<in> set (LS' (Blocked c)) \<and> tcbs s' t = tcbs s t)"
proof -
  note D = sys_okD [OF S]
  have L: "Blocked c \<in> list_ids" "Runnable c \<in> list_ids" "Blocked c \<noteq> Runnable c" using c by simp_all
  have tb: "t \<in> set (LS (Blocked c))" using t by simp
  have d: "distinct (pre @ t # xs)" using lists_repD(2) [OF lists_okD(1) [OF D(1)] L(1)] t by simp
  have ne: "t \<noteq> cur" by (rule not_running [OF S c cur L(1) _ tb]) simp
  have tn: "t < NT" using lists_okD(4) [OF D(1) L(1) tb] pool_NT(1) by blast
  have ok: "tcb_ok t (tcbs s t)" using base_okD(1) [OF D(2) tn] .
  consider (exit) "intention (tcbs s t) AND THREAD_INTENTION_EXITED \<noteq> 0"
    | (ready) "intention (tcbs s t) AND THREAD_INTENTION_EXITED = 0" "intention (tcbs s t) AND THREAD_INTENTION_READY \<noteq> 0"
    | (stay) "intention (tcbs s t) AND THREAD_INTENTION_EXITED = 0" "intention (tcbs s t) AND THREAD_INTENTION_READY = 0"
    by blast
  then show ?thesis
  proof cases
    case exit
    obtain s1 s' LS' where e: "links_del_init t (count_dec (Blocked c) (thread_exit t s)) = Some s1" "put_tcb c t s1 = Some s'"
      "lists_ok {} LS' s'" "base_ok s'" "others_same t s s'" "LS' (Blocked c) = remove1 t (LS (Blocked c))"
      "\<And>m. m \<noteq> Blocked c \<Longrightarrow> m \<noteq> Local_tcb c \<Longrightarrow> m \<noteq> Global_tcb \<Longrightarrow> LS' m = LS m"
      by (rule exit_remove [OF D(1,2) L(1) _ _ tb c]) (auto intro: that)
    have R: "running_thread s' = running_thread s" using e(5) by (simp add: others_same_def)
    have "sys_ok LS' s'" using e(3,4,7) D(3) by (simp add: sys_ok_def R)
    moreover have "LS' (Blocked c) = pre @ xs" using e(6) t d by (simp add: remove1_append)
    moreover have "wake_body c t s = Some (False, s')"
      using exit e(1,2) cur running_on(3) [OF S cur c] ok ne by (simp add: wake_body_def get_current_def tcb_ok_def)
    moreover have "\<forall>u. u \<noteq> t \<longrightarrow> tcbs s' u = tcbs s u" using e(5) by (simp add: others_same_def)
    moreover have "set (LS (Blocked c)) - {t} \<subseteq> set (LS' (Blocked c))" using e(6) t d by (auto simp: remove1_append)
    moreover have "set (LS (Runnable c)) \<subseteq> set (LS' (Runnable c))" using e(7) by simp
    moreover have "\<not> to_wake (tcbs s t)" "\<not> to_stay (tcbs s t)" using exit by (simp_all add: to_wake_def to_stay_def)
    ultimately show ?thesis using R by blast
  next
    case ready
    have f: "listed_ok (Runnable c) (READY_mask (tcbs s t))" "tcb_ok t (READY_mask (tcbs s t))"
      "stack_base (READY_mask (tcbs s t)) = stack_base (tcbs s t)" "tstate (READY_mask (tcbs s t)) \<noteq> THREAD_STATE_NOTALLOC"
      using lists_okD(3) [OF D(1) L(1) tb] ok by (auto simp: mask_defs tcb_ok_def)
    have nr: "\<forall>d. Blocked c = Runnable d \<longrightarrow> running_thread s d \<noteq> Some t" by simp
    let ?LS = "LS(Blocked c := remove1 t (LS (Blocked c)), Runnable c := LS (Runnable c) @ [t])"
    obtain h1 h2 where h: "\<And>s'. links s' = links s \<Longrightarrow> links_del_init t s' = Some (s'\<lparr>links := h1\<rparr>)"
      "\<And>s'. links s' = h1 \<Longrightarrow> links_add_tail t (Runnable c) s' = Some (s'\<lparr>links := h2\<rparr>)"
      "\<And>s'. links s' = h2 \<Longrightarrow>
        (\<forall>n. tl_count (tls s' n) = tl_count (tls s n) + (if n = Runnable c then 1 else 0) - (if n = Blocked c then 1 else 0)) \<Longrightarrow>
        tcbs s' = (tcbs s)(t := READY_mask (tcbs s t)) \<Longrightarrow> km s' = km s \<Longrightarrow> apic s' = apic s \<Longrightarrow>
        running_thread s' = running_thread s \<Longrightarrow>
        lock (tl_lock (tls s' Global_tcb)) = 0 \<Longrightarrow> lock (tl_lock (tls s' Migrating)) = 0 \<Longrightarrow> sys_ok ?LS s'"
      by (rule sys_move [OF S L tb f nr]) (simp, simp, rule that)
    let ?s' = "count_inc (Runnable c) ((upd_tcb t READY_mask ((count_dec (Blocked c) s)\<lparr>links := h1\<rparr>))\<lparr>links := h2\<rparr>)"
    have "wake_body c t s = Some (False, ?s')"
      using ready h(1,2) by (simp add: wake_body_def READY_mask_def [abs_def] count_dec_def)
    moreover have "sys_ok ?LS ?s'" using base_okD(6,7) [OF D(2)] by (intro h(3)) (simp_all add: list_op_defs)
    moreover have "running_thread ?s' = running_thread s" by (simp add: list_op_defs)
    moreover have "?LS (Blocked c) = pre @ xs" using t d by (simp add: remove1_append)
    moreover have "\<forall>u. u \<noteq> t \<longrightarrow> tcbs ?s' u = tcbs s u" "tcbs ?s' t = READY_mask (tcbs s t)" by (simp_all add: list_op_defs)
    moreover have "set (LS (Runnable c)) \<subseteq> set (?LS (Runnable c))" "t \<in> set (?LS (Runnable c))"
      "set (LS (Blocked c)) - {t} \<subseteq> set (?LS (Blocked c))" using t d by (auto simp: remove1_append)
    moreover have "\<not> to_stay (tcbs s t)" using ready by (simp add: to_stay_def)
    ultimately show ?thesis by blast
  next
    case stay
    then have "wake_body c t s = Some (False, s)" by (simp add: wake_body_def)
    moreover have "LS (Blocked c) = (pre @ [t]) @ xs" using t by simp
    moreover have "\<not> to_wake (tcbs s t)" using stay by (simp add: to_wake_def)
    ultimately show ?thesis using S tb by blast
  qed
qed

text \<open>What waking does to the threads of the blocked list, of which \<open>xs\<close> are still to be looked at.\<close>

definition wake_frame :: "nat \<Rightarrow> (list_id \<Rightarrow> nat list) \<Rightarrow> sched_state \<Rightarrow> (list_id \<Rightarrow> nat list) \<Rightarrow> nat list \<Rightarrow> sched_state \<Rightarrow> bool" where
  "wake_frame c LS0 s0 LS xs s \<longleftrightarrow> set xs \<subseteq> set (LS0 (Blocked c)) \<and> set xs \<subseteq> set (LS (Blocked c)) \<and>
     (\<forall>t. t \<notin> set (LS0 (Blocked c)) - set xs \<longrightarrow> tcbs s t = tcbs s0 t) \<and>
     (\<forall>t\<in>set (LS0 (Blocked c)) - set xs.
        (to_wake (tcbs s0 t) \<longrightarrow> t \<in> set (LS (Runnable c)) \<and> tcbs s t = READY_mask (tcbs s0 t)) \<and>
        (to_stay (tcbs s0 t) \<longrightarrow> t \<in> set (LS (Blocked c)) \<and> tcbs s t = tcbs s0 t))"

lemma wake_frame_step:
  assumes k: "wake_frame c LS0 s0 LS (t # xs) s" and d: "distinct (t # xs)"
    and b: "\<forall>u. u \<noteq> t \<longrightarrow> tcbs s' u = tcbs s u" "set (LS (Runnable c)) \<subseteq> set (LS' (Runnable c))"
      "set (LS (Blocked c)) - {t} \<subseteq> set (LS' (Blocked c))"
      "to_wake (tcbs s t) \<longrightarrow> t \<in> set (LS' (Runnable c)) \<and> tcbs s' t = READY_mask (tcbs s t)"
      "to_stay (tcbs s t) \<longrightarrow> t \<in> set (LS' (Blocked c)) \<and> tcbs s' t = tcbs s t"
  shows "wake_frame c LS0 s0 LS' xs s'"
proof -
  have t: "tcbs s t = tcbs s0 t" "t \<notin> set xs" using k d by (auto simp: wake_frame_def)
  have "tcbs s' u = tcbs s0 u" if "u \<notin> set (LS0 (Blocked c)) - set xs" for u
    using that k b(1) t by (cases "u = t") (auto simp: wake_frame_def)
  moreover have "(to_wake (tcbs s0 u) \<longrightarrow> u \<in> set (LS' (Runnable c)) \<and> tcbs s' u = READY_mask (tcbs s0 u)) \<and>
      (to_stay (tcbs s0 u) \<longrightarrow> u \<in> set (LS' (Blocked c)) \<and> tcbs s' u = tcbs s0 u)" if u: "u \<in> set (LS0 (Blocked c)) - set xs" for u
  proof (cases "u = t")
    case True
    then show ?thesis using b(4,5) t by simp
  next
    case False
    then have "u \<in> set (LS0 (Blocked c)) - set (t # xs)" using u by simp
    then show ?thesis using k b(1-3) False unfolding wake_frame_def by auto
  qed
  ultimately show ?thesis using k b(3) t(2) unfolding wake_frame_def by auto
qed

lemma wake_blocked_ok:
  assumes S: "sys_ok LS s" and c: "c < MAX_PROCESSOR_COUNT" and cur: "running_thread s c = Some cur"
  obtains LS' s' where "wake_blocked c s = Some s'" "sys_ok LS' s'" "running_thread s' = running_thread s" "wake_frame c LS s LS' [] s'"
proof -
  have k0: "wake_frame c LS s LS (LS (Blocked c)) s" by (simp add: wake_frame_def)
  have "\<exists>b s' LS' xs. dl_list_for_each_safe links (wake_body c) (Blocked c) s = Some (b, s') \<and> sys_ok LS' s' \<and>
      running_thread s' = running_thread s \<and> wake_frame c LS s LS' xs s' \<and> (b \<longrightarrow> False) \<and> (\<not> b \<longrightarrow> xs = [])"
  proof (rule sys_loop [where U = "\<lambda>s. s" and K = "wake_frame c LS s", OF S _ _ refl k0])
    show "\<exists>b s' LS' pre'. wake_body c t s1 = Some (b, s') \<and> sys_ok LS' s' \<and> running_thread s' = running_thread s \<and> LS' (Blocked c) = pre' @ xs \<and>
        wake_frame c LS s LS' xs s' \<and> (b \<longrightarrow> False)"
      if 1: "sys_ok LS1 s1" "LS1 (Blocked c) = pre @ t # xs" "running_thread s1 = running_thread s" "wake_frame c LS s LS1 (t # xs) s1" for LS1 pre t xs s1
    proof -
      have cur1: "running_thread s1 c = Some cur" using 1(3) cur by simp
      have d: "distinct (t # xs)" using lists_repD(2) [OF lists_okD(1) [OF sys_okD(1) [OF 1(1)]], of "Blocked c"] c 1(2) by simp
      obtain b s' LS' pre' where w: "wake_body c t s1 = Some (b, s')" "sys_ok LS' s'" "running_thread s' = running_thread s1" "LS' (Blocked c) = pre' @ xs"
        and f: "\<forall>u. u \<noteq> t \<longrightarrow> tcbs s' u = tcbs s1 u" "set (LS1 (Runnable c)) \<subseteq> set (LS' (Runnable c))"
          "set (LS1 (Blocked c)) - {t} \<subseteq> set (LS' (Blocked c))"
          "to_wake (tcbs s1 t) \<longrightarrow> t \<in> set (LS' (Runnable c)) \<and> tcbs s' t = READY_mask (tcbs s1 t)"
          "to_stay (tcbs s1 t) \<longrightarrow> t \<in> set (LS' (Blocked c)) \<and> tcbs s' t = tcbs s1 t"
        using wake_body_ok [OF 1(1,2) c cur1] by blast
      have "wake_frame c LS s LS' xs s'" by (rule wake_frame_step [OF 1(4) d f])
      moreover have "\<not> b"
        using w(1) by (auto simp: wake_body_def bind_eq_Some_conv Let_def split: if_splits)
      ultimately show ?thesis using w 1(3) by metis
    qed
  qed (use c in simp_all)
  then obtain s' LS' where r: "dl_list_for_each_safe links (wake_body c) (Blocked c) s = Some (False, s')" "sys_ok LS' s'"
    "running_thread s' = running_thread s" "wake_frame c LS s LS' [] s'" by auto
  show thesis
  proof (cases "tl_count (tls s (Blocked c)) = 0")
    case True
    then have e: "LS (Blocked c) = []" using count_zero_iff [OF sys_okD(1) [OF S], of "Blocked c"] c by simp
    show thesis using True S e by (intro that [of s LS]) (simp_all add: wake_blocked_def wake_frame_def)
  next
    case False
    then show thesis using r by (intro that [of s' LS']) (simp_all add: wake_blocked_def)
  qed
qed

text \<open>What a switch away from \<open>prev\<close> does to the other threads and to the ones that are blocked.\<close>

lemma post_context_switch_ok:
  assumes S: "sys_ok LS s" and c: "c < MAX_PROCESSOR_COUNT" and cur: "running_thread s c = Some cur" and p: "prev_loc c prev LS s"
  obtains LS1 s1 LS' s' where "post_context_switch c prev s = Some s'" "sys_ok LS' s'" "running_thread s' = running_thread s"
    "post_prev c prev s = Some s1" "sys_ok LS1 s1"
    "\<And>t. t \<in> set (LS1 (Blocked c)) \<Longrightarrow> to_wake (tcbs s1 t) \<Longrightarrow> t \<in> set (LS' (Runnable c)) \<and> tcbs s' t = READY_mask (tcbs s1 t)"
    "\<And>t. t \<in> set (LS1 (Blocked c)) \<Longrightarrow> to_stay (tcbs s1 t) \<Longrightarrow> t \<in> set (LS' (Blocked c)) \<and> tcbs s' t = tcbs s1 t"
proof -
  obtain LS1 s1 where 1: "post_prev c prev s = Some s1" "sys_ok LS1 s1" "running_thread s1 = running_thread s"
    by (rule post_prev_ok [OF S c cur p])
  have cur1: "running_thread s1 c = Some cur" using cur 1(3) by simp
  obtain LS2 s2 where 2: "pull_migrating c s1 = Some s2" "sys_ok LS2 s2" "running_thread s2 = running_thread s1" "pull_frame c LS1 s1 LS2 s2"
    by (rule pull_migrating_ok [OF 1(2) c cur1])
  have cur2: "running_thread s2 c = Some cur" using cur1 2(3) by simp
  obtain LS3 s3 where 3: "wake_blocked c s2 = Some s3" "sys_ok LS3 s3" "running_thread s3 = running_thread s2" "wake_frame c LS2 s2 LS3 [] s3"
    by (rule wake_blocked_ok [OF 2(2) c cur2])
  have b2: "t \<in> set (LS2 (Blocked c)) \<and> tcbs s2 t = tcbs s1 t" if t: "t \<in> set (LS1 (Blocked c))" for t
  proof -
    have "t \<notin> set (LS1 Migrating)" using one_list [OF sys_okD(1) [OF 1(2)], of "Blocked c" Migrating t] c t by auto
    then show ?thesis using 2(4) t by (simp add: pull_frame_def)
  qed
  show thesis
  proof (rule that [of s3 LS3 s1 LS1])
    show "t \<in> set (LS3 (Runnable c)) \<and> tcbs s3 t = READY_mask (tcbs s1 t)" if "t \<in> set (LS1 (Blocked c))" "to_wake (tcbs s1 t)" for t
      using b2 [OF that(1)] that(2) 3(4) by (auto simp: wake_frame_def)
    show "t \<in> set (LS3 (Blocked c)) \<and> tcbs s3 t = tcbs s1 t" if "t \<in> set (LS1 (Blocked c))" "to_stay (tcbs s1 t)" for t
      using b2 [OF that(1)] that(2) 3(4) by (auto simp: wake_frame_def)
  qed (use 1 2 3 in \<open>simp_all add: post_context_switch_def\<close>)
qed

end
