(* ===== verification/SchedRun.thy ===== *)
theory SchedRun
  imports SchedSwitch
begin

text \<open>
  \<^verbatim>\<open>schedule\<close> as a whole, the calls by which threads suspend, wake, exit and create threads, and the
  transition system they form.
\<close>

section \<open>schedule\<close>

lemma sys_upd_block:
  assumes S: "sys_ok LS s" and t: "t < NT"
    and s': "tcbs s' = (tcbs s)(t := b')" "links s' = links s" "tls s' = tls s" "km s' = km s"
      "ticks_in_10ms (apic s') = ticks_in_10ms (apic s)" "running_thread s' = running_thread s"
    and f: "tstate b' = tstate (tcbs s t)" "tcb_id b' = tcb_id (tcbs s t)" "time_slice b' = time_slice (tcbs s t)"
      "time_quantum b' = time_quantum (tcbs s t)" "signal_flag b' = signal_flag (tcbs s t)" "running_core b' = running_core (tcbs s t)"
      "stack_base b' = stack_base (tcbs s t)" "refc b' = refc (tcbs s t)"
      "t < MAX_PROCESSOR_COUNT \<Longrightarrow> intention b' AND (THREAD_INTENTION_BLOCKED OR THREAD_INTENTION_EXITED) = 0"
  shows "sys_ok LS s'"
proof (rule sys_upd [OF S t, where f = "\<lambda>_. b'"])
  note D = sys_okD [OF S]
  show "tcb_ok t b'" using base_okD(1) [OF D(2) t] f by (simp add: tcb_ok_def)
  show "idle_ok t b'" if "t < MAX_PROCESSOR_COUNT" using base_okD(2) [OF D(2) that] f that by (simp add: idle_ok_def)
  show "listed_ok l b'" if "l \<in> list_ids" "t \<in> set (LS l)" for l
    using lists_okD(3) [OF D(1) that] f by (cases l) simp_all
qed (use s' f in simp_all)

lemma sys_same_tcbs:
  assumes "sys_ok LS s" "tcbs s' = tcbs s" "links s' = links s" "tls s' = tls s" "km s' = km s"
    "ticks_in_10ms (apic s') = ticks_in_10ms (apic s)" "running_thread s' = running_thread s"
  shows "sys_ok LS s'"
  using assms by (auto simp: sys_ok_def lists_ok_def base_ok_def allocated_def)

lemma adjust_ok:
  assumes S: "sys_ok LS s" and c: "c < MAX_PROCESSOR_COUNT" and me: "running_thread s c = Some me"
  obtains n s' b' where "adjust_time_slice c s = Some (n, s')" "sys_ok LS s'" "running_thread s' = running_thread s"
    "tcbs s' = (tcbs s)(me := b')" "intention b' = intention (tcbs s me)" "0 \<le> n"
proof -
  note R = running_on [OF S me c]
  obtain sl t k where k: "lapic_consumed_time_slice (apic s) (msr s c) = Some (sl, t, k)" "0 \<le> sl"
    "ticks_in_10ms k = ticks_in_10ms (apic s)"
    using consumed_returns [OF base_okD(5) [OF sys_okD(2) [OF S]]] by metis
  obtain t1 k1 where k1: "lapic_get_ticks_in_1ms k = (t1, k1)" by fastforce
  then have k1': "ticks_in_10ms k1 = ticks_in_10ms (apic s)"
    using k(3) by (auto simp: lapic_get_ticks_in_1ms_def Let_def split: if_splits)
  have idle: "intention (tcbs s me) AND (THREAD_INTENTION_BLOCKED OR THREAD_INTENTION_EXITED) = 0" if "me < MAX_PROCESSOR_COUNT"
    using base_okD(2) [OF sys_okD(2) [OF S] that] by (simp add: idle_ok_def)
  have res: "sys_ok LS s'" if "tcbs s' = (tcbs s)(me := (tcbs s me)\<lparr>acc_ltc := a\<rparr>)" "links s' = links s" "tls s' = tls s"
    "km s' = km s" "ticks_in_10ms (apic s') = ticks_in_10ms (apic s)" "running_thread s' = running_thread s" for s' a
    using idle by (intro sys_upd_block [OF S R(2) that]) simp_all
  let ?s0 = "s\<lparr>apic := k\<rparr>"
  let ?a = "acc_ltc (tcbs s me) + word_of_int t"
  let ?s1 = "(upd_tcb me (\<lambda>b. b\<lparr>acc_ltc := ?a\<rparr>) ?s0)\<lparr>apic := k1\<rparr>"
  show thesis
  proof (cases "sl = 0")
    case False
    have "adjust_time_slice c s = Some (sl, ?s0)" using k(1) me False by (simp add: adjust_time_slice_def get_current_def)
    moreover have "sys_ok LS ?s0" using S k(3) by (intro sys_same_tcbs [OF S]) simp_all
    ultimately show thesis using k(2) by (intro that [of sl ?s0 "tcbs s me"]) simp_all
  next
    case z: True
    show thesis
    proof (cases "t1 \<le> ?a")
      case True
      let ?s2 = "upd_tcb me (\<lambda>b. b\<lparr>acc_ltc := 0\<rparr>) ?s1"
      have "adjust_time_slice c s = Some (1, ?s2)"
        using k(1) k1 me z True by (simp add: adjust_time_slice_def get_current_def upd_tcb_def)
      moreover have "sys_ok LS ?s2" using k1' by (intro res [of _ 0]) simp_all
      ultimately show thesis by (intro that [of 1 ?s2 "(tcbs s me)\<lparr>acc_ltc := 0\<rparr>"]) simp_all
    next
      case False
      have "adjust_time_slice c s = Some (0, ?s1)"
        using k(1) k1 me z False by (simp add: adjust_time_slice_def get_current_def upd_tcb_def)
      moreover have "sys_ok LS ?s1" using k1' by (intro res [of _ ?a]) simp_all
      ultimately show thesis by (intro that [of 0 ?s1 "(tcbs s me)\<lparr>acc_ltc := ?a\<rparr>"]) simp_all
    qed
  qed
qed

definition may_intend :: "nat \<Rightarrow> nat \<Rightarrow> dword \<Rightarrow> bool" where
  "may_intend c me intent \<longleftrightarrow> (me = c \<longrightarrow> intent AND (THREAD_INTENTION_BLOCKED OR THREAD_INTENTION_EXITED) = 0)"

lemma schedule_begin_ok:
  assumes S: "sys_ok LS s" and c: "c < MAX_PROCESSOR_COUNT" and me: "running_thread s c = Some me" and i: "may_intend c me intent"
  obtains s' b' where "schedule_begin c intent s = Some (me, s')" "sys_ok LS s'" "running_thread s' = running_thread s"
    "tcbs s' = (tcbs s)(me := b')" "intention b' = intent OR intention (tcbs s me)"
proof -
  obtain n s1 b1 where 1: "adjust_time_slice c s = Some (n, s1)" "sys_ok LS s1" "running_thread s1 = running_thread s"
    "tcbs s1 = (tcbs s)(me := b1)" "intention b1 = intention (tcbs s me)"
    by (rule adjust_ok [OF S c me])
  have m1: "running_thread s1 c = Some me" using 1(3) me by simp
  note R = running_on [OF 1(2) m1 c]
  let ?b = "(tcbs s1 me)\<lparr>remaining_time_slice := remaining_time_slice (tcbs s1 me) - n, intention := intent OR intention (tcbs s me)\<rparr>"
  let ?s2 = "upd_tcb me (\<lambda>b. b\<lparr>remaining_time_slice := remaining_time_slice b - n\<rparr>) (stop_timer c s1)"
  let ?s3 = "if lapic_timer_interrupt_pending (msr ?s2 c) \<noteq> 0 then ?s2\<lparr>msr := (msr ?s2)(c := lapic_send_eoi (msr ?s2 c))\<rparr> else ?s2"
  let ?s' = "upd_tcb me (\<lambda>b. b\<lparr>intention := atomic_set (intention b) (intent OR intention b)\<rparr>) ?s3"
  have b: "schedule_begin c intent s = Some (me, ?s')"
    using me m1 1(1) by (simp add: schedule_begin_def decrease_remaining_time_slice_def get_current_def stop_timer_def Let_def)
  have tc: "tcbs ?s' = (tcbs s)(me := ?b)"
    using 1(4,5) by (simp add: atomic_set_def stop_timer_def fun_eq_iff)
  have idle: "me = c" if "me < MAX_PROCESSOR_COUNT"
    using sys_okD(3) [OF S c me] lists_okD(4) [OF sys_okD(1) [OF S], of "Runnable c" me] c that pool_NT(2) by auto
  have cl: "(intent OR intention (tcbs s me)) AND (THREAD_INTENTION_BLOCKED OR THREAD_INTENTION_EXITED) = 0" if "me < MAX_PROCESSOR_COUNT"
    using idle [OF that] i base_okD(2) [OF sys_okD(2) [OF S] that] unfolding may_intend_def idle_ok_def
    by (simp add: bit.conj_disj_distrib2)
  have "sys_ok LS ?s'"
    by (rule sys_upd_block [OF 1(2) R(2), of _ ?b])
      (use tc cl 1(4) in \<open>simp_all add: stop_timer_def fun_eq_iff\<close>)
  then show thesis using b tc 1(3) by (intro that [of ?s' ?b]) (simp_all add: stop_timer_def)
qed

text \<open>What the rest of \<^verbatim>\<open>schedule\<close> knows about the selected thread.\<close>

lemma selected_cases:
  assumes "selected c me R t s" and c: "c < MAX_PROCESSOR_COUNT"
  obtains LS where "lists_ok {} LS s" "base_ok s" "others_run c R LS" "running_thread s = R"
    "t = c \<or> t \<in> set (LS (Runnable c))" "curr_loc c me LS s" "t = me \<Longrightarrow> clean (tcbs s me)"
proof -
  consider (left) "t = c" "sel_left c me R (Some c) s"
    | (fin) LS where "sel_done c me R False LS None s" "t = c \<or> t \<in> set (LS (Runnable c))"
    using assms by (auto simp: selected_def)
  then show thesis
  proof cases
    case left
    then obtain LS where LS: "lists_ok {} LS s" "base_ok s" "running_thread s = R" "me \<in> set (LS (Runnable c))" "others_run c R LS"
      by (auto simp: sel_left_def)
    have "me \<noteq> c" using lists_okD(4) [OF LS(1) _ LS(4)] c pool_NT(2) by auto
    then show thesis using LS left(1) by (intro that [of LS]) (auto simp: curr_loc_def)
  next
    case fin
    note I = sel_invD [OF fin(1)]
    have "clean (tcbs s t)" using fin(2) I(4) idle_clean [OF base_okD(2) [OF I(2) c]] by auto
    then show thesis using I fin(2) by (intro that [of LS]) auto
  qed
qed

lemma select_next_thread_ok:
  assumes S: "sys_ok LS s" and c: "c < MAX_PROCESSOR_COUNT" and me: "running_thread s c = Some me"
    and K: "K (LS (Runnable c)) s" "tracks c me (running_thread s) K K'"
  shows "\<exists>t s'. select_next_thread c s = Some (t, s') \<and> selected c me (running_thread s) t s' \<and> K' s'"
proof -
  have "sel_inv c me (running_thread s) False LS [] (LS (Runnable c)) None s"
    using sys_okD(1,2) [OF S] sys_okD(3) [OF S c me] sys_others_run [OF S] me by (auto simp: sel_inv_def curr_loc_def)
  from select_retry_ok [OF this c K] show ?thesis
    using running_on(1) [OF S me c] me by (simp add: select_next_thread_def get_current_def)
qed

lemma upd_tcb_same: "f (tcbs s t) = tcbs s t \<Longrightarrow> upd_tcb t f s = s"
  by (simp add: upd_tcb_def fun_upd_idem)

lemma start_oneshot_fields [simp]:
  "tcbs (start_oneshot c n s) = tcbs s" "links (start_oneshot c n s) = links s" "tls (start_oneshot c n s) = tls s"
  "running_thread (start_oneshot c n s) = running_thread s" "km (start_oneshot c n s) = km s" "apic (start_oneshot c n s) = apic s"
  by (simp_all add: start_oneshot_def)

lemma base_ok_same:
  "base_ok s \<Longrightarrow> tcbs s' = tcbs s \<Longrightarrow> tls s' = tls s \<Longrightarrow> km s' = km s \<Longrightarrow> apic s' = apic s \<Longrightarrow> base_ok s'"
  by (auto simp: base_ok_def allocated_def)

lemma lists_ok_same: "lists_ok X LS s \<Longrightarrow> tcbs s' = tcbs s \<Longrightarrow> tls s' = tls s \<Longrightarrow> links s' = links s \<Longrightarrow> lists_ok X LS s'"
  by (simp add: lists_ok_def)

text \<open>
  The phases of \<^verbatim>\<open>schedule\<close>: the state \<open>s1\<close> when the selection starts, the thread \<open>t\<close> and the state
  \<open>s2\<close> it returns, the state \<open>s4\<close> in which the thread that runs next finishes the switch, and the
  state \<open>s5\<close> after that.
\<close>

definition sched_phases :: "nat \<Rightarrow> nat \<Rightarrow> nat \<Rightarrow> (list_id \<Rightarrow> nat list) \<Rightarrow> sched_state \<Rightarrow> sched_state \<Rightarrow> sched_state \<Rightarrow> sched_state \<Rightarrow> bool" where
  "sched_phases c me t LS s2 s4 s5 s' \<longleftrightarrow>
     selected c me (running_thread s2) t s2 \<and> sys_ok LS s4 \<and> running_thread s4 c = Some t \<and> prev_loc c me LS s4 \<and>
     (\<forall>u. u \<noteq> t \<longrightarrow> u \<noteq> me \<longrightarrow> tcbs s4 u = tcbs s2 u) \<and>
     (t \<noteq> me \<longrightarrow> tcbs s4 me = (tcbs s2 me)\<lparr>resume := From_schedule\<rparr>) \<and>
     (t = c \<or> t \<in> set (LS (Runnable c))) \<and>
     post_context_switch c me s4 = Some s5 \<and> (\<forall>u. u \<noteq> me \<longrightarrow> tcbs s' u = tcbs s5 u) \<and> (t \<noteq> me \<longrightarrow> s' = s5)"

lemma switch_to_ok:
  assumes S: "sys_ok LS s" and c: "c < MAX_PROCESSOR_COUNT" and t: "running_thread s c = Some t" and ne: "t \<noteq> me" and p: "curr_loc c me LS s"
  obtains LS' s' where "switch_to c me t s = Some s'" "sys_ok LS' s'" "running_thread s' = running_thread s"
    "post_context_switch c me (upd_tcb me (\<lambda>b. b\<lparr>resume := From_schedule\<rparr>) s) = Some s'"
    "sys_ok LS (upd_tcb me (\<lambda>b. b\<lparr>resume := From_schedule\<rparr>) s)" "prev_loc c me LS (upd_tcb me (\<lambda>b. b\<lparr>resume := From_schedule\<rparr>) s)"
proof -
  let ?s = "upd_tcb me (\<lambda>b. b\<lparr>resume := From_schedule\<rparr>) s"
  have mn: "me < NT" by (rule curr_NT [OF sys_okD(1) [OF S] p c])
  have idle: "intention (tcbs s me) AND (THREAD_INTENTION_BLOCKED OR THREAD_INTENTION_EXITED) = 0" if "me < MAX_PROCESSOR_COUNT"
    using base_okD(2) [OF sys_okD(2) [OF S] that] by (simp add: idle_ok_def)
  have S1: "sys_ok LS ?s" using idle by (intro sys_upd_block [OF S mn, of _ "(tcbs s me)\<lparr>resume := From_schedule\<rparr>"]) simp_all
  have p1: "prev_loc c me LS ?s" using p t ne by (simp add: prev_loc_def curr_loc_def clean_def)
  have t1: "running_thread ?s c = Some t" using t by simp
  obtain LS2 s2 where 2: "post_context_switch c me ?s = Some s2" "sys_ok LS2 s2" "running_thread s2 = running_thread ?s"
    by (rule post_context_switch_ok [OF S1 c t1 p1])
  have t2: "running_thread s2 c = Some t" using 2(3) t by simp
  have "signal_flag (tcbs s2 t) = 0"
    using base_okD(1) [OF sys_okD(2) [OF 2(2)] running_on(2) [OF 2(2) t2 c]] by (simp add: tcb_ok_def)
  then show thesis using 2 S1 p1 by (intro that [of s2 LS2]) (simp_all add: switch_to_def)
qed

text \<open>The thread that runs on keeps its place when it is marked running again.\<close>

lemma mark_running_ok:
  assumes S: "sys_ok LS s" and c: "c < MAX_PROCESSOR_COUNT" and m: "running_thread s c = Some me"
  shows "sys_ok LS (upd_tcb me (\<lambda>b. b\<lparr>tstate := THREAD_STATE_RUNNING,
    intention := atomic_set (intention b) (intention b AND NOT THREAD_INTENTION_READY)\<rparr>) s)" (is "sys_ok LS (upd_tcb me ?f s)")
proof (rule sys_upd [OF S running_on(2) [OF S m c], where f = ?f])
  note D = sys_okD [OF S]
  show "tcb_ok me (?f (tcbs s me))" using base_okD(1) [OF D(2) running_on(2) [OF S m c]] by (simp add: tcb_ok_def)
  show "idle_ok me (?f (tcbs s me))" if "me < MAX_PROCESSOR_COUNT"
    using base_okD(2) [OF D(2) that] by (simp add: idle_ok_def atomic_set_def clean_masked)
  show "listed_ok l (?f (tcbs s me))" if "l \<in> list_ids" "me \<in> set (LS l)" for l
  proof -
    have "l = Runnable c" using not_running [OF S c m that(1) _ that(2)] by blast
    then show ?thesis using lists_okD(3) [OF D(1) that] by simp
  qed
  show "tstate (?f (tcbs s me)) = THREAD_STATE_NOTALLOC \<longleftrightarrow> tstate (tcbs s me) = THREAD_STATE_NOTALLOC"
    using running_on(4) [OF S m c] by simp
qed simp_all

lemma schedule_tracked:
  assumes S: "sys_ok LS s" and c: "c < MAX_PROCESSOR_COUNT" and me: "running_thread s c = Some me" and i: "may_intend c me intent"
    and K: "\<And>s1 b. tcbs s1 = (tcbs s)(me := b) \<Longrightarrow> intention b = intent OR intention (tcbs s me) \<Longrightarrow> K (LS (Runnable c)) s1"
    and T: "tracks c me (running_thread s) K K'"
  obtains r t s2 LS4 s4 s5 LS' s' where "schedule c intent s = Some (r, s')" "sys_ok LS' s'" "running_thread s' = (running_thread s)(c := Some t)"
    "K' s2" "sched_phases c me t LS4 s2 s4 s5 s'" "sys_ok LS' s5"
proof -
  obtain s1 b1 where 1: "schedule_begin c intent s = Some (me, s1)" "sys_ok LS s1" "running_thread s1 = running_thread s"
    "tcbs s1 = (tcbs s)(me := b1)" "intention b1 = intent OR intention (tcbs s me)"
    by (rule schedule_begin_ok [OF S c me i])
  have m1: "running_thread s1 c = Some me" using 1(3) me by simp
  have cid: "unat (running_core (tcbs s1 me)) = c" by (rule running_on(1) [OF 1(2) m1 c])
  obtain t s2 where 2: "select_next_thread c s1 = Some (t, s2)" "selected c me (running_thread s1) t s2" "K' s2"
    using select_next_thread_ok [where K = K and K' = K', OF 1(2) c m1 K [OF 1(4,5)]] T 1(3) by auto
  obtain LS2 where L2: "lists_ok {} LS2 s2" "base_ok s2" "others_run c (running_thread s1) LS2" "running_thread s2 = running_thread s1"
    "t = c \<or> t \<in> set (LS2 (Runnable c))" "curr_loc c me LS2 s2" "t = me \<Longrightarrow> clean (tcbs s2 me)"
    by (rule selected_cases [OF 2(2) c]) (rule that)
  have tn: "t < NT" using L2(5) lists_okD(4) [OF L2(1), of "Runnable c" t] c pool_NT(1) by auto
  obtain s3 where 3: "refill_time_slice t s2 = Some s3" "tcbs s3 = (tcbs s2)(t := (tcbs s2 t)\<lparr>remaining_time_slice :=
        (if remaining_time_slice (tcbs s2 t) \<le> 0 then time_slice (tcbs s2 t) else remaining_time_slice (tcbs s2 t))\<rparr>)"
      "links s3 = links s2" "tls s3 = tls s2" "running_thread s3 = running_thread s2" "base_ok s3"
    by (rule refill_ok [OF L2(2) tn])
  have l3: "lists_ok {} LS2 s3" using L2(1) 3(3,4,2) by (rule lists_ok_refilled)
  have cl3: "clean (tcbs s3 u) = clean (tcbs s2 u)" for u by (simp add: 3(2) clean_def)
  have cur3: "curr_loc c me LS2 s3" using L2(6) by (simp add: curr_loc_def cl3)
  show thesis
  proof (cases "t = me")
    case True
    let ?s4 = "start_oneshot c (remaining_time_slice (tcbs s3 me)) s3"
    have S4: "sys_ok LS2 ?s4"
      using L2(4,5) 3(5) True m1
      by (intro sys_okI [of _ _ c "running_thread s1"]) (auto intro: lists_ok_same [OF l3] base_ok_same [OF 3(6)] L2(3))
    have m4: "running_thread ?s4 c = Some me" using 3(5) L2(4) m1 by simp
    have p4: "prev_loc c me LS2 ?s4" using cur3 L2(7) True by (simp add: prev_loc_def curr_loc_def cl3)
    obtain LS5 s5 where 5: "post_context_switch c me ?s4 = Some s5" "sys_ok LS5 s5" "running_thread s5 = running_thread ?s4"
      by (rule post_context_switch_ok [OF S4 c m4 p4])
    have m5: "running_thread s5 c = Some me" using 5(3) m4 by simp
    let ?s' = "upd_tcb me (\<lambda>b. b\<lparr>tstate := THREAD_STATE_RUNNING,
      intention := atomic_set (intention b) (intention b AND NOT THREAD_INTENTION_READY)\<rparr>) s5"
    have "schedule c intent s = Some (True, ?s')"
      using 1(1) cid 2(1) True 3(1) 5(1) by (simp add: schedule_def)
    moreover have "sched_phases c me t LS2 s2 ?s4 s5 ?s'"
      using 2(2) L2(4,5) S4 m4 p4 True 3(2) 5(1) by (simp add: sched_phases_def)
    moreover have "running_thread ?s' = (running_thread s)(c := Some t)"
      using 5(3) 3(5) L2(4) 1(3) me True by (simp add: fun_upd_idem)
    ultimately show thesis
      using 2(3) 5(2) mark_running_ok [OF 5(2) c m5] by (intro that) auto
  next
    case False
    define s3' where "s3' = (if remaining_time_slice (tcbs s2 t) \<le> 0 then s3 else s2)"
    have s3': "(if remaining_time_slice (tcbs s2 t) \<le> 0 then refill_time_slice t s2 else Some s2) = Some s3'"
      "lists_ok {} LS2 s3'" "base_ok s3'" "running_thread s3' = running_thread s1" "curr_loc c me LS2 s3'"
      "\<And>u. u \<noteq> t \<Longrightarrow> tcbs s3' u = tcbs s2 u"
      using 3(1,2,5,6) l3 L2 cur3 by (simp_all add: s3'_def)
    let ?s4 = "start_oneshot c (remaining_time_slice (tcbs s3' t)) s3'"
    have rc: "running_core (tcbs ?s4 t) = of_nat c"
      using L2(5) base_okD(2) [OF s3'(3) c] lists_okD(3) [OF s3'(2), of "Runnable c" t] c by (auto simp: idle_ok_def)
    let ?s5 = "?s4\<lparr>running_thread := (running_thread ?s4)(c := Some t)\<rparr>"
    have S5: "sys_ok LS2 ?s5"
      using L2(5) s3'(4)
      by (intro sys_okI [of _ _ c "running_thread s1"]) (auto intro: lists_ok_same [OF s3'(2)] base_ok_same [OF s3'(3)] L2(3))
    have t5: "running_thread ?s5 c = Some t" by simp
    have p5: "curr_loc c me LS2 ?s5" using s3'(5) by (simp add: curr_loc_def)
    obtain LS6 s6 where 6: "switch_to c me t ?s5 = Some s6" "sys_ok LS6 s6" "running_thread s6 = running_thread ?s5"
      "post_context_switch c me (upd_tcb me (\<lambda>b. b\<lparr>resume := From_schedule\<rparr>) ?s5) = Some s6"
      "sys_ok LS2 (upd_tcb me (\<lambda>b. b\<lparr>resume := From_schedule\<rparr>) ?s5)"
      "prev_loc c me LS2 (upd_tcb me (\<lambda>b. b\<lparr>resume := From_schedule\<rparr>) ?s5)"
      by (rule switch_to_ok [OF S5 c t5 False p5])
    have "schedule c intent s = Some (False, s6)"
      using 1(1) cid 2(1) False s3'(1) upd_tcb_same [of "\<lambda>b. b\<lparr>running_core := of_nat c\<rparr>" ?s4 t] rc 6(1)
      by (simp add: schedule_def)
    moreover have "sched_phases c me t LS2 s2 (upd_tcb me (\<lambda>b. b\<lparr>resume := From_schedule\<rparr>) ?s5) s6 s6"
      using 2(2) L2(4,5) 6 s3'(6) False by (simp add: sched_phases_def)
    ultimately show thesis using 6(2,3) s3'(4) 1(3) 2(3) by (intro that) auto
  qed
qed

lemma schedule_ok:
  assumes S: "sys_ok LS s" and c: "c < MAX_PROCESSOR_COUNT" and me: "running_thread s c = Some me" and i: "may_intend c me intent"
  obtains r LS' s' where "schedule c intent s = Some (r, s')" "sys_ok LS' s'" "\<And>d. d \<noteq> c \<Longrightarrow> running_thread s' d = running_thread s d"
    "\<exists>t. running_thread s' c = Some t"
  by (rule schedule_tracked [where K = "\<lambda>_ _. True" and K' = "\<lambda>_. True", OF S c me i _ tracks_True]) (auto intro: that)

end
