(* ===== verification/SchedCalls.thy ===== *)
theory SchedCalls
  imports SchedRun
begin

text \<open>
  The calls that threads make on other threads and on themselves, thread creation, and the state that
  the initialisation leaves.
\<close>

section \<open>Suspending, waking, exiting\<close>

lemma allocated_listed:
  assumes S: "sys_ok LS s" and t: "t \<in> allocated s"
  shows "refc (tcbs s t) = 1" "tstate (tcbs s t) \<noteq> THREAD_STATE_NOTALLOC" "t < NT" "\<not> t < MAX_PROCESSOR_COUNT"
    "\<exists>l\<in>list_ids. t \<in> set (LS l) \<and> l \<noteq> Global_tcb \<and> (\<forall>c. l \<noteq> Local_tcb c)"
proof -
  have p: "t \<in> pool_tids" and a: "tstate (tcbs s t) \<noteq> THREAD_STATE_NOTALLOC" using t by (simp_all add: allocated_def)
  obtain l where l: "l \<in> list_ids" "t \<in> set (LS l)" using lists_okD(5) [OF sys_okD(1) [OF S]] p by blast
  have k: "listed_ok l (tcbs s t)" by (rule lists_okD(3) [OF sys_okD(1) [OF S] l])
  then show "\<exists>l\<in>list_ids. t \<in> set (LS l) \<and> l \<noteq> Global_tcb \<and> (\<forall>c. l \<noteq> Local_tcb c)" using l a by (cases l) auto
  show "refc (tcbs s t) = 1" using k a by (cases l) auto
  show "tstate (tcbs s t) \<noteq> THREAD_STATE_NOTALLOC" "t < NT" "\<not> t < MAX_PROCESSOR_COUNT" using a pool_NT [OF p] by simp_all
qed

lemma get_tcb_NT:
  assumes "t < NT" "tstate (tcbs s t) \<noteq> THREAD_STATE_NOTALLOC"
  shows "get_tcb (of_nat t) s = (Some t, upd_tcb t (\<lambda>b. b\<lparr>refc := atomic_inc (refc b)\<rparr>) s)"
proof -
  have "t < 2 ^ 64" using assms(1) by (simp add: MAX_PROCESSOR_COUNT_def CONFIG_NUM_THREAD_def)
  then have u: "unat (of_nat t :: qword) = t" by (simp add: unat_of_nat take_bit_nat_eq_self)
  moreover have "\<not> (of_nat NT :: qword) \<le> of_nat t"
    using assms(1) u unfolding word_le_nat_alt by (simp add: MAX_PROCESSOR_COUNT_def CONFIG_NUM_THREAD_def)
  ultimately show ?thesis using assms(2) by (simp add: get_tcb_def)
qed

lemma get_upd_put:
  assumes S: "sys_ok LS s" and t: "t \<in> allocated s" and f: "\<And>b. refc (f b) = refc b" "\<And>b r. f (b\<lparr>refc := r\<rparr>) = (f b)\<lparr>refc := r\<rparr>"
  shows "put_tcb c t (upd_tcb t f (upd_tcb t (\<lambda>b. b\<lparr>refc := atomic_inc (refc b)\<rparr>) s)) = Some (upd_tcb t f s)"
proof -
  note A = allocated_listed [OF S t]
  have "upd_tcb t f (upd_tcb t (\<lambda>b. b\<lparr>refc := atomic_inc (refc b)\<rparr>) s) = upd_tcb t (\<lambda>b. b\<lparr>refc := 1 + 1\<rparr>) (upd_tcb t f s)"
    using A(1) f by (simp add: upd_tcb_def atomic_inc_def)
  then show ?thesis using get_put_same [of "upd_tcb t f s" t 1 c] A(1) f by simp
qed

lemma or_intention_ok:
  assumes S: "sys_ok LS s" and t: "t \<in> allocated s"
  shows "sys_ok LS (upd_tcb t (\<lambda>b. b\<lparr>intention := atomic_or k (intention b)\<rparr>) s)"
  using allocated_listed [OF S t]
  by (intro sys_upd_block [OF S, of t _ "(tcbs s t)\<lparr>intention := atomic_or k (intention (tcbs s t))\<rparr>"]) simp_all

lemma thread_suspend_eq:
  assumes S: "sys_ok LS s" and t: "t \<in> allocated s"
  shows "thread_suspend c (int t) s = Some (0, upd_tcb t (\<lambda>b. b\<lparr>intention := atomic_or THREAD_INTENTION_BLOCKED (intention b)\<rparr>) s)"
  using get_tcb_NT [of t s] allocated_listed [OF S t] get_upd_put [OF S t, of "\<lambda>b. b\<lparr>intention := atomic_or THREAD_INTENTION_BLOCKED (intention b)\<rparr>"]
  by (simp add: thread_suspend_def qword_of_int_def)

lemma thread_wake_up_eq:
  assumes S: "sys_ok LS s" and t: "t \<in> allocated s"
  shows "thread_wake_up c (int t) s = Some (0, upd_tcb t (\<lambda>b. b\<lparr>intention := atomic_or THREAD_INTENTION_READY (intention b)\<rparr>) s)"
  using get_tcb_NT [of t s] allocated_listed [OF S t] get_upd_put [OF S t, of "\<lambda>b. b\<lparr>intention := atomic_or THREAD_INTENTION_READY (intention b)\<rparr>"]
  by (simp add: thread_wake_up_def qword_of_int_def)

lemma running_allocated:
  assumes S: "sys_ok LS s" and "c < MAX_PROCESSOR_COUNT" "running_thread s c = Some t" "t \<noteq> c"
  shows "t \<in> allocated s"
  using sys_okD(3) [OF S assms(2,3)] assms(2,4) listed_allocated(1) [OF sys_okD(1) [OF S], of "Runnable c" t] by auto

lemma thread_exit_current_ok:
  assumes S: "sys_ok LS s" and c: "c < MAX_PROCESSOR_COUNT" and me: "running_thread s c = Some me" "me \<noteq> c"
  obtains LS' s' where "thread_exit_current c s = Some (0, s')" "sys_ok LS' s'" "\<And>d. d \<noteq> c \<Longrightarrow> running_thread s' d = running_thread s d"
    "\<exists>t. running_thread s' c = Some t"
proof -
  note R = running_on [OF S me(1) c] and al = running_allocated [OF S c me]
  note A = allocated_listed [OF S al]
  let ?f = "\<lambda>b :: TCB. b\<lparr>intention := atomic_set (intention b) THREAD_INTENTION_EXITED, tname := THREAD_INIT_NAME\<rparr>"
  have S1: "sys_ok LS (upd_tcb me ?f s)"
    using A by (intro sys_upd_block [OF S R(2), of _ "?f (tcbs s me)"]) simp_all
  have m1: "running_thread (upd_tcb me ?f s) c = Some me" using me by simp
  have "may_intend c me THREAD_INTENTION_EXITED" using me by (simp add: may_intend_def)
  then obtain r LS' s' where 2: "schedule c THREAD_INTENTION_EXITED (upd_tcb me ?f s) = Some (r, s')" "sys_ok LS' s'"
    "\<And>d. d \<noteq> c \<Longrightarrow> running_thread s' d = running_thread (upd_tcb me ?f s) d" "\<exists>t. running_thread s' c = Some t"
    by (rule schedule_ok [OF S1 c m1]) (rule that)
  have "thread_exit_current c s = Some (0, s')"
    using me R(3) get_tcb_NT [OF A(3,2)] get_upd_put [OF S al, of ?f] 2(1)
    by (simp add: thread_exit_current_def get_current_def atomic_set_def)
  then show thesis using 2 by (intro that [of s' LS']) simp_all
qed

section \<open>Creating a thread\<close>

lemma take_first:
  assumes o: "lists_ok {} LS s" and l: "l \<in> list_ids" and t: "LS l = t # xs"
  obtains h where "\<And>s'. links s' = links s \<Longrightarrow> links_del t s' = Some (s'\<lparr>links := h\<rparr>)"
    "\<And>s'. links s' = dl_list_init (Item t) h \<Longrightarrow> (\<forall>m. tl_count (tls s' m) = tl_count (tls s m) - (if m = l then 1 else 0)) \<Longrightarrow>
      (\<forall>u. u \<noteq> t \<longrightarrow> tcbs s' u = tcbs s u) \<Longrightarrow> lists_ok {t} (LS(l := xs)) s'"
proof -
  obtain h where h: "dl_list_del (Item t) (links s) = Some h" "lists_rep list_ids h (LS(l := xs))"
    using rep_del [OF lists_okD(1) [OF o] l t] by blast
  have tl: "t \<in> set (LS l)" and rm: "remove1 t (LS l) = xs" using t by simp_all
  have un: "(\<Union>m\<in>list_ids. set ((LS(l := xs)) m)) = pool_tids - {t}" using union_remove [OF o l tl] rm by simp
  have nt: "t \<notin> set ((LS(l := xs)) m)" if "m \<in> list_ids" for m using un that by blast
  have out: "lists_rep list_ids (dl_list_init (Item t) h) (LS(l := xs))"
    unfolding dl_list_init_def by (rule rep_outside [OF h(2)]) (use nt in blast)
  have "lists_ok {t} (LS(l := xs)) s'"
    if s': "links s' = dl_list_init (Item t) h" "\<forall>m. tl_count (tls s' m) = tl_count (tls s m) - (if m = l then 1 else 0)"
      "\<forall>u. u \<noteq> t \<longrightarrow> tcbs s' u = tcbs s u" for s'
  proof (rule lists_ok_I)
    show "tl_count (tls s' m) = of_nat (length ((LS(l := xs)) m))" if "m \<in> list_ids" for m
      using lists_okD(2) [OF o that] t s'(2) by (cases "m = l") simp_all
    show "listed_ok m (tcbs s' u)" if "m \<in> list_ids" "u \<in> set ((LS(l := xs)) m)" for m u
    proof -
      have "u \<in> set (LS m)" "u \<noteq> t" using that t nt [OF that(1)] by (auto split: if_splits)
      then show ?thesis using lists_okD(3) [OF o that(1)] s'(3) by simp
    qed
  qed (use out s'(1) un in simp_all)
  then show thesis using h(1) by (intro that [of h]) (simp_all add: links_del_def)
qed

lemma alloc_tcb_ok:
  assumes o: "lists_ok {} LS s" and b: "base_ok s" and c: "c < MAX_PROCESSOR_COUNT"
    and free: "LS (Local_tcb c) \<noteq> [] \<or> LS Global_tcb \<noteq> []"
  obtains t s' LS' where "alloc_tcb c s = Some (t, s')" "lists_ok {t} LS' s'" "t \<in> pool_tids" "tstate (tcbs s t) = THREAD_STATE_NOTALLOC"
    "tcbs s' = (tcbs s)(t := reset_tcb (tcbs s t))" "km s' = km s" "apic s' = apic s" "running_thread s' = running_thread s"
    "lock (tl_lock (tls s' Global_tcb)) = 0" "lock (tl_lock (tls s' Migrating)) = 0"
    "\<And>l. l \<noteq> Local_tcb c \<Longrightarrow> l \<noteq> Global_tcb \<Longrightarrow> LS' l = LS l"
    "LS (Local_tcb c) = [] \<Longrightarrow> LS' = LS(Global_tcb := tl (LS Global_tcb))"
proof (cases "LS (Local_tcb c)")
  case (Cons t xs)
  have l: "Local_tcb c \<in> list_ids" using c by simp
  have tl: "t \<in> set (LS (Local_tcb c))" using Cons by simp
  obtain h where h: "\<And>s'. links s' = links s \<Longrightarrow> links_del t s' = Some (s'\<lparr>links := h\<rparr>)"
    "\<And>s'. links s' = dl_list_init (Item t) h \<Longrightarrow> (\<forall>m. tl_count (tls s' m) = tl_count (tls s m) - (if m = Local_tcb c then 1 else 0)) \<Longrightarrow>
      (\<forall>u. u \<noteq> t \<longrightarrow> tcbs s' u = tcbs s u) \<Longrightarrow> lists_ok {t} (LS(Local_tcb c := xs)) s'"
    by (rule take_first [OF o l Cons]) (rule that)
  let ?s' = "links_init (Item t) (upd_tcb t reset_tcb (count_dec (Local_tcb c) (s\<lparr>links := h\<rparr>)))"
  have f: "tstate (tcbs s t) = THREAD_STATE_NOTALLOC" "refc (tcbs s t) = 0" using lists_okD(3) [OF o l tl] by simp_all
  have "alloc_tcb c s = Some (t, ?s')"
    using h(1) f Cons count_zero_iff [OF o l] rep_head [OF lists_okD(1) [OF o] l]
    by (simp add: alloc_tcb_def entry_def count_dec_def atomic_get_def)
  moreover have "lists_ok {t} (LS(Local_tcb c := xs)) ?s'" by (rule h(2)) (simp_all add: count_dec_def)
  ultimately show thesis
    using f lists_okD(4) [OF o l tl] base_okD(6,7) [OF b] Cons
    by (intro that [of t ?s' "LS(Local_tcb c := xs)"]) (simp_all add: count_dec_def)
next
  case Nil
  then obtain t xs where g: "LS Global_tcb = t # xs" using free by (cases "LS Global_tcb") auto
  have l: "Global_tcb \<in> list_ids" "Local_tcb c \<in> list_ids" using c by simp_all
  have tl: "t \<in> set (LS Global_tcb)" using g by simp
  obtain h where h: "\<And>s'. links s' = links s \<Longrightarrow> links_del t s' = Some (s'\<lparr>links := h\<rparr>)"
    "\<And>s'. links s' = dl_list_init (Item t) h \<Longrightarrow> (\<forall>m. tl_count (tls s' m) = tl_count (tls s m) - (if m = Global_tcb then 1 else 0)) \<Longrightarrow>
      (\<forall>u. u \<noteq> t \<longrightarrow> tcbs s' u = tcbs s u) \<Longrightarrow> lists_ok {t} (LS(Global_tcb := xs)) s'"
    by (rule take_first [OF o l(1) g]) (rule that)
  let ?s1 = "upd_list Global_tcb (\<lambda>l. l\<lparr>tl_lock := (tl_lock (tls s Global_tcb))\<lparr>lock := 1\<rparr>\<rparr>) s"
  let ?s' = "links_init (Item t) (upd_tcb t reset_tcb (list_unlock Global_tcb (count_dec Global_tcb (?s1\<lparr>links := h\<rparr>))))"
  have f: "tstate (tcbs s t) = THREAD_STATE_NOTALLOC" using lists_okD(3) [OF o l(1) tl] by simp
  have "alloc_tcb c s = Some (t, ?s')"
    using h(1) [of ?s1] f g Nil count_zero_iff [OF o l(2)] rep_head [OF lists_okD(1) [OF o] l(1)] rep_empty [OF lists_okD(1) [OF o] l(1)]
    by (simp add: alloc_tcb_def entry_def list_lock_def global_lock_free [OF b])
  moreover have "lists_ok {t} (LS(Global_tcb := xs)) ?s'" by (rule h(2)) (simp_all add: list_op_defs)
  ultimately show thesis
    using f lists_okD(4) [OF o l(1) tl] base_okD(6,7) [OF b] g
    by (intro that [of t ?s' "LS(Global_tcb := xs)"]) (simp_all add: list_op_defs spinlock_unlock_def)
qed

lemma kernel_live_pos: "(a, n) \<in> kernel_live k \<Longrightarrow> 0 < n"
  by (auto simp: kernel_live_def block_region_def)

lemma stacks_ok_fresh:
  assumes k: "kernel_ok k" and st: "stacks_ok A B k" and t: "t \<notin> A"
    and al: "az_alloc k CONFIG_STACK_SIZE = Some (a, k')"
    and B': "\<And>u. u \<in> A \<Longrightarrow> B' u = B u" "stack_base (B' t) = a + CONFIG_STACK_SIZE"
  shows "kernel_ok k'" "stacks_ok (insert t A) B' k'"
proof -
  have sz: "unat CONFIG_STACK_SIZE \<le> 2 ^ 30" by (simp add: CONFIG_STACK_SIZE_def)
  have at: "stack_addr (B' t) = a" using B'(2) by (simp add: stack_addr_def)
  have au: "stack_addr (B' u) = stack_addr (B u)" if "u \<in> A" for u using B'(1) [OF that] by simp
  from kmem.alloc_law [OF k sz] al have law: "kernel_ok k'" "a = 0 \<and> k' = k \<or>
      a \<noteq> 0 \<and> (\<exists>n\<ge>unat CONFIG_STACK_SIZE. (a, n) \<notin> kernel_live k \<and> kernel_live k' = insert (a, n) (kernel_live k))"
    by auto
  show "kernel_ok k'" by (rule law(1))
  have keep: "fst ` kernel_live k \<subseteq> fst ` kernel_live k'" using law(2) by auto
  have new: "a \<in> fst ` kernel_live k'" "a \<notin> fst ` kernel_live k" if nz: "a \<noteq> 0"
  proof -
    obtain n where n: "unat CONFIG_STACK_SIZE \<le> n" "(a, n) \<notin> kernel_live k" "kernel_live k' = insert (a, n) (kernel_live k)"
      using law(2) nz by blast
    then show "a \<in> fst ` kernel_live k'" by force
    show "a \<notin> fst ` kernel_live k"
    proof
      assume "a \<in> fst ` kernel_live k"
      then obtain m where m: "(a, m) \<in> kernel_live k" by auto
      then have "disjoint_regions (a, m) (a, n)" using n kmem.live_disjoint [OF law(1), of "(a, m)" "(a, n)"] by auto
      moreover have "in_region a (a, m)" "in_region a (a, n)"
        using kernel_live_pos [OF m] n by (auto simp: in_region_def in_range_def CONFIG_STACK_SIZE_def)
      ultimately show False by (auto simp: disjoint_regions_def)
    qed
  qed
  have st1: "stack_addr (B u) = 0 \<or> stack_addr (B u) \<in> fst ` kernel_live k" if "u \<in> A" for u
    using st that by (simp add: stacks_ok_def)
  have "stack_addr (B' u) = 0 \<or> stack_addr (B' u) \<in> fst ` kernel_live k'" if "u \<in> insert t A" for u
  proof (cases "u = t")
    case True
    then show ?thesis using at new(1) by blast
  next
    case False
    then have "u \<in> A" using that by simp
    then show ?thesis using st1 au keep by auto
  qed
  moreover have "inj_on (\<lambda>u. stack_addr (B' u)) {u\<in>insert t A. stack_addr (B' u) \<noteq> 0}"
  proof (rule inj_onI)
    have no: "stack_addr (B' u) \<noteq> a" if "u \<in> A" "a \<noteq> 0" for u using st1 [OF that(1)] au [OF that(1)] new(2) [OF that(2)] that(2) by auto
    show "u = v" if "u \<in> {u\<in>insert t A. stack_addr (B' u) \<noteq> 0}" "v \<in> {u\<in>insert t A. stack_addr (B' u) \<noteq> 0}"
      "stack_addr (B' u) = stack_addr (B' v)" for u v
    proof (cases "u = t \<or> v = t")
      case True
      then show ?thesis using that at no [of u] no [of v] by auto
    next
      case False
      then have "u \<in> A" "v \<in> A" using that by auto
      then show ?thesis using st that au unfolding stacks_ok_def inj_on_def by auto
    qed
  qed
  ultimately show "stacks_ok (insert t A) B' k'" by (simp add: stacks_ok_def)
qed

text \<open>The part of \<^verbatim>\<open>create_thread\<close> before the new thread enters the migrating list.\<close>

lemma create_thread_prefix:
  assumes al: "alloc_tcb c s = Some (t, s1)" and s1: "tcbs s1 = (tcbs s)(t := reset_tcb (tcbs s t))" and ok: "tcb_ok t (tcbs s t)"
    and t: "t < NT" and k: "az_alloc (km s1) CONFIG_STACK_SIZE = Some (a, k)" and m: "- 1 \<le> cmask"
  obtains s2 M b where "create_thread c ip argv cmask s = do {
      s \<leftarrow> list_lock Migrating s2;
      s \<leftarrow> links_add_tail t Migrating s;
      let s = count_inc Migrating s;
      let s = upd_tcb t (\<lambda>b. b\<lparr>sched_list := Some Migrating, tstate := THREAD_STATE_READY\<rparr>) s;
      s \<leftarrow> put_tcb c t (list_unlock Migrating s);
      let s = s\<lparr>g_thread_cnt := atomic_inc (g_thread_cnt s), trcnt := atomic_inc (trcnt s)\<rparr>;
      Some (int (tcb_id (tcbs s t)), s) }"
    "tcbs s2 = (tcbs s)(t := b)" "km s2 = set_mem M k" "links s2 = links s1" "tls s2 = tls s1" "apic s2 = apic s1"
    "running_thread s2 = running_thread s1" "refc b = 2" "tcb_ok t b" "stack_base b = a + CONFIG_STACK_SIZE" "intention b = 0"
    "signal_handler b = signal_handler (tcbs s t)" "resume b = From_setup" "running_core b = word_of_int cmask"
    "remaining_time_slice b = THREAD_DEFAULT_TIME_SLICE" "cmask = - 1 \<Longrightarrow> core_mask b 0 = 0"
proof -
  have idt: "tcb_id (tcbs s1 t) = t" "tstate (tcbs s1 t) = THREAD_STATE_CREATED" using ok s1 by (simp_all add: tcb_ok_def reset_tcb_def)
  let ?s3 = "upd_tcb t (\<lambda>b. b\<lparr>refc := atomic_inc (refc b)\<rparr>) s1"
  have g: "get_tcb (of_nat t) s1 = (Some t, ?s3)" using t idt by (intro get_tcb_NT) simp_all
  define f1 :: "TCB \<Rightarrow> TCB" where "f1 = (\<lambda>b. b\<lparr>stack_base := a + CONFIG_STACK_SIZE,
    remaining_time_slice := THREAD_DEFAULT_TIME_SLICE, remaining_time_quantum := THREAD_DEFAULT_TIME_QUANTUM,
    tname := THREAD_INIT_NAME, acc_ltc := 0\<rparr>)"
  let ?s4 = "upd_tcb t (\<lambda>b. b\<lparr>running_core := word_of_int cmask\<rparr>) (upd_tcb t f1 (?s3\<lparr>km := k\<rparr>))"
  define cst where "cst = (if cmask = - 1 then INIT_CORE_MASK (\<lambda>_. 0) else CLEAR_CORE_MASK (FILL_CORE_MASK (\<lambda>_. 0)) (nat cmask))"
  let ?s5 = "upd_tcb t (\<lambda>b. b\<lparr>core_mask := COPY_CORE_MASK (core_mask b) cst\<rparr>) ?s4"
  have sc: "set_core t (\<lambda>_. 0) cmask ?s4 = Some ?s5" using m by (simp add: set_core_def cst_def Let_def)
  obtain M q where fr: "setup_frame (sym_thread_exit ?s5) (sym_return_from_setup ?s5) (stack (tcbs ?s5 t))
      (if ip = 0 then elf_load_entry ?s5 else ip) a argv (mem (km ?s5)) = (M, q)" by fastforce
  define s2 where "s2 = upd_tcb t (\<lambda>b. b\<lparr>stack := q, resume := From_setup\<rparr>) (?s5\<lparr>km := (km ?s5)\<lparr>mem := M\<rparr>\<rparr>)"
  have st: "setup_thread t (if ip = 0 then elf_load_entry ?s5 else ip) a argv ?s5 = s2"
    using fr by (simp add: setup_thread_def s2_def)
  have "create_thread c ip argv cmask s = do {
      s \<leftarrow> list_lock Migrating s2;
      s \<leftarrow> links_add_tail t Migrating s;
      let s = count_inc Migrating s;
      let s = upd_tcb t (\<lambda>b. b\<lparr>sched_list := Some Migrating, tstate := THREAD_STATE_READY\<rparr>) s;
      s \<leftarrow> put_tcb c t (list_unlock Migrating s);
      let s = s\<lparr>g_thread_cnt := atomic_inc (g_thread_cnt s), trcnt := atomic_inc (trcnt s)\<rparr>;
      Some (int (tcb_id (tcbs s t)), s) }"
    unfolding create_thread_def using al g idt(1) k sc st
    by (simp add: init_tcb_def f1_def [symmetric] Let_def)
  moreover have "tcbs s2 = (tcbs s)(t := tcbs s2 t)" by (simp add: s2_def s1 fun_eq_iff)
  moreover have "km s2 = set_mem M k" by (simp add: s2_def set_mem_def)
  moreover have "refc (tcbs s2 t) = 2" "tcb_ok t (tcbs s2 t)" "stack_base (tcbs s2 t) = a + CONFIG_STACK_SIZE" "intention (tcbs s2 t) = 0"
    "signal_handler (tcbs s2 t) = signal_handler (tcbs s t)" "resume (tcbs s2 t) = From_setup" "running_core (tcbs s2 t) = word_of_int cmask"
    "remaining_time_slice (tcbs s2 t) = THREAD_DEFAULT_TIME_SLICE" "cmask = - 1 \<Longrightarrow> core_mask (tcbs s2 t) 0 = 0"
    using ok by (simp_all add: s2_def s1 f1_def reset_tcb_def tcb_ok_def atomic_defs THREAD_DEFAULT_TIME_SLICE_def
        cst_def COPY_CORE_MASK_def INIT_CORE_MASK_def THREAD_DEFAULT_TIME_QUANTUM_def THREAD_INFINITE_TIME_QUANTUM_def)
  ultimately show thesis by (intro that [of s2 "tcbs s2 t" M]) (simp_all add: s2_def)
qed

lemma create_thread_ok:
  assumes S: "sys_ok LS s" and c: "c < MAX_PROCESSOR_COUNT" and m: "- 1 \<le> cmask"
    and free: "LS (Local_tcb c) \<noteq> [] \<or> LS Global_tcb \<noteq> []"
  obtains t s' LS' where "create_thread c ip argv cmask s = Some (int t, s')" "sys_ok LS' s'"
    "running_thread s' = running_thread s" "t \<in> pool_tids" "t \<notin> allocated s" "allocated s' = insert t (allocated s)"
    "t \<in> set (LS' Migrating)" "\<And>u. u \<noteq> t \<Longrightarrow> tcbs s' u = tcbs s u" "signal_handler (tcbs s' t) = signal_handler (tcbs s t)"
    "tstate (tcbs s' t) = THREAD_STATE_READY" "intention (tcbs s' t) = 0" "running_core (tcbs s' t) = word_of_int cmask"
    "remaining_time_slice (tcbs s' t) = THREAD_DEFAULT_TIME_SLICE" "cmask = - 1 \<Longrightarrow> core_mask (tcbs s' t) 0 = 0"
    "resume (tcbs s' t) = From_setup"
    "LS (Local_tcb c) = [] \<Longrightarrow> LS' = LS(Global_tcb := tl (LS Global_tcb), Migrating := LS Migrating @ [t])"
proof -
  note D = sys_okD [OF S]
  obtain t s1 LS1 where 1: "alloc_tcb c s = Some (t, s1)" "lists_ok {t} LS1 s1" "t \<in> pool_tids" "tstate (tcbs s t) = THREAD_STATE_NOTALLOC"
    "tcbs s1 = (tcbs s)(t := reset_tcb (tcbs s t))" "km s1 = km s" "apic s1 = apic s" "running_thread s1 = running_thread s"
    "lock (tl_lock (tls s1 Global_tcb)) = 0" "lock (tl_lock (tls s1 Migrating)) = 0"
    "\<And>l. l \<noteq> Local_tcb c \<Longrightarrow> l \<noteq> Global_tcb \<Longrightarrow> LS1 l = LS l" "LS (Local_tcb c) = [] \<Longrightarrow> LS1 = LS(Global_tcb := tl (LS Global_tcb))"
    by (rule alloc_tcb_ok [OF D(1,2) c free]) (rule that)
  have tn: "t < NT" "\<not> t < MAX_PROCESSOR_COUNT" using pool_NT [OF 1(3)] by simp_all
  have sz: "unat CONFIG_STACK_SIZE \<le> 2 ^ 30" by (simp add: CONFIG_STACK_SIZE_def)
  obtain a k where k: "az_alloc (km s1) CONFIG_STACK_SIZE = Some (a, k)" using kmem.alloc_law [OF base_okD(4) [OF D(2)] sz] 1(6) by auto
  obtain s2 M b where 2: "create_thread c ip argv cmask s = do {
      s \<leftarrow> list_lock Migrating s2;
      s \<leftarrow> links_add_tail t Migrating s;
      let s = count_inc Migrating s;
      let s = upd_tcb t (\<lambda>b. b\<lparr>sched_list := Some Migrating, tstate := THREAD_STATE_READY\<rparr>) s;
      s \<leftarrow> put_tcb c t (list_unlock Migrating s);
      let s = s\<lparr>g_thread_cnt := atomic_inc (g_thread_cnt s), trcnt := atomic_inc (trcnt s)\<rparr>;
      Some (int (tcb_id (tcbs s t)), s) }"
    and f2: "tcbs s2 = (tcbs s)(t := b)" "km s2 = set_mem M k" "links s2 = links s1" "tls s2 = tls s1" "apic s2 = apic s1"
      "running_thread s2 = running_thread s1" "refc b = 2" "tcb_ok t b" "stack_base b = a + CONFIG_STACK_SIZE" "intention b = 0"
      "signal_handler b = signal_handler (tcbs s t)" "resume b = From_setup" "running_core b = word_of_int cmask"
      "remaining_time_slice b = THREAD_DEFAULT_TIME_SLICE" "cmask = - 1 \<Longrightarrow> core_mask b 0 = 0"
    by (rule create_thread_prefix [OF 1(1,5) base_okD(1) [OF D(2) tn(1)] tn(1) k m]) (rule that)
  obtain h where h: "\<And>s'. links s' = links s1 \<Longrightarrow> links_add_tail t Migrating s' = Some (s'\<lparr>links := h\<rparr>)"
    "\<And>s'. links s' = h \<Longrightarrow> (\<forall>m. tl_count (tls s' m) = tl_count (tls s1 m) + (if m = Migrating then 1 else 0)) \<Longrightarrow>
      (\<forall>u. u \<noteq> t \<longrightarrow> tcbs s' u = tcbs s1 u) \<Longrightarrow> listed_ok Migrating (tcbs s' t) \<Longrightarrow> lists_ok ({t} - {t}) (LS1(Migrating := LS1 Migrating @ [t])) s'"
    by (rule put_in [OF 1(2) _ singletonI 1(3), of Migrating]) (simp, rule that)
  let ?b = "b\<lparr>sched_list := Some Migrating, tstate := THREAD_STATE_READY\<rparr>"
  let ?s3 = "upd_list Migrating (\<lambda>l. l\<lparr>tl_lock := (tl_lock (tls s1 Migrating))\<lparr>lock := 1\<rparr>\<rparr>) s2"
  define s4 where "s4 = list_unlock Migrating (upd_tcb t (\<lambda>b. b\<lparr>sched_list := Some Migrating, tstate := THREAD_STATE_READY\<rparr>)
      (count_inc Migrating (?s3\<lparr>links := h\<rparr>)))"
  have lk: "list_lock Migrating s2 = Some ?s3" using 1(10) f2(4) by (simp add: list_lock_def spinlock_lock_free)
  have r4: "refc (tcbs s4 t) = 2" using f2(1,7) by (simp add: s4_def list_op_defs)
  have id4: "tcb_id (tcbs s4 t) = t" using f2(1,8) by (simp add: s4_def list_op_defs tcb_ok_def)
  let ?s5 = "upd_tcb t (\<lambda>b. b\<lparr>refc := 1\<rparr>) s4"
  have p: "put_tcb c t s4 = Some ?s5" using r4 by (simp add: put_tcb_def atomic_dec_and_test_def Let_def)
  define s' where "s' = ?s5\<lparr>g_thread_cnt := atomic_inc (g_thread_cnt ?s5), trcnt := atomic_inc (trcnt ?s5)\<rparr>"
  have F: "tcbs s' = (tcbs s)(t := ?b\<lparr>refc := 1\<rparr>)" "links s' = h" "km s' = set_mem M k" "apic s' = apic s"
    "running_thread s' = running_thread s" "tl_count (tls s' m) = tl_count (tls s1 m) + (if m = Migrating then 1 else 0)"
    "lock (tl_lock (tls s' Global_tcb)) = 0" "lock (tl_lock (tls s' Migrating)) = 0" for m
    using f2(1-6) 1(7-9) by (simp_all add: s'_def s4_def list_op_defs spinlock_unlock_def)
  have cr: "create_thread c ip argv cmask s = Some (int t, s')"
    using 2 lk h(1) [of ?s3] f2(3) p id4 by (simp add: s4_def [symmetric] Let_def s'_def)
  have lo: "lists_ok {} (LS1(Migrating := LS1 Migrating @ [t])) s'"
    using h(2) [OF F(2)] 1(5) by (simp add: F)
  have na: "t \<notin> allocated s" using 1(4) by (simp add: allocated_def)
  have aa: "allocated s' = insert t (allocated s)" using 1(3) by (auto simp: allocated_def F(1))
  have k': "az_alloc (km s) CONFIG_STACK_SIZE = Some (a, k)" using k 1(6) by simp
  have B': "\<And>u. u \<in> allocated s \<Longrightarrow> tcbs s' u = tcbs s u" "stack_base (tcbs s' t) = a + CONFIG_STACK_SIZE"
    using na f2(9) by (auto simp: F(1))
  note ks = stacks_ok_fresh [OF base_okD(4,3) [OF D(2)] na k' B']
  have "tcb_ok u (tcbs s' u)" if "u < NT" for u
    using base_okD(1) [OF D(2) that] f2(8) by (cases "u = t") (simp_all add: F(1) tcb_ok_def)
  moreover have "idle_ok u (tcbs s' u)" if "u < MAX_PROCESSOR_COUNT" for u
    using base_okD(2) [OF D(2) that] tn(2) that by (cases "u = t") (simp_all add: F(1))
  moreover have "stacks_ok (allocated s') (tcbs s') (km s')" using ks(2) by (simp add: aa F(3) stacks_ok_def kmem.setmem_law)
  ultimately have "base_ok s'" using base_okD(5) [OF D(2)] ks(1) F by (simp add: base_ok_def kmem.setmem_law)
  moreover have "(LS1(Migrating := LS1 Migrating @ [t])) (Runnable d) = LS (Runnable d)" for d using 1(11) by simp
  ultimately have "sys_ok (LS1(Migrating := LS1 Migrating @ [t])) s'"
    using lo D(3) F(5) by (simp add: sys_ok_def)
  then show thesis
    using cr na aa 1(3,12) f2(10-15) F(1,5) by (intro that [of t s' "LS1(Migrating := LS1 Migrating @ [t])"]) simp_all
qed

end
