(* ===== verification/SchedInit.thy ===== *)
theory SchedInit
  imports SchedCalls
begin

text \<open>
  The initialisation: \<^verbatim>\<open>sched_init\<close> and \<^verbatim>\<open>thread_init\<close>, in the order the boot code calls them, and
  \<^verbatim>\<open>setup_idle_thread\<close>, with which each core starts.
\<close>

section \<open>Empty lists\<close>

definition empty_ok :: "list_id set \<Rightarrow> sched_state \<Rightarrow> bool" where
  "empty_ok L s \<longleftrightarrow> lists_rep L (links s) (\<lambda>_. []) \<and> (\<forall>l\<in>L. tl_count (tls s l) = 0 \<and> lock (tl_lock (tls s l)) = 0)"

lemma empty_ok_init:
  assumes "empty_ok L s" "l \<notin> L"
  shows "empty_ok (insert l L) (thread_list_init l s)"
proof -
  have "lists_rep (insert l L) (dl_list_init (Head l) (links s)) ((\<lambda>_. [])(l := []))"
    using assms by (intro rep_init) (simp_all add: empty_ok_def)
  then show ?thesis
    using assms by (auto simp: empty_ok_def thread_list_init_def spinlock_init_def fun_upd_idem)
qed

lemma thread_list_init_fields [simp]:
  "tcbs (thread_list_init l s) = tcbs s" "running_thread (thread_list_init l s) = running_thread s" "km (thread_list_init l s) = km s"
  "apic (thread_list_init l s) = apic s" "g_running_thread_list (thread_list_init l s) = g_running_thread_list s"
  by (simp_all add: thread_list_init_def)

lemma empty_ok_same: "empty_ok L s \<Longrightarrow> links s' = links s \<Longrightarrow> tls s' = tls s \<Longrightarrow> empty_ok L s'"
  by (simp add: empty_ok_def)

lemma sched_init_fold:
  fixes s :: sched_state
  defines "f \<equiv> \<lambda>i s. (thread_list_init (Blocked i) (thread_list_init (Runnable i) s))\<lparr>running_thread := (running_thread s)(i := None)\<rparr>"
  shows "empty_ok (Runnable ` {..<n} \<union> Blocked ` {..<n}) (fold f [0..<n] s) \<and>
    (\<forall>i<n. running_thread (fold f [0..<n] s) i = None) \<and> km (fold f [0..<n] s) = km s \<and> apic (fold f [0..<n] s) = apic s"
proof (induction n)
  case 0
  then show ?case by (simp add: empty_ok_def lists_rep_def)
next
  case (Suc n)
  let ?s = "fold f [0..<n] s"
  have "empty_ok (insert (Blocked n) (insert (Runnable n) (Runnable ` {..<n} \<union> Blocked ` {..<n})))
      (thread_list_init (Blocked n) (thread_list_init (Runnable n) ?s))"
    using Suc by (intro empty_ok_init) auto
  moreover have "insert (Blocked n) (insert (Runnable n) (Runnable ` {..<n} \<union> Blocked ` {..<n})) =
      Runnable ` {..<Suc n} \<union> Blocked ` {..<Suc n}" by (auto simp: lessThan_Suc)
  ultimately have "empty_ok (Runnable ` {..<Suc n} \<union> Blocked ` {..<Suc n}) (f n ?s)"
    by (simp add: f_def) (erule empty_ok_same, simp_all)
  then show ?case using Suc by (auto simp: f_def less_Suc_eq)
qed

lemma sched_init_ok:
  "empty_ok (insert Migrating (Runnable ` {..<MAX_PROCESSOR_COUNT} \<union> Blocked ` {..<MAX_PROCESSOR_COUNT})) (sched_init s)"
  "c < MAX_PROCESSOR_COUNT \<Longrightarrow> running_thread (sched_init s) c = None" "km (sched_init s) = km s" "apic (sched_init s) = apic s"
  using sched_init_fold [of MAX_PROCESSOR_COUNT s] unfolding sched_init_def Let_def
  by (auto intro!: empty_ok_init)

lemma local_init_fold:
  fixes s :: sched_state
  defines "f \<equiv> \<lambda>i s. (thread_list_init (Local_tcb i) s)\<lparr>g_running_thread_list := (g_running_thread_list s)(i := None)\<rparr>"
  assumes "empty_ok L s" "\<And>i. Local_tcb i \<notin> L"
  shows "empty_ok (L \<union> Local_tcb ` {..<n}) (fold f [0..<n] s) \<and>
    running_thread (fold f [0..<n] s) = running_thread s \<and> km (fold f [0..<n] s) = km s \<and> apic (fold f [0..<n] s) = apic s"
proof (induction n)
  case 0
  then show ?case using assms(2) by simp
next
  case (Suc n)
  let ?s = "fold f [0..<n] s"
  have "empty_ok (insert (Local_tcb n) (L \<union> Local_tcb ` {..<n})) (thread_list_init (Local_tcb n) ?s)"
    using Suc assms(3) by (intro empty_ok_init) auto
  moreover have "insert (Local_tcb n) (L \<union> Local_tcb ` {..<n}) = L \<union> Local_tcb ` {..<Suc n}" by (auto simp: lessThan_Suc)
  ultimately have "empty_ok (L \<union> Local_tcb ` {..<Suc n}) (f n ?s)"
    by (simp add: f_def) (erule empty_ok_same, simp_all)
  then show ?case using Suc by (simp add: f_def)
qed

section \<open>The pool of blocks\<close>

lemma ofold_append: "ofold f (xs @ ys) s = do { s \<leftarrow> ofold f xs s; ofold f ys s }"
  by (induction xs arbitrary: s) (simp_all add: bind_eq_Some_conv split: option.splits bind_splits)

definition pool_upto :: "nat \<Rightarrow> sched_state \<Rightarrow> sched_state \<Rightarrow> bool" where
  "pool_upto n s0 s \<longleftrightarrow>
     lists_rep list_ids (links s) ((\<lambda>_. [])(Global_tcb := map ((+) MAX_PROCESSOR_COUNT) [0..<n])) \<and>
     tl_count (tls s Global_tcb) = of_nat n \<and> (\<forall>l\<in>list_ids - {Global_tcb}. tl_count (tls s l) = 0) \<and>
     (\<forall>l. tl_lock (tls s l) = tl_lock (tls s0 l)) \<and>
     (\<forall>i<n. \<exists>a b. tcbs s (MAX_PROCESSOR_COUNT + i) = init_pool_tcb a i b) \<and>
     running_thread s = running_thread s0 \<and> km s = km s0 \<and> apic s = apic s0"

lemma pool_step_ok:
  assumes p: "pool_upto n s0 s"
  obtains s' where "pool_step n s = Some s'" "pool_upto (Suc n) s0 s'"
proof -
  let ?t = "MAX_PROCESSOR_COUNT + n"
  let ?LS = "(\<lambda>_. [])(Global_tcb := map ((+) MAX_PROCESSOR_COUNT) [0..<n])"
  have r: "lists_rep list_ids (links s) ?LS" using p by (simp add: pool_upto_def)
  have out: "?t \<notin> set (?LS l)" for l by auto
  let ?H = "dl_list_init (Item ?t) (links s)"
  have r1: "lists_rep list_ids ?H ?LS"
    unfolding dl_list_init_def by (rule rep_outside [OF r]) (use out in auto)
  obtain h where h: "dl_list_add_tail (Item ?t) (Head Global_tcb) ?H = Some h"
    "lists_rep list_ids h (?LS(Global_tcb := ?LS Global_tcb @ [?t]))"
    by (rule rep_add_tail [OF r1, of Global_tcb ?t]) (use out in \<open>auto intro: that\<close>)
  let ?s1 = "links_init (Item ?t) (upd_tcb ?t (init_pool_tcb (tcb_addr s ?t) n) s)"
  let ?s2 = "count_inc Global_tcb (?s1\<lparr>links := h\<rparr>)"
  let ?s' = "?s2\<lparr>ss := store_tcb_info ?t (tcb_addr ?s2 ?t) (ss ?s2)\<rparr>"
  have "pool_step n s = Some ?s'" using h(1) by (simp add: pool_step_def links_add_tail_def Let_def)
  moreover have "pool_upto (Suc n) s0 ?s'"
  proof -
    have "tcbs ?s' (MAX_PROCESSOR_COUNT + i) = (if i = n then init_pool_tcb (tcb_addr s ?t) n (tcbs s ?t) else tcbs s (MAX_PROCESSOR_COUNT + i))" for i
      by (simp add: count_inc_def)
    then have "\<exists>a b. tcbs ?s' (MAX_PROCESSOR_COUNT + i) = init_pool_tcb a i b" if "i < Suc n" for i
      using that p unfolding pool_upto_def by (metis less_Suc_eq)
    then show ?thesis using p h(2) by (simp add: pool_upto_def count_inc_def)
  qed
  ultimately show thesis by (rule that)
qed

lemma pool_fold:
  assumes "pool_upto 0 s0 s"
  shows "\<exists>s'. ofold pool_step [0..<n] s = Some s' \<and> pool_upto n s0 s'"
proof (induction n)
  case 0
  then show ?case using assms by simp
next
  case (Suc n)
  then obtain s1 where 1: "ofold pool_step [0..<n] s = Some s1" "pool_upto n s0 s1" by blast
  obtain s2 where "pool_step n s1 = Some s2" "pool_upto (Suc n) s0 s2" by (rule pool_step_ok [OF 1(2)])
  then show ?case using 1(1) by (simp add: ofold_append)
qed

lemma idle_step_fields:
  "links (idle_step n s) = dl_list_init (Item n) (links s)" "tls (idle_step n s) = tls s"
  "running_thread (idle_step n s) = running_thread s" "km (idle_step n s) = km s" "apic (idle_step n s) = apic s"
  "tcbs (idle_step n s) = (tcbs s)(n := init_idle_tcb (tcb_addr s n) n (tcbs s n))"
  by (simp_all add: idle_step_def Let_def)

lemma idle_fold:
  assumes "n \<le> MAX_PROCESSOR_COUNT" "lists_rep list_ids (links s) LS" "\<And>l. l \<in> list_ids \<Longrightarrow> set (LS l) \<subseteq> pool_tids"
  defines "s' \<equiv> fold idle_step [0..<n] s"
  shows "lists_rep list_ids (links s') LS \<and> tls s' = tls s \<and> running_thread s' = running_thread s \<and> km s' = km s \<and> apic s' = apic s \<and>
    (\<forall>i<n. \<exists>a b. tcbs s' i = init_idle_tcb a i b) \<and> (\<forall>t. \<not> t < n \<longrightarrow> tcbs s' t = tcbs s t)"
  unfolding s'_def using assms(1)
proof (induction n)
  case 0
  then show ?case using assms(2) by simp
next
  case (Suc n)
  let ?s = "fold idle_step [0..<n] s"
  have IH: "lists_rep list_ids (links ?s) LS" "tls ?s = tls s" "running_thread ?s = running_thread s" "km ?s = km s" "apic ?s = apic s"
    "\<forall>i<n. \<exists>a b. tcbs ?s i = init_idle_tcb a i b" "\<forall>t. \<not> t < n \<longrightarrow> tcbs ?s t = tcbs s t"
    using Suc by auto
  have "lists_rep list_ids (dl_list_init (Item n) (links ?s)) LS"
    unfolding dl_list_init_def
  proof (rule rep_outside [OF IH(1)])
    show "Item n \<noteq> Head l \<and> Item n \<notin> Item ` set (LS l)" if "l \<in> list_ids" for l
      using assms(3) [OF that] Suc.prems by (auto simp: pool_tids_def)
  qed
  then show ?case using IH by (auto simp: idle_step_fields less_Suc_eq)
qed

section \<open>The state after initialisation\<close>

definition initial_lists :: "list_id \<Rightarrow> nat list" where
  "initial_lists = (\<lambda>_. [])(Global_tcb := map ((+) MAX_PROCESSOR_COUNT) [0..<CONFIG_NUM_THREAD])"

lemma pool_initialised:
  assumes e: "empty_ok list_ids s" and k: "kernel_ok (km s)" and a: "10 \<le> ticks_in_10ms (apic s)"
    and R: "\<And>c. c < MAX_PROCESSOR_COUNT \<Longrightarrow> running_thread s c = None"
  obtains s1 where "ofold pool_step [0..<CONFIG_NUM_THREAD] s = Some s1"
    "sys_ok initial_lists (fold idle_step [0..<MAX_PROCESSOR_COUNT] s1)"
    "allocated (fold idle_step [0..<MAX_PROCESSOR_COUNT] s1) = {}"
    "running_thread (fold idle_step [0..<MAX_PROCESSOR_COUNT] s1) = running_thread s"
proof -
  have "pool_upto 0 s s" using e by (simp add: pool_upto_def empty_ok_def fun_upd_idem)
  from pool_fold [OF this, of CONFIG_NUM_THREAD]
  obtain s1 where 1: "ofold pool_step [0..<CONFIG_NUM_THREAD] s = Some s1" "pool_upto CONFIG_NUM_THREAD s s1" by blast
  have in_pool: "set (initial_lists l) \<subseteq> pool_tids" for l by (auto simp: initial_lists_def pool_tids_def)
  have rep: "lists_rep list_ids (links s1) initial_lists" using 1(2) by (simp add: pool_upto_def initial_lists_def)
  define s' where "s' = fold idle_step [0..<MAX_PROCESSOR_COUNT] s1"
  have s': "lists_rep list_ids (links s') initial_lists" "tls s' = tls s1" "running_thread s' = running_thread s1" "km s' = km s1"
    "apic s' = apic s1" "\<And>i. i < MAX_PROCESSOR_COUNT \<Longrightarrow> \<exists>a b. tcbs s' i = init_idle_tcb a i b"
    "\<And>t. \<not> t < MAX_PROCESSOR_COUNT \<Longrightarrow> tcbs s' t = tcbs s1 t"
    using idle_fold [OF order_refl rep in_pool] by (auto simp: s'_def)
  have P: "\<exists>a b. tcbs s1 (MAX_PROCESSOR_COUNT + i) = init_pool_tcb a i b" if "i < CONFIG_NUM_THREAD" for i
    using 1(2) that by (simp add: pool_upto_def)
  have blk: "\<exists>a b. tcbs s' t = init_pool_tcb a (t - MAX_PROCESSOR_COUNT) b" if "t \<in> pool_tids" for t
  proof -
    have "t - MAX_PROCESSOR_COUNT < CONFIG_NUM_THREAD" "\<not> t < MAX_PROCESSOR_COUNT" "MAX_PROCESSOR_COUNT + (t - MAX_PROCESSOR_COUNT) = t"
      using that by (auto simp: pool_tids_def)
    then show ?thesis using P [of "t - MAX_PROCESSOR_COUNT"] s'(7) [of t] by simp
  qed
  have al: "allocated s' = {}" using blk by (fastforce simp: allocated_def init_pool_tcb_def)
  have fr: "km s1 = km s" "apic s1 = apic s" "running_thread s1 = running_thread s" "tl_lock (tls s1 l) = tl_lock (tls s l)" for l
    using 1(2) by (auto simp: pool_upto_def)
  have "tcb_ok t (tcbs s' t)" if tN: "t < NT" for t
  proof (cases "t < MAX_PROCESSOR_COUNT")
    case True
    then obtain a b where "tcbs s' t = init_idle_tcb a t b" using s'(6) by blast
    then show ?thesis by (simp add: tcb_ok_def init_idle_tcb_def THREAD_IDLE_THREAD_TIME_SLICE_def THREAD_DEFAULT_TIME_QUANTUM_def
        THREAD_INFINITE_TIME_QUANTUM_def)
  next
    case False
    then obtain a b where "tcbs s' t = init_pool_tcb a (t - MAX_PROCESSOR_COUNT) b" using blk [of t] tN by (auto simp: pool_tids_def)
    then show ?thesis using False by (simp add: tcb_ok_def init_pool_tcb_def THREAD_DEFAULT_TIME_SLICE_def THREAD_DEFAULT_TIME_QUANTUM_def
        THREAD_INFINITE_TIME_QUANTUM_def)
  qed
  moreover have "idle_ok c (tcbs s' c)" if "c < MAX_PROCESSOR_COUNT" for c
    using s'(6) [OF that] by (auto simp: idle_ok_def init_idle_tcb_def)
  ultimately have "base_ok s'"
    using k a e fr s'(2,4,5) al by (simp add: base_ok_def stacks_ok_def empty_ok_def)
  moreover have "lists_ok {} initial_lists s'"
  proof (rule lists_ok_I [OF s'(1)])
    show "tl_count (tls s' l) = of_nat (length (initial_lists l))" if "l \<in> list_ids" for l
      using 1(2) s'(2) that by (cases "l = Global_tcb") (auto simp: pool_upto_def initial_lists_def)
    have "(\<Union>l\<in>list_ids. set (initial_lists l)) = set (initial_lists Global_tcb)" by (auto simp: initial_lists_def split: if_splits)
    also have "\<dots> = pool_tids" by (simp add: initial_lists_def pool_tids_def add.commute)
    finally show "(\<Union>l\<in>list_ids. set (initial_lists l)) = pool_tids - {}" by simp
    show "listed_ok l (tcbs s' t)" if "t \<in> set (initial_lists l)" for l t
    proof -
      have "l = Global_tcb" "t \<in> pool_tids" using that in_pool by (auto simp: initial_lists_def split: if_splits)
      then show ?thesis using blk [of t] by (auto simp: init_pool_tcb_def)
    qed
  qed
  ultimately have "sys_ok initial_lists s'" using R s'(3) fr(3) by (auto simp: sys_ok_def)
  then show thesis using 1(1) al s'(3) fr(3) by (intro that [of s1]) (simp_all add: s'_def)
qed

lemma thread_init_ok:
  assumes k: "kernel_ok (km s)" and a: "10 \<le> ticks_in_10ms (apic s)"
    and al: "az_alloc (km s) (4096 * of_nat CONFIG_NUM_THREAD) = Some (r, k')" "r \<noteq> 0"
  obtains s' where "thread_init (sched_init s) = Some s'" "sys_ok initial_lists s'" "allocated s' = {}"
    "\<And>c. c < MAX_PROCESSOR_COUNT \<Longrightarrow> running_thread s' c = None"
proof -
  let ?L0 = "insert Migrating (Runnable ` {..<MAX_PROCESSOR_COUNT} \<union> Blocked ` {..<MAX_PROCESSOR_COUNT})"
  let ?s1 = "thread_list_init Global_tcb (sched_init s)"
  have e1: "empty_ok (insert Global_tcb ?L0) ?s1" using sched_init_ok(1) by (intro empty_ok_init) auto
  define s2 where "s2 = fold (\<lambda>i s. (thread_list_init (Local_tcb i) s)
                           \<lparr>g_running_thread_list := (g_running_thread_list s)(i := None)\<rparr>) [0..<MAX_PROCESSOR_COUNT] ?s1"
  have s2: "empty_ok (insert Global_tcb ?L0 \<union> Local_tcb ` {..<MAX_PROCESSOR_COUNT}) s2" "running_thread s2 = running_thread (sched_init s)"
    "km s2 = km s" "apic s2 = apic s"
    using local_init_fold [OF e1, of MAX_PROCESSOR_COUNT] sched_init_ok(3,4) by (auto simp: s2_def)
  have L: "insert Global_tcb ?L0 \<union> Local_tcb ` {..<MAX_PROCESSOR_COUNT} = list_ids" by (auto simp: list_ids_def)
  let ?s3 = "s2\<lparr>km := k', tcb_base_addr := r\<rparr>"
  have sz: "unat (4096 * of_nat CONFIG_NUM_THREAD :: qword) \<le> 2 ^ 30" by (simp add: CONFIG_NUM_THREAD_def)
  have "kernel_ok k'" using kmem.alloc_law [OF k sz] al(1) by auto
  moreover have "empty_ok list_ids ?s3" using s2(1) unfolding L by (simp add: empty_ok_def)
  ultimately obtain s4 where s4: "ofold pool_step [0..<CONFIG_NUM_THREAD] ?s3 = Some s4"
    "sys_ok initial_lists (fold idle_step [0..<MAX_PROCESSOR_COUNT] s4)" "allocated (fold idle_step [0..<MAX_PROCESSOR_COUNT] s4) = {}"
    "running_thread (fold idle_step [0..<MAX_PROCESSOR_COUNT] s4) = running_thread ?s3"
    using pool_initialised [of ?s3] a s2(2,4) sched_init_ok(2) by auto
  define s5 where "s5 = fold idle_step [0..<MAX_PROCESSOR_COUNT] s4"
  have "thread_init (sched_init s) = Some s5"
    using al s2(3) s4(1) by (simp add: thread_init_def s2_def [symmetric] Let_def s5_def)
  moreover have "sys_ok initial_lists s5" "allocated s5 = {}" "running_thread s5 = running_thread (sched_init s)"
    using s4(2-4) s2(2) by (simp_all add: s5_def)
  ultimately show thesis using sched_init_ok(2) by (intro that [of s5]) simp_all
qed

section \<open>Starting a core\<close>

lemma setup_idle_thread_ok:
  assumes S: "sys_ok LS s" and c: "c < MAX_PROCESSOR_COUNT"
  obtains s' where "setup_idle_thread c s = Some s'" "sys_ok LS s'" "running_thread s' = (running_thread s)(c := Some c)"
    "allocated s' = allocated s"
proof -
  let ?f = "\<lambda>b :: TCB. b\<lparr>refc := atomic_inc (refc b), remaining_time_slice := THREAD_IDLE_THREAD_TIME_SLICE,
    remaining_time_quantum := THREAD_IDLE_THREAD_TIME_SLICE, acc_ltc := 0, tstate := THREAD_STATE_RUNNING\<rparr>"
  let ?s1 = "upd_tcb c ?f s"
  note D = sys_okD [OF S]
  have S1: "sys_ok LS ?s1"
  proof (rule sys_upd [OF S, where f = ?f])
    show "c < NT" using c by simp
    show "tcb_ok c (?f (tcbs s c))" using base_okD(1) [OF D(2)] c by (simp add: tcb_ok_def)
    show "idle_ok c (?f (tcbs s c))" using base_okD(2) [OF D(2) c] by (simp add: idle_ok_def)
    show "tstate (?f (tcbs s c)) = THREAD_STATE_NOTALLOC \<longleftrightarrow> tstate (tcbs s c) = THREAD_STATE_NOTALLOC"
      using base_okD(2) [OF D(2) c] by (simp add: idle_ok_def)
    show "listed_ok l (?f (tcbs s c))" if "l \<in> list_ids" "c \<in> set (LS l)" for l
      using lists_okD(4) [OF D(1) that] c pool_NT(2) by auto
  qed simp_all
  let ?s2 = "?s1\<lparr>g_running_thread_list := (g_running_thread_list s)(c := Some c), running_thread := (running_thread s)(c := Some c)\<rparr>"
  let ?s3 = "start_oneshot c (remaining_time_slice (tcbs ?s2 c)) ?s2"
  have "setup_idle_thread c s = Some ?s3"
    by (simp add: setup_idle_thread_def alloc_tcb_idle_def init_tcb_def THREAD_INIT_CREATE_def THREAD_INIT_IDLE_def Let_def upd_tcb_def)
  moreover have "sys_ok LS ?s3"
    using S1 D(3) by (auto simp: sys_ok_def intro: lists_ok_same base_ok_same)
  moreover have "allocated ?s3 = allocated s" using c pool_NT(2) by (auto simp: allocated_def)
  ultimately show thesis by (intro that [of ?s3]) simp_all
qed

end
