(* ===== verification/SchedTrack.thy ===== *)
theory SchedTrack
  imports SchedInit
begin

text \<open>
  Following one thread through \<^verbatim>\<open>schedule\<close>: which steps leave its block alone, where it is after the
  selection and after the switch.
\<close>

section \<open>The lists of a state are unique\<close>

lemma chain_unique:
  assumes "chain H l xs" "chain H l ys" "(case xs of [] \<Rightarrow> Head l | x # _ \<Rightarrow> Item x) = (case ys of [] \<Rightarrow> Head l | y # _ \<Rightarrow> Item y)"
  shows "xs = ys"
  using assms
proof (induction xs arbitrary: ys)
  case Nil
  then show ?case by (cases ys) auto
next
  case (Cons x xs)
  then obtain zs where ys: "ys = x # zs" by (cases ys) auto
  show ?case using Cons.IH [of zs] Cons.prems(1,2) ys by simp
qed

lemma rep_unique:
  assumes "lists_rep L H LS" "lists_rep L H LS'" "l \<in> L"
  shows "LS l = LS' l"
proof (rule chain_unique)
  show "chain H l (LS l)" "chain H l (LS' l)" using rep_chain [OF assms(1,3), of "[]"] rep_chain [OF assms(2,3), of "[]"] by simp_all
  show "(case LS l of [] \<Rightarrow> Head l | x # _ \<Rightarrow> Item x) = (case LS' l of [] \<Rightarrow> Head l | y # _ \<Rightarrow> Item y)"
    using trans [OF rep_head [OF assms(1,3), symmetric] rep_head [OF assms(2,3)]] by (rule option.inject [THEN iffD1])
qed

lemma sys_unique:
  assumes "sys_ok LS s" "sys_ok LS' s'" "links s' = links s" "l \<in> list_ids"
  shows "LS' l = LS l"
  using rep_unique [of list_ids "links s" LS' LS l] lists_okD(1) [OF sys_okD(1) [OF assms(1)]] lists_okD(1) [OF sys_okD(1) [OF assms(2)]] assms(3,4)
  by simp

section \<open>Blocks left alone\<close>

lemma links_tcbs:
  "links_del_init t s = Some s' \<Longrightarrow> tcbs s' = tcbs s" "links_add_tail t l s = Some s' \<Longrightarrow> tcbs s' = tcbs s"
  by (auto simp: links_del_init_def links_add_tail_def bind_eq_Some_conv)

lemma init_tcb_frame: "init_tcb t stk ty s = Some s' \<Longrightarrow> u \<noteq> t \<Longrightarrow> tcbs s' u = tcbs s u"
  by (auto simp: init_tcb_def bind_eq_Some_conv Let_def split: if_splits prod.splits)

lemma destroy_tcb_frame:
  assumes "destroy_tcb c t s = Some s'" "u \<noteq> t"
  shows "tcbs s' u = tcbs s u"
  using assms init_tcb_frame [OF _ assms(2)]
  by (fastforce simp: destroy_tcb_def bind_eq_Some_conv list_lock_def gen_inc_def list_op_defs Let_def
      dest: links_tcbs split: if_splits prod.splits)

lemma put_tcb_frame: "put_tcb c t s = Some s' \<Longrightarrow> u \<noteq> t \<Longrightarrow> tcbs s' u = tcbs s u"
  by (auto simp: put_tcb_def Let_def dest!: destroy_tcb_frame split: if_splits prod.splits)

lemma refill_frame: "refill_time_slice t s = Some s' \<Longrightarrow> u \<noteq> t \<Longrightarrow> tcbs s' u = tcbs s u"
  by (auto simp: refill_time_slice_def Let_def split: if_splits)

lemma select_body_frame:
  assumes "select_body c cid t (found, s) = Some (b, found', s')" "u \<noteq> t" "u \<noteq> cid"
  shows "tcbs s' u = tcbs s u"
  using assms put_tcb_frame [OF _ assms(2)] refill_frame [OF _ assms(3)]
  by (fastforce simp: select_body_def bind_eq_Some_conv list_op_defs thread_exit_def Let_def
      dest: links_tcbs split: if_splits prod.splits)

lemma post_prev_frame:
  assumes "post_prev c t s = Some s'" "u \<noteq> t"
  shows "tcbs s' u = tcbs s u"
  using assms put_tcb_frame [OF _ assms(2)]
  by (fastforce simp: post_prev_def bind_eq_Some_conv list_op_defs thread_exit_def Let_def dest: links_tcbs split: if_splits)

section \<open>A thread that waits\<close>

text \<open>A blocked thread is in the blocked list of its core.\<close>

lemma blocked_where:
  assumes S: "sys_ok LS s" and t: "t \<in> pool_tids" "tstate (tcbs s t) = THREAD_STATE_BLOCKED" "running_core (tcbs s t) = of_nat c"
    and c: "c < MAX_PROCESSOR_COUNT"
  shows "t \<in> set (LS (Blocked c))"
proof -
  obtain l where l: "l \<in> list_ids" "t \<in> set (LS l)" using lists_okD(5) [OF sys_okD(1) [OF S]] t(1) by blast
  have k: "listed_ok l (tcbs s t)" by (rule lists_okD(3) [OF sys_okD(1) [OF S] l])
  then obtain d where d: "l = Blocked d" "d < MAX_PROCESSOR_COUNT" using t(2) l(1) by (cases l) auto
  then have "(of_nat d :: 16 word) = of_nat c" using k t(3) by simp
  then have "d = c" using unat_core [OF d(2)] unat_core [OF c] by metis
  then show ?thesis using l(2) d(1) by simp
qed

lemma tracks_waiting:
  assumes "tstate b = THREAD_STATE_BLOCKED" "t \<in> pool_tids" "c < MAX_PROCESSOR_COUNT"
  shows "tracks c me R (\<lambda>_ s. tcbs s t = b) (\<lambda>s. tcbs s t = b)"
proof -
  have "tcbs s' t = b"
    if "sel_inv c me R P LS pre (u # xs) found s" "tcbs s t = b" "select_body c c u (found, s) = Some (r, found', s')"
    for P LS pre u xs found s r found' s'
  proof -
    have "u \<in> set (LS (Runnable c))" using sel_invD(3) [OF that(1)] by simp
    then have "u \<noteq> t" using lists_okD(3) [OF sel_invD(1) [OF that(1)], of "Runnable c" u] assms(1,3) that(2) by auto
    moreover have "t \<noteq> c" using assms(2,3) pool_NT(2) by blast
    ultimately show ?thesis using select_body_frame [OF that(3), of t] that(2) by simp
  qed
  moreover have "tcbs s' t = b"
    if "tcbs s t = b" "tstate (tcbs s u) = THREAD_STATE_READY" "tcbs s' = (tcbs s)(u := (tcbs s u)\<lparr>remaining_time_slice := r\<rparr>)" for u s s' r
    using that assms(1) by auto
  ultimately show ?thesis unfolding tracks_def by (metis (no_types, lifting))
qed

lemma selected_not_blocked:
  assumes "selected c me R t s" "c < MAX_PROCESSOR_COUNT" "tstate (tcbs s u) = THREAD_STATE_BLOCKED" "u \<in> pool_tids"
  shows "t \<noteq> u"
proof -
  obtain LS where L: "lists_ok {} LS s" "t = c \<or> t \<in> set (LS (Runnable c))" by (rule selected_cases [OF assms(1,2)])
  then show ?thesis using lists_okD(3) [OF L(1), of "Runnable c" t] assms(2-4) pool_NT(2) by auto
qed

section \<open>A thread that blocks\<close>

definition blocking :: "nat \<Rightarrow> nat list \<Rightarrow> sched_state \<Rightarrow> bool" where
  "blocking t xs s \<longleftrightarrow> (\<exists>b. intention b = THREAD_INTENTION_BLOCKED OR THREAD_INTENTION_READY \<and>
     tcbs s t = (if t \<in> set xs then b else BLOCKED_mask b))"

definition maybe_blocked :: "nat \<Rightarrow> sched_state \<Rightarrow> bool" where
  "maybe_blocked t s \<longleftrightarrow> (\<exists>b. intention b = THREAD_INTENTION_BLOCKED OR THREAD_INTENTION_READY \<and>
     (tcbs s t = b \<or> tcbs s t = BLOCKED_mask b))"

lemma both_intentions:
  assumes "intention b = THREAD_INTENTION_BLOCKED OR THREAD_INTENTION_READY"
  shows "intention b AND THREAD_INTENTION_EXITED = 0" "intention b AND THREAD_INTENTION_BLOCKED \<noteq> 0"
    "intention b AND THREAD_INTENTION_READY \<noteq> 0" "intention (BLOCKED_mask b) = THREAD_INTENTION_READY"
    "intention (BLOCKED_mask b) AND THREAD_INTENTION_EXITED = 0"
  using assms by (simp_all add: THREAD_INTENTION_BLOCKED_def THREAD_INTENTION_READY_def THREAD_INTENTION_EXITED_def mask_defs)

lemma tracks_blocking:
  assumes t: "t \<in> pool_tids" and c: "c < MAX_PROCESSOR_COUNT"
  shows "tracks c t R (blocking t) (maybe_blocked t)"
proof -
  have tc: "t \<noteq> c" using t c pool_NT(2) by blast
  have step: "if r then maybe_blocked t s' else blocking t xs s'"
    if i: "sel_inv c t R P LS pre (u # xs) found s" and k: "blocking t (u # xs) s" and b: "select_body c c u (found, s) = Some (r, found', s')"
    for P LS pre u xs found s r found' s'
  proof (cases "u = t")
    case True
    then obtain b0 where b0: "intention b0 = THREAD_INTENTION_BLOCKED OR THREAD_INTENTION_READY" "tcbs s t = b0"
      using k by (auto simp: blocking_def)
    note B = both_intentions [OF b0(1)]
    have d: "t \<notin> set xs" using sel_inv_distinct [OF i c] True by simp
    obtain LS' s1 where s1: "select_body c c t (found, s) = Some (False, found, s1)"
      "tcbs s1 t = (tcbs s t)\<lparr>tstate := THREAD_STATE_BLOCKED, intention := intention (tcbs s t) AND NOT THREAD_INTENTION_BLOCKED\<rparr>"
      using sel_blocked [OF i [unfolded True] c] B(1,2) b0(2) by metis
    have "tcbs s1 t = BLOCKED_mask b0" using s1(2) b0(2) by (simp add: mask_defs)
    then show ?thesis using b s1(1) True d b0(1) by (auto simp: blocking_def)
  next
    case False
    then have "tcbs s' t = tcbs s t" using select_body_frame [OF b, of t] tc by simp
    then show ?thesis using k False by (auto simp: blocking_def maybe_blocked_def split: if_splits)
  qed
  have refill: "blocking t [] s'"
    if "blocking t [] s" "tstate (tcbs s u) = THREAD_STATE_READY" "tcbs s' = (tcbs s)(u := (tcbs s u)\<lparr>remaining_time_slice := r\<rparr>)" for u s s' r
  proof -
    have "u \<noteq> t" using that(1,2) by (auto simp: blocking_def mask_defs)
    then show ?thesis using that(1,3) by (simp add: blocking_def)
  qed
  have again: "blocking t (LS (Runnable c)) s" if o: "lists_ok {} LS s" and k: "blocking t [] s" for LS s
  proof -
    have "tstate (tcbs s t) = THREAD_STATE_BLOCKED" using k by (auto simp: blocking_def mask_defs)
    then have "t \<notin> set (LS (Runnable c))" using lists_okD(3) [OF o, of "Runnable c" t] c by auto
    then show ?thesis using k by (simp add: blocking_def)
  qed
  show ?thesis
    unfolding tracks_def using step refill again
    by (intro conjI allI impI) (blast, blast, blast, auto simp: blocking_def maybe_blocked_def)
qed

lemma selected_blocked:
  assumes sel: "selected c t R n s" and c: "c < MAX_PROCESSOR_COUNT" and t: "t \<in> pool_tids" and k: "maybe_blocked t s"
  obtains b where "intention b = THREAD_INTENTION_BLOCKED OR THREAD_INTENTION_READY" "tcbs s t = BLOCKED_mask b"
proof -
  obtain b where b: "intention b = THREAD_INTENTION_BLOCKED OR THREAD_INTENTION_READY" "tcbs s t = b \<or> tcbs s t = BLOCKED_mask b"
    using k by (auto simp: maybe_blocked_def)
  note B = both_intentions [OF b(1)]
  have nl: "\<not> sel_left c t R (Some c) s" using b(2) B(1,5) by (auto simp: sel_left_def)
  then obtain LS where d: "sel_done c t R False LS None s" using sel by (auto simp: selected_def)
  have "clean (tcbs s t)"
    using sel_invD(8) [OF d] sel_invD(4) [OF d] t c pool_NT(2) by (auto simp: curr_loc_def)
  then have "tcbs s t \<noteq> b" using B(2) by (auto simp: clean_iff)
  then show thesis using b that by blast
qed

end
