(* ===== verification/SchedProps.thy ===== *)
theory SchedProps
  imports SchedTrack
begin

text \<open>
  The properties of the threads and the scheduler.
\<close>

section \<open>The transition system\<close>

text \<open>
  What the cores do after the initialisation: a core starts its idle thread, the running thread of a
  core calls \<^verbatim>\<open>schedule\<close> (the idle thread only to yield), exits or creates a thread, and any thread
  suspends or wakes a thread.
\<close>

inductive sched_step :: "sched_state \<Rightarrow> sched_state \<Rightarrow> bool" where
  start: "c < MAX_PROCESSOR_COUNT \<Longrightarrow> running_thread s c = None \<Longrightarrow> setup_idle_thread c s = Some s' \<Longrightarrow> sched_step s s'"
| switch: "c < MAX_PROCESSOR_COUNT \<Longrightarrow> running_thread s c = Some t \<Longrightarrow> may_intend c t intent \<Longrightarrow>
    schedule c intent s = Some (r, s') \<Longrightarrow> sched_step s s'"
| suspend: "c < MAX_PROCESSOR_COUNT \<Longrightarrow> t \<in> allocated s \<Longrightarrow> thread_suspend c (int t) s = Some (r, s') \<Longrightarrow> sched_step s s'"
| wake: "c < MAX_PROCESSOR_COUNT \<Longrightarrow> t \<in> allocated s \<Longrightarrow> thread_wake_up c (int t) s = Some (r, s') \<Longrightarrow> sched_step s s'"
| exit: "c < MAX_PROCESSOR_COUNT \<Longrightarrow> running_thread s c = Some t \<Longrightarrow> t \<noteq> c \<Longrightarrow> thread_exit_current c s = Some (r, s') \<Longrightarrow>
    sched_step s s'"
| create: "c < MAX_PROCESSOR_COUNT \<Longrightarrow> - 1 \<le> cmask \<Longrightarrow> create_thread c ip argv cmask s = Some (r, s') \<Longrightarrow> sched_step s s'"

lemma create_needs_block:
  assumes S: "sys_ok LS s" and c: "c < MAX_PROCESSOR_COUNT" and e: "LS (Local_tcb c) = []" "LS Global_tcb = []"
  shows "create_thread c ip argv cmask s = None"
proof -
  have "tl_count (tls s (Local_tcb c)) = 0" using count_zero_iff [OF sys_okD(1) [OF S], of "Local_tcb c"] c e(1) by simp
  moreover have "dl_list_empty (Head Global_tcb) (links s)" using rep_empty [OF lists_okD(1) [OF sys_okD(1) [OF S]], of Global_tcb] e(2) by simp
  ultimately have "alloc_tcb c s = None"
    by (simp add: alloc_tcb_def list_lock_def global_lock_free [OF sys_okD(2) [OF S]])
  then show ?thesis by (simp add: create_thread_def)
qed

lemma sched_step_ok:
  assumes "sched_step s s'" "sys_ok LS s"
  shows "\<exists>LS'. sys_ok LS' s'"
  using assms
proof (induction rule: sched_step.induct)
  case (start c s s')
  then show ?case using setup_idle_thread_ok [OF start(4,1)] by (metis option.inject)
next
  case (switch c s t intent r s')
  then show ?case using schedule_ok [OF switch(5,1,2,3)] by (metis option.inject prod.inject)
next
  case (suspend c t s r s')
  then show ?case using thread_suspend_eq [OF suspend(4,2)] or_intention_ok [OF suspend(4,2)] by auto
next
  case (wake c t s r s')
  then show ?case using thread_wake_up_eq [OF wake(4,2)] or_intention_ok [OF wake(4,2)] by auto
next
  case (exit c s t r s')
  then show ?case using thread_exit_current_ok [OF exit(5,1,2,3)] by (metis option.inject prod.inject)
next
  case (create c cmask ip argv s r s')
  then have "LS (Local_tcb c) \<noteq> [] \<or> LS Global_tcb \<noteq> []" using create_needs_block [OF create(4,1)] by fastforce
  then show ?case using create_thread_ok [OF create(4,1,2), of ip argv] create(3) by (metis option.inject prod.inject)
qed

lemma sched_steps_ok:
  assumes "sched_step\<^sup>*\<^sup>* s s'" "sys_ok LS s"
  shows "\<exists>LS'. sys_ok LS' s'"
  using assms by (induction rule: rtranclp_induct) (auto dest: sched_step_ok)

lemma thread_init_Some:
  assumes "kernel_ok (km s)" "10 \<le> ticks_in_10ms (apic s)" "thread_init (sched_init s) = Some s1"
  shows "sys_ok initial_lists s1" "allocated s1 = {}" "c < MAX_PROCESSOR_COUNT \<Longrightarrow> running_thread s1 c = None"
proof -
  have sz: "unat (4096 * of_nat CONFIG_NUM_THREAD :: qword) \<le> 2 ^ 30" by (simp add: CONFIG_NUM_THREAD_def)
  obtain r k' where al: "az_alloc (km s) (4096 * of_nat CONFIG_NUM_THREAD) = Some (r, k')"
    using kmem.alloc_law [OF assms(1) sz] by blast
  have km: "km (fold (\<lambda>i s. (thread_list_init (Local_tcb i) s)\<lparr>g_running_thread_list := (g_running_thread_list s)(i := None)\<rparr>)
      [0..<MAX_PROCESSOR_COUNT] (thread_list_init Global_tcb (sched_init s))) = km s"
    using local_init_fold [OF empty_ok_init [OF sched_init_ok(1), of Global_tcb], of MAX_PROCESSOR_COUNT s] sched_init_ok(3) by auto
  have "r \<noteq> 0"
  proof
    assume "r = 0"
    then have "thread_init (sched_init s) = None" using al km by (simp add: thread_init_def Let_def)
    then show False using assms(3) by simp
  qed
  from thread_init_ok [OF assms(1,2) al this]
  obtain s' where "thread_init (sched_init s) = Some s'" "sys_ok initial_lists s'" "allocated s' = {}"
    "\<And>c. c < MAX_PROCESSOR_COUNT \<Longrightarrow> running_thread s' c = None" by blast
  then show "sys_ok initial_lists s1" "allocated s1 = {}" "c < MAX_PROCESSOR_COUNT \<Longrightarrow> running_thread s1 c = None"
    using assms(3) by simp_all
qed

lemma on_one_core:
  assumes S: "sys_ok LS s" and "c < MAX_PROCESSOR_COUNT" "d < MAX_PROCESSOR_COUNT" "running_thread s c = Some t" "running_thread s d = Some t"
  shows "c = d"
  using running_on(1) [OF S assms(4,2)] running_on(1) [OF S assms(5,3)] by simp

lemma exactly_one_list:
  assumes "sys_ok LS s" "t \<in> pool_tids"
  shows "\<exists>!l. l \<in> list_ids \<and> t \<in> set (LS l)"
  using lists_okD(5) [OF sys_okD(1) [OF assms(1)]] one_list [OF sys_okD(1) [OF assms(1)]] assms(2) by blast

section \<open>A concrete machine for the witnesses\<close>

definition machine_mem :: mem_state where
  "machine_mem = free_mem_init 0x100000000 0x160000000 blank_mem"

definition machine :: sched_state where
  "machine =
     \<lparr>tcbs = (\<lambda>_. \<lparr>stack = 0, user_stack = 0, stack_base = 0, tcb_id = 0, gen = 0, tcb_flags = 0, running_core = 0,
        tstate = THREAD_STATE_NOTALLOC, intention = 0, tname = 0, signal_flag = 0, signal_handler = 0, time_slice = 0,
        remaining_time_slice = 0, time_quantum = 0, remaining_time_quantum = 0, acc_ltc = 0, core_mask = (\<lambda>_. 0),
        sched_list = None, refc = 0, resume = From_setup\<rparr>),
      links = (\<lambda>_. \<lparr>dl_next = None, dl_prev = None\<rparr>), tls = (\<lambda>_. \<lparr>tl_lock = \<lparr>lock = 0\<rparr>, tl_count = 0\<rparr>),
      running_thread = (\<lambda>_. None), g_running_thread_list = (\<lambda>_. None), g_exit_thread_cnt = 0, g_thread_cnt = 0, tdcnt = 0, trcnt = 0,
      tcb_base_addr = 0, elf_load_entry = 0x8000, sym_thread_exit = 0x1000, sym_return_from_setup = 0x2000, g_memory_start = 0x100000000,
      km = machine_mem, ss = (\<lambda>_. 0), apic = \<lparr>ticks_in_10ms = 1000000, ticks_in_1ms = 100000\<rparr>, msr = (\<lambda>_ _. 0),
      sig_links = (\<lambda>_. \<lparr>dl_next = None, dl_prev = None\<rparr>), sig_tls = (\<lambda>_. \<lparr>tl_lock = \<lparr>lock = 0\<rparr>, tl_count = 0\<rparr>),
      sigs = (\<lambda>_. \<lparr>sig_dest = 0, signum = 0\<rparr>), delivered = []\<rparr>"

lemma machine_region: "region_pages 0x100000000 0x160000000 = 131072" "region_ok 0x100000000 0x160000000"
proof -
  show r: "region_pages 0x100000000 0x160000000 = 131072" by (simp add: region_pages_def)
  show "region_ok 0x100000000 0x160000000" by (simp add: region_ok_def r meta_pages_small)
qed

lemma machine_ok: "kernel_ok (km machine)" "10 \<le> ticks_in_10ms (apic machine)"
  using free_mem_init_ok(1) [OF machine_region(2), where s = blank_mem] blank_stat_ok
  by (simp_all add: kernel_ok_def machine_def machine_mem_def blank_mem_def)

lemma machine_free_pages: "free_pages (g_free_memory machine_mem) = {..<130560}"
  using free_mem_init_ok(5) [OF machine_region(2), where s = blank_mem] free_mem_init_ok(2) [OF machine_region(2), where s = blank_mem]
  by (simp add: free_pages_def alloc_pages_def pool_def machine_mem_def machine_region(1) meta_pages_small)

lemma machine_alloc: "\<exists>r k. az_alloc (km machine) (4096 * of_nat CONFIG_NUM_THREAD) = Some (r, k) \<and> r \<noteq> 0"
proof -
  let ?sz = "4096 * of_nat CONFIG_NUM_THREAD :: qword"
  have ok: "mm_ok (g_free_memory machine_mem)" "stat_ok (stat machine_mem)" using machine_ok(1) by (simp_all add: kernel_ok_def machine_def)
  have sz: "unat ?sz \<le> 2 ^ 30" and u: "unat ?sz = 134213632" by (simp_all add: CONFIG_NUM_THREAD_def)
  have "level_for ?sz = 15" unfolding level_for_def u by (simp add: upt_rec)
  then have j: "pages (level_for ?sz, 0) \<subseteq> free_pages (g_free_memory machine_mem)" by (simp add: machine_free_pages pages_subset_iff)
  obtain k s' where A: "az_alloc machine_mem ?sz = Some (addr_of (g_free_memory machine_mem) (level_for ?sz, k), s')"
    "pages (level_for ?sz, k) \<subseteq> free_pages (g_free_memory machine_mem)"
    by (rule az_alloc_succeeds [OF ok sz j]; rule that; assumption)
  show ?thesis using A addr_of_nonzero [OF ok(1) pages_free_range [OF A(2)]] by (simp add: machine_def)
qed

lemma machine_boots: "\<exists>s. thread_init (sched_init machine) = Some s"
  using machine_alloc thread_init_ok [OF machine_ok] by metis

text \<open>Core 0 runs a thread: the idle thread starts, creates a thread and yields to it.\<close>

lemma machine_idle:
  obtains s0 s LS where "thread_init (sched_init machine) = Some s0" "setup_idle_thread 0 s0 = Some s" "sys_ok LS s"
    "running_thread s 0 = Some 0" "sched_step s0 s" "LS = initial_lists" "allocated s = {}"
proof -
  obtain s0 where s0: "thread_init (sched_init machine) = Some s0" using machine_boots by blast
  note I = thread_init_Some [OF machine_ok s0]
  have c: "0 < MAX_PROCESSOR_COUNT" by (simp add: MAX_PROCESSOR_COUNT_def)
  obtain s where s: "setup_idle_thread 0 s0 = Some s" "sys_ok initial_lists s" "running_thread s = (running_thread s0)(0 := Some 0)"
    "allocated s = allocated s0"
    by (rule setup_idle_thread_ok [OF I(1) c])
  show thesis using s0 s I(2) c I(3) by (intro that [of s0 s initial_lists]) (auto intro: sched_step.start)
qed

text \<open>A fresh thread on core 0: created and pulled from the migrating list.\<close>

definition fresh_block :: "TCB \<Rightarrow> bool" where
  "fresh_block b \<longleftrightarrow> tstate b = THREAD_STATE_READY \<and> intention b = 0 \<and> 0 < remaining_time_slice b \<and> core_mask b 0 = 0 \<and>
     running_core b = 0"

lemma unlocked_idem: "lock (tl_lock (tls s Migrating)) = 0 \<Longrightarrow> unlocked s = s"
  by (simp add: list_unlock_def upd_list_def spinlock_unlock_def fun_upd_idem)

lemma add_runnable:
  assumes S: "sys_ok LS s" and e: "LS (Local_tcb 0) = []" "LS Global_tcb \<noteq> []"
  obtains t s' where
    "sys_ok (LS(Global_tcb := tl (LS Global_tcb), Migrating := LS Migrating, Runnable 0 := LS (Runnable 0) @ [t])) s'"
    "running_thread s' = running_thread s" "t \<in> pool_tids" "t \<notin> allocated s" "allocated s' = insert t (allocated s)"
    "\<And>u. u \<noteq> t \<Longrightarrow> tcbs s' u = tcbs s u" "fresh_block (tcbs s' t)"
proof -
  have c: "0 < MAX_PROCESSOR_COUNT" by (simp add: MAX_PROCESSOR_COUNT_def)
  obtain t s1 LS1 where 1: "create_thread 0 0x8000 0 (- 1) s = Some (int t, s1)" "sys_ok LS1 s1"
    "running_thread s1 = running_thread s" "t \<in> pool_tids" "t \<notin> allocated s" "allocated s1 = insert t (allocated s)"
    "\<And>u. u \<noteq> t \<Longrightarrow> tcbs s1 u = tcbs s u"
    "tstate (tcbs s1 t) = THREAD_STATE_READY" "intention (tcbs s1 t) = 0" "remaining_time_slice (tcbs s1 t) = THREAD_DEFAULT_TIME_SLICE"
    "core_mask (tcbs s1 t) 0 = 0" "LS1 = LS(Global_tcb := tl (LS Global_tcb), Migrating := LS Migrating @ [t])"
    by (rule create_thread_ok [OF S c, where cmask = "- 1" and ip = "0x8000" and argv = 0]) (use e that in \<open>auto\<close>)
  have u1: "sys_ok LS1 (unlocked s1)" using 1(2) unlocked_idem base_okD(7) [OF sys_okD(2) [OF 1(2)]] by simp
  have t: "t \<in> set (LS1 Migrating)" using 1(12) by simp
  obtain s2 where 2: "adopt 0 0 t s1 = Some s2" "running_thread s2 = running_thread s1" "\<And>u. u \<noteq> t \<Longrightarrow> tcbs s2 u = tcbs s1 u"
    "sys_ok (LS1(Migrating := remove1 t (LS1 Migrating), Runnable 0 := LS1 (Runnable 0) @ [t])) (unlocked s2)"
    by (rule adopt_ok [OF u1 t c]) (rule that)
  have "t \<notin> set (LS Migrating)"
    using listed_allocated(1) [OF sys_okD(1) [OF S], of Migrating t] 1(5) by auto
  then have L: "LS1(Migrating := remove1 t (LS1 Migrating), Runnable 0 := LS1 (Runnable 0) @ [t]) =
      LS(Global_tcb := tl (LS Global_tcb), Migrating := LS Migrating, Runnable 0 := LS (Runnable 0) @ [t])"
    using 1(12) by (simp add: remove1_append fun_eq_iff)
  have b: "tcbs s2 t = (tcbs s1 t)\<lparr>running_core := 0\<rparr>"
    using 2(1) by (auto simp: adopt_def bind_eq_Some_conv list_op_defs dest!: links_tcbs)
  have "tstate (tcbs s2 u) = tstate (tcbs s1 u)" for u using 2(3) b by (cases "u = t") simp_all
  then have "allocated (unlocked s2) = allocated s1" by (simp add: allocated_def)
  then show thesis
    using 1 2 L b by (intro that [of t "unlocked s2"]) (simp_all add: fresh_block_def THREAD_DEFAULT_TIME_SLICE_def)
qed

lemma run_on_core_0:
  assumes "sys_ok LS s" "t \<in> set (LS (Runnable 0))"
  shows "sys_ok LS (s\<lparr>running_thread := (running_thread s)(0 := Some t)\<rparr>)"
  using assms unfolding sys_ok_def by (auto intro: lists_ok_same base_ok_same)

section \<open>Properties\<close>





section \<open>What the selection chooses\<close>

text \<open>
  The choice as a specification: the first thread of the runnable list that is ready and has time
  left, else the first that is ready (after all ready threads got a new time slice), else the only
  thread of the list, else the idle thread.
\<close>

definition pick :: "nat \<Rightarrow> TCB carray \<Rightarrow> nat list \<Rightarrow> nat" where
  "pick c B xs = (case find (\<lambda>t. available_next (B t)) xs of
       Some t \<Rightarrow> t
     | None \<Rightarrow> (case find (\<lambda>t. tstate (B t) = THREAD_STATE_READY) xs of
           Some t \<Rightarrow> t
         | None \<Rightarrow> if length xs = 1 then hd xs else c))"

lemma find_append: "find P (xs @ ys) = (case find P xs of None \<Rightarrow> find P ys | Some x \<Rightarrow> Some x)"
  by (induction xs) auto

definition marked :: "nat \<Rightarrow> nat option \<Rightarrow> sched_state \<Rightarrow> sched_state" where
  "marked c found s = (case found of None \<Rightarrow> s
     | Some t \<Rightarrow> (upd_tcb t (\<lambda>b. b\<lparr>tstate := THREAD_STATE_RUNNING\<rparr>) s)\<lparr>g_running_thread_list := (g_running_thread_list s)(c := Some t)\<rparr>)"

lemma marked_fields [simp]: "links (marked c f s) = links s" "tls (marked c f s) = tls s"
  by (auto simp: marked_def split: option.splits)

definition settled :: "nat \<Rightarrow> sched_state \<Rightarrow> nat list \<Rightarrow> bool" where
  "settled c s xs \<longleftrightarrow> (\<forall>t\<in>set xs. clean (tcbs s t) \<and> core_is_allowed (tcbs s t) c)"

lemma settled_body:
  assumes s: "settled c s (pre @ t # xs)" and d: "distinct (pre @ t # xs)" and f: "found = find (\<lambda>t. available_next (tcbs s t)) pre"
  shows "select_body c c t (found, marked c found s) =
    Some (False, find (\<lambda>t. available_next (tcbs s t)) (pre @ [t]), marked c (find (\<lambda>t. available_next (tcbs s t)) (pre @ [t])) s)"
proof -
  have "u \<noteq> t" if "found = Some u" for u
    using that d f by (auto simp: find_Some_iff in_set_conv_nth)
  then have b: "tcbs (marked c found s) t = tcbs s t" by (auto simp: marked_def split: option.splits)
  have "clean (tcbs s t)" "core_is_allowed (tcbs s t) c" using s by (auto simp: settled_def)
  then show ?thesis
    using b f by (cases found) (auto simp: select_body_def clean_iff find_append marked_def)
qed

lemma settled_scan:
  assumes o: "lists_ok {} LS s" and c: "c < MAX_PROCESSOR_COUNT" and s: "settled c s (LS (Runnable c))"
  defines "f \<equiv> find (\<lambda>t. available_next (tcbs s t)) (LS (Runnable c))"
  shows "dl_list_for_each_safe (\<lambda>fs. links (snd fs)) (select_body c c) (Runnable c) (None, s) = Some (False, f, marked c f s)"
proof -
  let ?P = "\<lambda>t. available_next (tcbs s t)"
  let ?Inv = "\<lambda>xs fs. \<exists>pre. LS (Runnable c) = pre @ xs \<and> fs = (find ?P pre, marked c (find ?P pre) s)"
  have l: "Runnable c \<in> list_ids" using c by simp
  have d: "distinct (LS (Runnable c))" using lists_repD(2) [OF lists_okD(1) [OF o] l] .
  have "\<exists>b fs. dl_list_for_each_safe (\<lambda>fs. links (snd fs)) (select_body c c) (Runnable c) (None, s) = Some (b, fs) \<and>
      (b = False \<and> fs = (f, marked c f s))"
  proof (rule for_each_safe_rule [where Inv = ?Inv and LS = LS and L = list_ids and Q = "\<lambda>b fs. b = False \<and> fs = (f, marked c f s)"])
    show "?Inv (LS (Runnable c)) (None, s)" by (rule exI [of _ "[]"]) (simp add: marked_def)
    show "lists_rep list_ids (links (snd (None, s))) LS" using lists_okD(1) [OF o] by simp
    show "\<exists>b fs1. select_body c c t fs = Some (b, fs1) \<and>
        (if b then True = False \<and> fs1 = (f, marked c f s) else ?Inv xs fs1 \<and> chain (links (snd fs1)) (Runnable c) xs)"
      if inv: "?Inv (t # xs) fs" for t xs fs
    proof -
      obtain pre where p: "LS (Runnable c) = pre @ t # xs" "fs = (find ?P pre, marked c (find ?P pre) s)" using inv by blast
      have "LS (Runnable c) = (pre @ [t]) @ xs" using p by simp
      then show ?thesis
        using settled_body [of c s pre t xs] s d p rep_chain [OF lists_okD(1) [OF o] l, of "pre @ [t]" xs] by auto
    qed
    show "False = False \<and> fs = (f, marked c f s)" if "?Inv [] fs" for fs using that by (auto simp: f_def)
  qed (rule l)
  then show ?thesis by auto
qed

lemma find_cong_set: "(\<And>x. x \<in> set xs \<Longrightarrow> P x = Q x) \<Longrightarrow> find P xs = find Q xs"
  by (induction xs) auto

lemma select_picks:
  assumes S: "sys_ok LS s" and c: "c < MAX_PROCESSOR_COUNT" and me: "running_thread s c = Some me" and st: "settled c s (LS (Runnable c))"
  shows "\<exists>s'. select_next_thread c s = Some (pick c (tcbs s) (LS (Runnable c)), s')"
proof -
  let ?xs = "LS (Runnable c)" and ?A = "\<lambda>s t. available_next (tcbs s t)" and ?R = "\<lambda>t. tstate (tcbs s t) = THREAD_STATE_READY"
  note D = sys_okD [OF S]
  have l: "Runnable c \<in> list_ids" using c by simp
  have sel: "select_next_thread c s = select_retry c c s"
    using running_on(1) [OF S me c] me by (simp add: select_next_thread_def get_current_def)
  have done1: "select_retry c c s1 = Some (t, marked c (Some t) s1)"
    if "lists_ok {} LS s1" "settled c s1 ?xs" "find (?A s1) ?xs = Some t" for s1 t
    using settled_scan [OF that(1) c that(2)] that(3) by (subst select_retry.simps) simp
  show ?thesis
  proof (cases "find (?A s) ?xs")
    case (Some t)
    then show ?thesis using done1 [OF D(1) st Some] sel by (auto simp: pick_def)
  next
    case none: None
    have dn: "sel_done c me (running_thread s) False LS None s"
      using D(1,2) D(3) [OF c me] sys_others_run [OF S] me st by (auto simp: sel_inv_def curr_loc_def settled_def)
    let ?K = "\<lambda>s'. \<forall>u. \<exists>r. tcbs s' u = (tcbs s u)\<lparr>remaining_time_slice := r\<rparr>"
    have K0: "?K s"
    proof
      show "\<exists>r. tcbs s u = (tcbs s u)\<lparr>remaining_time_slice := r\<rparr>" for u by (rule exI [of _ "remaining_time_slice (tcbs s u)"]) simp
    qed
    obtain r s1 where r: "dl_list_for_each (\<lambda>rs. links (snd rs)) refill_body (Runnable c) (False, s) = Some (r, s1)"
      "\<not> r \<Longrightarrow> s1 = s" "r \<Longrightarrow> sel_start c me (running_thread s) True LS s1" "?K s1" "slices_left ?xs s1" "r \<Longrightarrow> \<exists>u\<in>set ?xs. ?R u"
    proof (rule refill_scan [where K = ?K, OF dn c K0])
      show "?K s'" if k: "?K s1" "tcbs s' = (tcbs s1)(t := (tcbs s1 t)\<lparr>remaining_time_slice := q\<rparr>)" for t s1 s' q
      proof
        fix v
        obtain a where "tcbs s1 v = (tcbs s v)\<lparr>remaining_time_slice := a\<rparr>" using k(1) by blast
        then have "tcbs s' v = (tcbs s v)\<lparr>remaining_time_slice := if v = t then q else a\<rparr>" by (cases "v = t") (simp_all add: k(2))
        then show "\<exists>r. tcbs s' v = (tcbs s v)\<lparr>remaining_time_slice := r\<rparr>" by blast
      qed
    qed (rule that)
    have u: "select_retry c c s = (if r then select_retry c c s1
        else if tl_count (tls s1 (Runnable c)) = 1 then do { t \<leftarrow> entry (dl_list_first (Head (Runnable c)) (links s1)); Some (t, s1) }
        else Some (c, s1))"
      using settled_scan [OF D(1) c st] none r(1) by (subst select_retry.simps) (simp add: marked_def)
    show ?thesis
    proof (cases r)
      case True
      have b: "tstate (tcbs s1 v) = tstate (tcbs s v)" "clean (tcbs s1 v) = clean (tcbs s v)"
        "core_is_allowed (tcbs s1 v) c = core_is_allowed (tcbs s v) c" for v
        using r(4) [rule_format, of v] by (auto simp: clean_def core_is_allowed_def)
      have "find (?A s1) ?xs = find ?R ?xs"
        by (rule find_cong_set) (use r(5) b(1) in \<open>auto simp: available_next_def slices_left_def\<close>)
      moreover obtain t where t: "find ?R ?xs = Some t" using r(6) [OF True] by (cases "find ?R ?xs") (auto simp: find_None_iff)
      ultimately have "select_retry c c s1 = Some (t, marked c (Some t) s1)"
        using st b sel_invD(1) [OF r(3) [OF True]] by (intro done1) (auto simp: settled_def)
      then show ?thesis using u True sel none t by (auto simp: pick_def)
    next
      case False
      have "\<not> ?R v" if "v \<in> set ?xs" for v
        using r(5) r(2) [OF False] none that by (auto simp: slices_left_def find_None_iff available_next_def)
      then have nr: "find ?R ?xs = None" by (auto simp: find_None_iff)
      have cnt: "tl_count (tls s (Runnable c)) = 1 \<longleftrightarrow> length ?xs = 1"
      proof -
        have "unat (tl_count (tls s (Runnable c))) = length ?xs"
          using length_list_le [OF D(1) l] lists_okD(2) [OF D(1) l] by (simp add: unat_of_nat take_bit_nat_eq_self CONFIG_NUM_THREAD_def)
        then show ?thesis by (metis One_nat_def unsigned_1 word_unat_eq_iff)
      qed
      show ?thesis
        using u False sel none nr r(2) [OF False] cnt rep_first [OF lists_okD(1) [OF D(1)] l]
        by (auto simp: pick_def entry_def length_Suc_conv split: list.splits)
    qed
  qed
qed

lemma machine_two:
  obtains u t s LS where "sys_ok LS s" "running_thread s 0 = Some 0" "LS (Runnable 0) = [u, t]" "u \<noteq> t"
    "fresh_block (tcbs s u)" "fresh_block (tcbs s t)"
proof -
  obtain s0 s LS where s: "sys_ok LS s" "running_thread s 0 = Some 0" "LS = initial_lists" "allocated s = {}"
    by (rule machine_idle)
  have n: "1 < CONFIG_NUM_THREAD" by (simp add: CONFIG_NUM_THREAD_def)
  have "1 < length (LS Global_tcb)" using s(3) n by (simp add: initial_lists_def)
  then have "LS Global_tcb \<noteq> [] \<and> tl (LS Global_tcb) \<noteq> []" by (cases "LS Global_tcb") auto
  then have g: "LS (Local_tcb 0) = []" "LS Global_tcb \<noteq> []" "tl (LS Global_tcb) \<noteq> []" "LS (Runnable 0) = []"
    using s(3) by (simp_all add: initial_lists_def)
  obtain u s1 where 1: "sys_ok (LS(Global_tcb := tl (LS Global_tcb), Migrating := LS Migrating, Runnable 0 := LS (Runnable 0) @ [u])) s1"
    "running_thread s1 = running_thread s" "allocated s1 = insert u (allocated s)" "fresh_block (tcbs s1 u)"
    by (rule add_runnable [OF s(1) g(1,2)])
  let ?LS1 = "LS(Global_tcb := tl (LS Global_tcb), Migrating := LS Migrating, Runnable 0 := LS (Runnable 0) @ [u])"
  have g1: "?LS1 (Local_tcb 0) = []" "?LS1 Global_tcb \<noteq> []" "?LS1 (Runnable 0) = [u]" using g by simp_all
  obtain t s2 where 2: "sys_ok (?LS1(Global_tcb := tl (?LS1 Global_tcb), Migrating := ?LS1 Migrating, Runnable 0 := ?LS1 (Runnable 0) @ [t])) s2"
    "running_thread s2 = running_thread s1" "t \<notin> allocated s1" "\<And>v. v \<noteq> t \<Longrightarrow> tcbs s2 v = tcbs s1 v" "fresh_block (tcbs s2 t)"
    by (rule add_runnable [OF 1(1) g1(1,2)]) (rule that)
  have "u \<noteq> t" using 1(3) 2(3) by auto
  then show thesis using 1(2,4) 2 g1(3) s(2) by (intro that [OF 2(1), of u t]) auto
qed



lemma READY_mask_state: "tstate (READY_mask b) = THREAD_STATE_READY"
  by (simp add: READY_mask_def)

lemma READY_mask_intention: "intention (READY_mask b) AND (THREAD_INTENTION_READY OR THREAD_INTENTION_BLOCKED) = 0"
proof -
  have e: "intention (READY_mask b) = intention b AND NOT (THREAD_INTENTION_READY OR THREAD_INTENTION_BLOCKED)"
    by (simp add: READY_mask_def atomic_set_def)
  have "(a AND NOT m) AND m = 0" for a m :: dword by (simp add: and.assoc)
  then show ?thesis unfolding e .
qed

text \<open>C19. A woken thread becomes runnable. When a blocked thread has been woken (its \<^verbatim>\<open>READY\<close> intention is
  set, it is not to exit), the next call of \<^verbatim>\<open>schedule\<close> on its core, whoever makes it and whatever
  thread runs next, moves it to the runnable list, ready and with the request consumed.\<close>

theorem woken_thread_runnable:
  assumes "sys_ok LS s" "c < MAX_PROCESSOR_COUNT" "running_thread s c = Some me" "may_intend c me intent"
    and "t \<in> set (LS (Blocked c))" "tstate (tcbs s t) = THREAD_STATE_BLOCKED"
    and "intention (tcbs s t) AND THREAD_INTENTION_READY \<noteq> 0" "intention (tcbs s t) AND THREAD_INTENTION_EXITED = 0"
  shows "\<exists>r s' LS'. schedule c intent s = Some (r, s') \<and> sys_ok LS' s' \<and> t \<in> set (LS' (Runnable c)) \<and>
    tstate (tcbs s' t) = THREAD_STATE_READY \<and> intention (tcbs s' t) AND (THREAD_INTENTION_READY OR THREAD_INTENTION_BLOCKED) = 0"
proof -
  note S = assms(1) and c = assms(2)
  have lb: "Blocked c \<in> list_ids" using c by simp
  have t: "t \<in> pool_tids" "running_core (tcbs s t) = of_nat c"
    using lists_okD(3,4) [OF sys_okD(1) [OF S] lb assms(5)] by auto
  have tm: "t \<noteq> me" by (rule not_running [OF S c assms(3) lb _ assms(5)]) simp
  have K: "tcbs s1 t = tcbs s t" if "tcbs s1 = (tcbs s)(me := b)" for s1 b using that tm by simp
  obtain r n s2 LS4 s4 s5 LS' s' where 1: "schedule c intent s = Some (r, s')" "sys_ok LS' s'"
    "running_thread s' = (running_thread s)(c := Some n)" "tcbs s2 t = tcbs s t" "sched_phases c me n LS4 s2 s4 s5 s'" "sys_ok LS' s5"
    by (rule schedule_tracked [where K = "\<lambda>_ s'. tcbs s' t = tcbs s t" and K' = "\<lambda>s'. tcbs s' t = tcbs s t",
          OF S c assms(3,4) K tracks_waiting [OF assms(6) t(1) c]])
  have P: "selected c me (running_thread s2) n s2" "sys_ok LS4 s4" "running_thread s4 c = Some n" "prev_loc c me LS4 s4"
    "\<And>u. u \<noteq> n \<Longrightarrow> u \<noteq> me \<Longrightarrow> tcbs s4 u = tcbs s2 u" "post_context_switch c me s4 = Some s5" "\<And>u. u \<noteq> me \<Longrightarrow> tcbs s' u = tcbs s5 u"
    using 1(5) by (auto simp: sched_phases_def)
  have "n \<noteq> t" using selected_not_blocked [OF P(1) c _ t(1)] 1(4) assms(6) by simp
  then have t4: "tcbs s4 t = tcbs s t" using P(5) tm 1(4) by metis
  obtain LS6 s6 LS5 where 2: "post_prev c me s4 = Some s6" "sys_ok LS6 s6" "sys_ok LS5 s5"
    "\<And>t. t \<in> set (LS6 (Blocked c)) \<Longrightarrow> to_wake (tcbs s6 t) \<Longrightarrow> t \<in> set (LS5 (Runnable c)) \<and> tcbs s5 t = READY_mask (tcbs s6 t)"
    by (rule post_context_switch_ok [OF P(2) c P(3,4)]) (use P(6) that in auto)
  have t6: "tcbs s6 t = tcbs s t" using post_prev_frame [OF 2(1) tm] t4 by simp
  have "t \<in> set (LS6 (Blocked c))" using t6 assms(6) t c by (intro blocked_where [OF 2(2)]) simp_all
  then have t5: "t \<in> set (LS5 (Runnable c))" "tcbs s5 t = READY_mask (tcbs s t)"
    using 2(4) [of t] t6 assms(7,8) by (simp_all add: to_wake_def)
  have "LS' (Runnable c) = LS5 (Runnable c)" using sys_unique [OF 2(3) 1(6), of "Runnable c"] c by simp
  moreover have "tcbs s' t = READY_mask (tcbs s t)" using P(7) [OF tm] t5(2) by simp
  ultimately show ?thesis
    using 1(1,2) t5(1) READY_mask_intention [of "tcbs s t"] READY_mask_state [of "tcbs s t"]
    by (intro exI [of _ r] exI [of _ s'] exI [of _ LS']) simp
qed

lemma machine_blocked:
  obtains u s LS where "sys_ok LS s" "running_thread s 0 = Some 0" "u \<in> set (LS (Blocked 0))"
    "tstate (tcbs s u) = THREAD_STATE_BLOCKED" "intention (tcbs s u) = THREAD_INTENTION_READY"
proof -
  obtain u t s LS where s: "sys_ok LS s" "running_thread s 0 = Some 0" "LS (Runnable 0) = [u, t]" "u \<noteq> t"
    "fresh_block (tcbs s u)" by (rule machine_two)
  have L: "Runnable 0 \<in> list_ids" "Blocked 0 \<in> list_ids" "Runnable 0 \<noteq> Blocked 0" by (simp_all add: MAX_PROCESSOR_COUNT_def)
  have u: "u \<in> set (LS (Runnable 0))" using s(3) by simp
  note D = sys_okD [OF s(1)]
  have up: "u \<in> pool_tids" "u \<noteq> 0" using lists_okD(4) [OF D(1) L(1) u] pool_NT(2) [of u] by (auto simp: MAX_PROCESSOR_COUNT_def)
  let ?b = "(tcbs s u)\<lparr>tstate := THREAD_STATE_BLOCKED, intention := THREAD_INTENTION_READY\<rparr>"
  have f: "listed_ok (Blocked 0) ?b" "tcb_ok u ?b" "stack_base ?b = stack_base (tcbs s u)" "tstate ?b \<noteq> THREAD_STATE_NOTALLOC"
    using lists_okD(3) [OF D(1) L(1) u] base_okD(1) [OF D(2) pool_NT(1) [OF up(1)]] by (auto simp: tcb_ok_def)
  have nr: "\<forall>d. Runnable 0 = Runnable d \<longrightarrow> running_thread s d \<noteq> Some u" using s(2) up(2) by auto
  let ?LS = "LS(Runnable 0 := remove1 u (LS (Runnable 0)), Blocked 0 := LS (Blocked 0) @ [u])"
  obtain h1 h2 where h: "\<And>s'. links s' = h2 \<Longrightarrow>
      (\<forall>n. tl_count (tls s' n) = tl_count (tls s n) + (if n = Blocked 0 then 1 else 0) - (if n = Runnable 0 then 1 else 0)) \<Longrightarrow>
      tcbs s' = (tcbs s)(u := ?b) \<Longrightarrow> km s' = km s \<Longrightarrow> apic s' = apic s \<Longrightarrow> running_thread s' = running_thread s \<Longrightarrow>
      lock (tl_lock (tls s' Global_tcb)) = 0 \<Longrightarrow> lock (tl_lock (tls s' Migrating)) = 0 \<Longrightarrow> sys_ok ?LS s'"
    by (rule sys_move [OF s(1) L u f nr]) (simp, simp, rule that)
  let ?s = "(count_inc (Blocked 0) (count_dec (Runnable 0) (upd_tcb u (\<lambda>_. ?b) s)))\<lparr>links := h2\<rparr>"
  have "sys_ok ?LS ?s" using base_okD(6,7) [OF D(2)] by (intro h) (simp_all add: list_op_defs)
  then show thesis using s(2) by (intro that [of ?LS ?s u]) (simp_all add: list_op_defs)
qed

theorem woken_thread_runnable_witness:
  "\<exists>s t r s' LS'. tstate (tcbs s t) = THREAD_STATE_BLOCKED \<and> schedule 0 THREAD_INTENTION_READY s = Some (r, s') \<and> sys_ok LS' s' \<and>
    t \<in> set (LS' (Runnable 0)) \<and> tstate (tcbs s' t) = THREAD_STATE_READY"
proof -
  obtain u s LS where s: "sys_ok LS s" "running_thread s 0 = Some 0" "u \<in> set (LS (Blocked 0))"
    "tstate (tcbs s u) = THREAD_STATE_BLOCKED" "intention (tcbs s u) = THREAD_INTENTION_READY" by (rule machine_blocked)
  have c: "0 < MAX_PROCESSOR_COUNT" by (simp add: MAX_PROCESSOR_COUNT_def)
  have i: "may_intend 0 0 THREAD_INTENTION_READY"
    by (simp add: may_intend_def THREAD_INTENTION_READY_def THREAD_INTENTION_BLOCKED_def THREAD_INTENTION_EXITED_def)
  have "intention (tcbs s u) AND THREAD_INTENTION_READY \<noteq> 0" "intention (tcbs s u) AND THREAD_INTENTION_EXITED = 0"
    by (simp_all add: s(5) THREAD_INTENTION_READY_def THREAD_INTENTION_EXITED_def)
  from woken_thread_runnable [OF s(1) c s(2) i s(3,4) this] s(4) show ?thesis by blast
qed

lemma lost_wakeup:
  assumes "sys_ok LS s" "c < MAX_PROCESSOR_COUNT" "running_thread s c = Some t" "t \<noteq> c"
    and "intention (tcbs s t) = THREAD_INTENTION_READY"
  shows "\<exists>r s' LS'. schedule c THREAD_INTENTION_BLOCKED s = Some (r, s') \<and> sys_ok LS' s' \<and> t \<in> set (LS' (Blocked c)) \<and>
    tstate (tcbs s' t) = THREAD_STATE_READY \<and> intention (tcbs s' t) = 0 \<and> wake_body c t s' = Some (False, s')"
proof -
  note S = assms(1) and c = assms(2)
  have tr: "t \<in> set (LS (Runnable c))" using sys_okD(3) [OF S c assms(3)] assms(4) by simp
  have lr: "Runnable c \<in> list_ids" and lb: "Blocked c \<in> list_ids" using c by simp_all
  have t: "t \<in> pool_tids" using lists_okD(4) [OF sys_okD(1) [OF S] lr tr] by simp
  have i: "may_intend c t THREAD_INTENTION_BLOCKED" using assms(4) by (simp add: may_intend_def)
  have K: "blocking t (LS (Runnable c)) s1" if "tcbs s1 = (tcbs s)(t := b)" "intention b = THREAD_INTENTION_BLOCKED OR intention (tcbs s t)" for s1 b
    using that tr assms(5) by (auto simp: blocking_def)
  obtain r n s2 LS4 s4 s5 LS' s' where 1: "schedule c THREAD_INTENTION_BLOCKED s = Some (r, s')" "sys_ok LS' s'"
    "running_thread s' = (running_thread s)(c := Some n)" "maybe_blocked t s2" "sched_phases c t n LS4 s2 s4 s5 s'" "sys_ok LS' s5"
    by (rule schedule_tracked [where K = "blocking t" and K' = "maybe_blocked t", OF S c assms(3) i K tracks_blocking [OF t c]])
  have P: "selected c t (running_thread s2) n s2" "sys_ok LS4 s4" "running_thread s4 c = Some n" "prev_loc c t LS4 s4"
    "n \<noteq> t \<Longrightarrow> tcbs s4 t = (tcbs s2 t)\<lparr>resume := From_schedule\<rparr>" "post_context_switch c t s4 = Some s5" "n \<noteq> t \<Longrightarrow> s' = s5"
    using 1(5) by (auto simp: sched_phases_def)
  obtain b where b: "intention b = THREAD_INTENTION_BLOCKED OR THREAD_INTENTION_READY" "tcbs s2 t = BLOCKED_mask b"
    by (rule selected_blocked [OF P(1) c t 1(4)])
  note B = both_intentions [OF b(1)]
  have "n \<noteq> t" using selected_not_blocked [OF P(1) c _ t] b(2) by (simp add: BLOCKED_mask_def)
  note t4 = P(5) [OF this, unfolded b(2)] and s' = P(7) [OF this]
  have i4: "intention (tcbs s4 t) = THREAD_INTENTION_READY" "tstate (tcbs s4 t) = THREAD_STATE_BLOCKED"
    using t4 B(4) by (simp_all add: BLOCKED_mask_def)
  obtain LS6 s6 LS5 where 2: "post_prev c t s4 = Some s6" "sys_ok LS6 s6" "sys_ok LS5 s5"
    "\<And>t. t \<in> set (LS6 (Blocked c)) \<Longrightarrow> to_stay (tcbs s6 t) \<Longrightarrow> t \<in> set (LS5 (Blocked c)) \<and> tcbs s5 t = tcbs s6 t"
    by (rule post_context_switch_ok [OF P(2) c P(3,4)]) (use P(6) that in auto)
  have s6: "s6 = upd_tcb t READY_mask s4"
    using 2(1) i4 by (simp add: post_prev_def READY_mask_def [abs_def] Let_def THREAD_INTENTION_READY_def)
  have i6: "tstate (tcbs s6 t) = THREAD_STATE_READY" "intention (tcbs s6 t) = 0"
    using i4 by (simp_all add: s6 mask_defs THREAD_INTENTION_READY_def THREAD_INTENTION_BLOCKED_def)
  obtain l where l: "l \<in> list_ids" "t \<in> set (LS4 l)" using lists_okD(5) [OF sys_okD(1) [OF P(2)]] t by blast
  have "curr_loc c t LS4 s4" using P(4) by (simp add: prev_loc_def)
  then have "t \<in> set (LS4 (Blocked c))"
    using i4(2) lists_okD(3) [OF sys_okD(1) [OF P(2)], of "Runnable c" t] lists_okD(3) [OF sys_okD(1) [OF P(2)], of Migrating t] assms(4) c
    by (auto simp: curr_loc_def)
  then have "t \<in> set (LS6 (Blocked c))" using sys_unique [OF P(2) 2(2) _ lb] s6 by simp
  then have t5: "t \<in> set (LS5 (Blocked c))" "tcbs s5 t = tcbs s6 t" using 2(4) i6(2) by (auto simp: to_stay_def)
  have "LS' (Blocked c) = LS5 (Blocked c)" using sys_unique [OF 2(3) 1(6) refl lb] .
  moreover have "wake_body c t s' = Some (False, s')" using s' t5(2) i6(2) by (simp add: wake_body_def)
  ultimately show ?thesis using 1(1,2) t5 i6 s' by auto
qed

text \<open>C23. A wake-up can be lost. When a thread is woken before it blocks (its \<^verbatim>\<open>READY\<close> intention is set and
  it then calls \<^verbatim>\<open>schedule\<close> with \<^verbatim>\<open>BLOCKED\<close>), the selection moves it to the blocked list, and the code
  after the switch, which was meant to cancel the block, marks it ready and clears both requests but
  leaves it there. The thread ends in the blocked list with nothing pending, and the scan of that
  list passes over it.\<close>

theorem wakeup_before_block_lost:
  assumes "sys_ok LS s" "c < MAX_PROCESSOR_COUNT" "running_thread s c = Some t" "t \<noteq> c"
    and "intention (tcbs s t) = THREAD_INTENTION_READY"
  shows "\<exists>r s' LS'. schedule c THREAD_INTENTION_BLOCKED s = Some (r, s') \<and> sys_ok LS' s' \<and> t \<in> set (LS' (Blocked c)) \<and>
    tstate (tcbs s' t) = THREAD_STATE_READY \<and> intention (tcbs s' t) = 0 \<and> wake_body c t s' = Some (False, s')"
  by (rule lost_wakeup [OF assms])

theorem wakeup_before_block_lost_witness:
  "\<exists>s t r s'. running_thread s 0 = Some t \<and> schedule 0 THREAD_INTENTION_BLOCKED s = Some (r, s') \<and> intention (tcbs s t) = THREAD_INTENTION_READY \<and>
    intention (tcbs s' t) = 0 \<and> wake_body 0 t s' = Some (False, s')"
proof -
  obtain u t s LS where s: "sys_ok LS s" "LS (Runnable 0) = [u, t]" "fresh_block (tcbs s t)" by (rule machine_two)
  have c: "0 < MAX_PROCESSOR_COUNT" and l: "Runnable 0 \<in> list_ids" by (simp_all add: MAX_PROCESSOR_COUNT_def)
  have tp: "t \<in> pool_tids" using lists_okD(4) [OF sys_okD(1) [OF s(1)] l] s(2) by simp
  then have t: "t \<in> allocated s" "t \<noteq> 0" using s(3) pool_NT(2) [OF tp] c by (auto simp: allocated_def fresh_block_def)
  let ?s1 = "upd_tcb t (\<lambda>b. b\<lparr>intention := atomic_or THREAD_INTENTION_READY (intention b)\<rparr>) s"
  let ?s2 = "?s1\<lparr>running_thread := (running_thread ?s1)(0 := Some t)\<rparr>"
  have S: "sys_ok LS ?s2" using run_on_core_0 [OF or_intention_ok [OF s(1) t(1)], of t] s(2) by simp
  have "\<exists>r s' LS'. schedule 0 THREAD_INTENTION_BLOCKED ?s2 = Some (r, s') \<and> sys_ok LS' s' \<and> t \<in> set (LS' (Blocked 0)) \<and>
    tstate (tcbs s' t) = THREAD_STATE_READY \<and> intention (tcbs s' t) = 0 \<and> wake_body 0 t s' = Some (False, s')"
    by (rule wakeup_before_block_lost [OF S c _ t(2)]) (use s(3) in \<open>simp_all add: fresh_block_def atomic_or_def\<close>)
  moreover have "running_thread ?s2 0 = Some t" "intention (tcbs ?s2 t) = THREAD_INTENTION_READY"
    using s(3) by (simp_all add: fresh_block_def atomic_or_def)
  ultimately show ?thesis by blast
qed







end
