(* ===== verification/Semaphore.thy ===== *)
theory Semaphore
  imports Sync Dequeue SchedProps
begin

text \<open>
  The counting semaphores of \<^verbatim>\<open>kernel/semaphore.h\<close> and their system calls in \<^verbatim>\<open>kernel/semaphore.c\<close>, over
  the threads of the scheduler. The state of the system is that of the scheduler, the semaphores by
  their address and the flags register of every core. A semaphore's queue is an array of thread ids
  allocated by \<^verbatim>\<open>az_sem_init\<close>; a store through a NULL pointer is \<^const>\<open>None\<close>.

  \<^verbatim>\<open>az_sem_wait\<close> either returns or, when nothing is available, queues the running thread and calls
  \<^verbatim>\<open>schedule\<close>, after which it starts again at its label. The model of it runs the code up to one of the
  two; what other threads do in between are operations on the same state.
\<close>

section \<open>Data\<close>

definition MAX_THREAD_ID :: nat where "MAX_THREAD_ID = MAX_PROCESSOR_COUNT + CONFIG_NUM_THREAD"
definition MAX_SEM_QUEUE_SIZE :: nat where "MAX_SEM_QUEUE_SIZE = MAX_THREAD_ID"

record sem_t =
  sem_value :: dword
  sem_queue_ptr :: qword
  sem_queue :: "dword carray"
  wpos :: dword
  rpos :: dword
  sem_lock :: spinlock_irqsave_t

definition sizeof_sem_t :: qword where "sizeof_sem_t = 56"

record sem_sys =
  kern :: sched_state
  sems :: "qword \<Rightarrow> sem_t"
  eflags :: "nat \<Rightarrow> qword"

definition upd_sem :: "qword \<Rightarrow> (sem_t \<Rightarrow> sem_t) \<Rightarrow> sem_sys \<Rightarrow> sem_sys" where
  "upd_sem p f S = S\<lparr>sems := (sems S)(p := f (sems S p))\<rparr>"

definition set_km :: "mem_state \<Rightarrow> sem_sys \<Rightarrow> sem_sys" where
  "set_km k S = S\<lparr>kern := (kern S)\<lparr>km := k\<rparr>\<rparr>"

definition set_pointer :: "qword \<Rightarrow> qword \<Rightarrow> sem_sys \<Rightarrow> sem_sys" where
  "set_pointer p v S = set_km ((km (kern S))\<lparr>mem := store_qword (mem (km (kern S))) p v\<rparr>) S"

definition lock_sem :: "nat \<Rightarrow> qword \<Rightarrow> sem_sys \<Rightarrow> sem_sys option" where
  "lock_sem c p S = do {
     (_, r, l) \<leftarrow> spinlock_irqsave_lock c (eflags S c) (sem_lock (sems S p));
     Some ((upd_sem p (\<lambda>x. x\<lparr>sem_lock := l\<rparr>) S)\<lparr>eflags := (eflags S)(c := r)\<rparr>)
   }"

definition unlock_sem :: "nat \<Rightarrow> qword \<Rightarrow> sem_sys \<Rightarrow> sem_sys" where
  "unlock_sem c p S =
     (let (_, r, l) = spinlock_irqsave_unlock (eflags S c) (sem_lock (sems S p))
      in (upd_sem p (\<lambda>x. x\<lparr>sem_lock := l\<rparr>) S)\<lparr>eflags := (eflags S)(c := r)\<rparr>)"

section \<open>Operations\<close>

definition az_sem_init :: "qword \<Rightarrow> dword \<Rightarrow> sem_sys \<Rightarrow> (int \<times> sem_sys) option" where
  "az_sem_init p v S =
     (if p = 0 then Some (- EINVAL, S)
      else do {
        (a, k) \<leftarrow> az_alloc (km (kern S)) (of_nat (MAX_SEM_QUEUE_SIZE * 4));
        if a = 0 then None
        else Some (0, upd_sem p (\<lambda>x. x\<lparr>sem_queue_ptr := a, sem_value := v, rpos := 0, wpos := 0,
                    sem_queue := (\<lambda>i. if i < MAX_SEM_QUEUE_SIZE then of_nat MAX_THREAD_ID else sem_queue x i),
                    sem_lock := snd (spinlock_irqsave_init (sem_lock x))\<rparr>) (set_km k S))
      })"

definition az_sem_destroy :: "qword \<Rightarrow> sem_sys \<Rightarrow> (int \<times> sem_sys) option" where
  "az_sem_destroy p S =
     (if p = 0 then Some (- EINVAL, S)
      else do {
        let S = upd_sem p (\<lambda>x. x\<lparr>sem_lock := snd (spinlock_irqsave_destroy (sem_lock x))\<rparr>) S;
        (_, k) \<leftarrow> az_free (km (kern S)) (sem_queue_ptr (sems S p));
        Some (0, set_km k S)
      })"

definition az_sem_trywait :: "nat \<Rightarrow> qword \<Rightarrow> sem_sys \<Rightarrow> (int \<times> sem_sys) option" where
  "az_sem_trywait c p S =
     (if p = 0 then Some (- EINVAL, S)
      else do {
        S \<leftarrow> lock_sem c p S;
        let (ret, S) = (if 0 < sem_value (sems S p)
                        then (0, upd_sem p (\<lambda>x. x\<lparr>sem_value := sem_value x - 1\<rparr>) S)
                        else (- ECANCELED, S));
        Some (ret, unlock_sem c p S)
      })"

text \<open>Where a wait stops: it returns, or it has queued the thread and is about to call \<^verbatim>\<open>schedule\<close>.\<close>

datatype wait_status = Wait_returned int | Wait_blocks

definition enqueue_waiter :: "qword \<Rightarrow> dword \<Rightarrow> sem_sys \<Rightarrow> sem_sys" where
  "enqueue_waiter p tid =
     upd_sem p (\<lambda>x. x\<lparr>sem_queue := (sem_queue x)(unat (wpos x) := tid),
       wpos := (wpos x + 1) mod of_nat MAX_SEM_QUEUE_SIZE\<rparr>)"

definition az_sem_wait :: "nat \<Rightarrow> qword \<Rightarrow> dword \<Rightarrow> sem_sys \<Rightarrow> (wait_status \<times> sem_sys) option" where
  "az_sem_wait c p ms S =
     (if p = 0 then Some (Wait_returned (- EINVAL), S)
      else if ms = 0 then do {
        S \<leftarrow> lock_sem c p S;
        if 0 < sem_value (sems S p) then
          Some (Wait_returned 0, unlock_sem c p (upd_sem p (\<lambda>x. x\<lparr>sem_value := sem_value x - 1\<rparr>) S))
        else do {
          curr \<leftarrow> get_current c (kern S);
          Some (Wait_blocks, unlock_sem c p (enqueue_waiter p (of_nat (tcb_id (tcbs (kern S) curr))) S))
        }
      }
      else Some (Wait_returned 0, S))"

definition sem_wait_block :: "nat \<Rightarrow> sem_sys \<Rightarrow> sem_sys option" where
  "sem_wait_block c S = do { (_, s) \<leftarrow> schedule c THREAD_INTENTION_BLOCKED (kern S); Some (S\<lparr>kern := s\<rparr>) }"

definition az_sem_post :: "nat \<Rightarrow> qword \<Rightarrow> sem_sys \<Rightarrow> (int \<times> sem_sys) option" where
  "az_sem_post c p S =
     (if p = 0 then Some (- EINVAL, S)
      else do {
        S \<leftarrow> lock_sem c p S;
        let S = upd_sem p (\<lambda>x. x\<lparr>sem_value := sem_value x + 1\<rparr>) S;
        let w = sem_queue (sems S p) (unat (rpos (sems S p)));
        S \<leftarrow> (if w < of_nat MAX_THREAD_ID then do {
                (_, s) \<leftarrow> thread_wake_up c (int (unat w)) (kern S);
                Some (upd_sem p (\<lambda>x. x\<lparr>sem_queue := (sem_queue x)(unat (rpos x) := of_nat MAX_THREAD_ID),
                        rpos := (rpos x + 1) mod of_nat MAX_SEM_QUEUE_SIZE\<rparr>) (S\<lparr>kern := s\<rparr>))
              } else Some S);
        Some (0, unlock_sem c p S)
      })"

section \<open>System calls\<close>

definition sys_sem_init :: "qword \<Rightarrow> dword \<Rightarrow> sem_sys \<Rightarrow> (int \<times> sem_sys) option" where
  "sys_sem_init sem v S =
     (if sem = 0 then Some (- EINVAL, S)
      else do {
        (a, k) \<leftarrow> az_alloc (km (kern S)) sizeof_sem_t;
        let S = set_pointer sem a (set_km k S);
        if a = 0 then Some (- ENOMEM, S)
        else do {
          (ret, S) \<leftarrow> az_sem_init a v S;
          if ret \<noteq> 0 then do {
            (_, k) \<leftarrow> az_free (km (kern S)) (load_qword (mem (km (kern S))) sem);
            Some (ret, set_pointer sem 0 (set_km k S))
          } else Some (ret, S)
        }
      })"

definition sys_sem_destroy :: "qword \<Rightarrow> sem_sys \<Rightarrow> (int \<times> sem_sys) option" where
  "sys_sem_destroy sem S =
     (if sem = 0 then Some (- EINVAL, S)
      else do {
        (ret, S) \<leftarrow> az_sem_destroy sem S;
        if ret = 0 then do { (_, k) \<leftarrow> az_free (km (kern S)) sem; Some (ret, set_km k S) } else Some (ret, S)
      })"

definition sys_sem_wait :: "nat \<Rightarrow> qword \<Rightarrow> sem_sys \<Rightarrow> (wait_status \<times> sem_sys) option" where
  "sys_sem_wait c sem S = (if sem = 0 then Some (Wait_returned (- EINVAL), S) else az_sem_wait c sem 0 S)"

definition sys_sem_post :: "nat \<Rightarrow> qword \<Rightarrow> sem_sys \<Rightarrow> (int \<times> sem_sys) option" where
  "sys_sem_post c sem S = (if sem = 0 then Some (- EINVAL, S) else az_sem_post c sem S)"

definition sys_sem_timedwait :: "nat \<Rightarrow> qword \<Rightarrow> dword \<Rightarrow> sem_sys \<Rightarrow> (wait_status \<times> sem_sys) option" where
  "sys_sem_timedwait c sem ms S = (if sem = 0 then Some (Wait_returned (- EINVAL), S) else az_sem_wait c sem ms S)"

definition sys_sem_cancelablewait :: "nat \<Rightarrow> qword \<Rightarrow> dword \<Rightarrow> sem_sys \<Rightarrow> (wait_status \<times> sem_sys) option" where
  "sys_sem_cancelablewait c sem ms S = (if sem = 0 then Some (Wait_returned (- EINVAL), S) else az_sem_wait c sem ms S)"

section \<open>Counter and queue of waiters\<close>

text \<open>
  What a semaphore stands for between calls: a number of units and the queue of the threads that wait,
  oldest first; the slots of the array outside the queue hold the marker.
\<close>

definition sem_rep :: "nat \<Rightarrow> nat list \<Rightarrow> sem_t \<Rightarrow> bool" where
  "sem_rep v q x \<longleftrightarrow> irqsave_free (sem_lock x) \<and> sem_value x = of_nat v \<and> v < 2 ^ 32 \<and>
     length q \<le> MAX_SEM_QUEUE_SIZE \<and> (\<forall>t\<in>set q. t < MAX_THREAD_ID) \<and> unat (rpos x) < MAX_SEM_QUEUE_SIZE \<and>
     unat (wpos x) = (unat (rpos x) + length q) mod MAX_SEM_QUEUE_SIZE \<and>
     (\<forall>j<MAX_SEM_QUEUE_SIZE. sem_queue x ((unat (rpos x) + j) mod MAX_SEM_QUEUE_SIZE) =
        of_nat (if j < length q then q ! j else MAX_THREAD_ID))"

lemma queue_size: "MAX_SEM_QUEUE_SIZE = 33055" "MAX_THREAD_ID = 33055"
  by (simp_all add: MAX_SEM_QUEUE_SIZE_def MAX_THREAD_ID_def MAX_PROCESSOR_COUNT_def CONFIG_NUM_THREAD_def)

lemma unat_next_pos:
  assumes "unat (w :: dword) < MAX_SEM_QUEUE_SIZE"
  shows "unat ((w + 1) mod of_nat MAX_SEM_QUEUE_SIZE) = Suc (unat w) mod MAX_SEM_QUEUE_SIZE"
proof -
  have "1 + w \<noteq> 0"
  proof
    assume "1 + w = 0"
    then have "w = - 1" by (simp add: eq_neg_iff_add_eq_0 add.commute)
    then have "unat w = 2 ^ 32 - 1" by (simp add: unsigned_minus_1_eq_mask mask_eq_exp_minus_1)
    then show False using assms by (simp add: queue_size)
  qed
  then have "unat (w + 1) = Suc (unat w)" using unatSuc [of w] by (simp add: add.commute)
  then show ?thesis by (simp add: unat_mod_distrib queue_size unat_word_of_nat_small)
qed

lemma sem_rep_lock: "sem_rep v q x \<Longrightarrow> irqsave_free l \<Longrightarrow> sem_rep v q (x\<lparr>sem_lock := l\<rparr>)"
  by (simp add: sem_rep_def)

lemma sem_rep_value:
  assumes "sem_rep v q x"
  shows "0 < sem_value x \<longleftrightarrow> 0 < v"
    and "0 < v \<Longrightarrow> sem_rep (v - 1) q (x\<lparr>sem_value := sem_value x - 1\<rparr>)"
    and "v + 1 < 2 ^ 32 \<Longrightarrow> sem_rep (v + 1) q (x\<lparr>sem_value := sem_value x + 1\<rparr>)"
proof -
  have x: "sem_value x = of_nat v" "v < 2 ^ 32" using assms by (simp_all add: sem_rep_def)
  have "(of_nat v :: dword) = 0 \<longleftrightarrow> v = 0" by (rule of_nat_eq_0_word) (use x(2) in simp)
  then show "0 < sem_value x \<longleftrightarrow> 0 < v" by (simp add: x(1) word_gt_0)
  show "sem_rep (v - 1) q (x\<lparr>sem_value := sem_value x - 1\<rparr>)" if "0 < v"
  proof -
    have "sem_value x - 1 = of_nat (v - 1)" using that by (simp add: x(1) of_nat_diff)
    then show ?thesis using assms that unfolding sem_rep_def by (simp add: less_imp_diff_less)
  qed
  show "sem_rep (v + 1) q (x\<lparr>sem_value := sem_value x + 1\<rparr>)" if "v + 1 < 2 ^ 32"
    using assms that unfolding sem_rep_def by (simp add: add.commute)
qed

lemma sem_rep_head:
  assumes "sem_rep v q x"
  shows "sem_queue x (unat (rpos x)) = of_nat (case q of [] \<Rightarrow> MAX_THREAD_ID | t # _ \<Rightarrow> t)"
proof -
  have "sem_queue x ((unat (rpos x) + 0) mod MAX_SEM_QUEUE_SIZE) = of_nat (if 0 < length q then q ! 0 else MAX_THREAD_ID)"
    using assms by (simp only: sem_rep_def queue_size)
  then show ?thesis using assms by (cases q) (simp_all add: sem_rep_def)
qed

lemma sem_rep_enqueue:
  assumes "sem_rep v q x" "length q < MAX_SEM_QUEUE_SIZE" "t < MAX_THREAD_ID"
  shows "sem_rep v (q @ [t]) (x\<lparr>sem_queue := (sem_queue x)(unat (wpos x) := of_nat t), wpos := (wpos x + 1) mod of_nat MAX_SEM_QUEUE_SIZE\<rparr>)"
proof -
  let ?N = MAX_SEM_QUEUE_SIZE and ?r = "unat (rpos x)"
  have w: "unat (wpos x) = (?r + length q) mod ?N" and r: "?r < ?N" using assms(1) by (simp_all add: sem_rep_def)
  have wl: "unat (wpos x) < ?N" unfolding w using r by simp
  have nx: "unat ((wpos x + 1) mod of_nat ?N) = (?r + Suc (length q)) mod ?N"
    unfolding unat_next_pos [OF wl] w by (simp add: mod_simps)
  have eq: "(?r + j) mod ?N = (?r + length q) mod ?N \<longleftrightarrow> j = length q" if "j < ?N" for j
    using ring_slots_differ [of j "length q" ?N ?r] ring_slots_differ [of "length q" j ?N ?r] that assms(2)
    by (cases j "length q" rule: linorder_cases) auto
  have "((sem_queue x)(unat (wpos x) := of_nat t)) ((?r + j) mod ?N) = of_nat (if j < Suc (length q) then (q @ [t]) ! j else MAX_THREAD_ID)"
    if j: "j < ?N" for j
    using assms(1) j eq [OF j] by (auto simp: w sem_rep_def nth_append less_Suc_eq)
  then show ?thesis using assms nx by (simp add: sem_rep_def)
qed

lemma sem_rep_dequeue:
  assumes "sem_rep v (t # q) x"
  shows "sem_rep v q (x\<lparr>sem_queue := (sem_queue x)(unat (rpos x) := of_nat MAX_THREAD_ID), rpos := (rpos x + 1) mod of_nat MAX_SEM_QUEUE_SIZE\<rparr>)"
proof -
  let ?N = MAX_SEM_QUEUE_SIZE and ?r = "unat (rpos x)"
  have r: "?r < ?N" and ql: "length q < ?N" using assms by (simp_all add: sem_rep_def)
  have nx: "unat ((rpos x + 1) mod of_nat ?N) = Suc ?r mod ?N" by (rule unat_next_pos [OF r])
  have "((sem_queue x)(?r := of_nat MAX_THREAD_ID)) ((Suc ?r mod ?N + j) mod ?N) = of_nat (if j < length q then q ! j else MAX_THREAD_ID)"
    if j: "j < ?N" for j
  proof (cases "Suc j = ?N")
    case True
    have "(Suc ?r mod ?N + j) mod ?N = (?r + Suc j) mod ?N" by (simp add: mod_simps)
    then have "(Suc ?r mod ?N + j) mod ?N = ?r" using True r by simp
    then show ?thesis using True ql by simp
  next
    case False
    then have sj: "Suc j < ?N" using j by simp
    have e: "(Suc ?r mod ?N + j) mod ?N = (?r + Suc j) mod ?N" by (simp add: mod_simps)
    have "(?r + 0) mod ?N \<noteq> (?r + Suc j) mod ?N" by (rule ring_slots_differ [OF _ sj]) simp
    then have "(?r + Suc j) mod ?N \<noteq> ?r" using r by simp
    moreover have "sem_queue x ((?r + Suc j) mod ?N) = of_nat (if Suc j < length (t # q) then (t # q) ! Suc j else MAX_THREAD_ID)"
      using assms sj unfolding sem_rep_def by blast
    ultimately show ?thesis unfolding e by simp
  qed
  moreover have "unat (wpos x) = (Suc ?r mod ?N + length q) mod ?N" using assms by (simp add: sem_rep_def mod_simps)
  ultimately show ?thesis using assms nx by (simp add: sem_rep_def)
qed

section \<open>The operations on it\<close>

text \<open>What a call leaves of the system: everything but one semaphore, and the threads it woke.\<close>

definition sem_result :: "qword \<Rightarrow> nat \<Rightarrow> nat list \<Rightarrow> sched_state \<Rightarrow> sem_sys \<Rightarrow> sem_sys \<Rightarrow> bool" where
  "sem_result p v q k S S' \<longleftrightarrow> kern S' = k \<and> sem_rep v q (sems S' p) \<and> eflags S' = eflags S \<and> (\<forall>r. r \<noteq> p \<longrightarrow> sems S' r = sems S r)"

text \<open>A section between lock and unlock changes the semaphore as its code says, gives the lock back free
  and leaves the flags register as it was.\<close>

lemma locked_section:
  assumes "irqsave_free (sem_lock (sems S p))" "c < MAX_PROCESSOR_COUNT"
  obtains S1 where "lock_sem c p S = Some S1" "kern S1 = kern S" "\<exists>l. sems S1 p = (sems S p)\<lparr>sem_lock := l\<rparr>"
    "\<And>f k v q. (\<And>x l. f (x\<lparr>sem_lock := l\<rparr>) = (f x)\<lparr>sem_lock := l\<rparr>) \<Longrightarrow> sem_rep v q (f (sems S p)) \<Longrightarrow>
      sem_result p v q k S (unlock_sem c p (upd_sem p f (S1\<lparr>kern := k\<rparr>)))"
proof -
  obtain i r l where l: "spinlock_irqsave_lock c (eflags S c) (sem_lock (sems S p)) = Some (i, r, l)"
    using irqsave_lock_free [OF assms] by blast
  note u = irqsave_lock_unlock [OF assms l]
  obtain j r' l' where ul: "spinlock_irqsave_unlock r l = (j, r', l')" by (metis prod_cases3)
  then have free: "r' = eflags S c" "irqsave_free l'" using u by auto
  let ?S1 = "(upd_sem p (\<lambda>x. x\<lparr>sem_lock := l\<rparr>) S)\<lparr>eflags := (eflags S)(c := r)\<rparr>"
  show ?thesis
  proof (rule that [of ?S1])
    show "lock_sem c p S = Some ?S1" using l by (simp add: lock_sem_def)
    show "kern ?S1 = kern S" by (simp add: upd_sem_def)
    show "\<exists>l. sems ?S1 p = (sems S p)\<lparr>sem_lock := l\<rparr>" by (auto simp: upd_sem_def)
    fix f k v q
    assume f: "\<And>x l. f (x\<lparr>sem_lock := l\<rparr>) = (f x)\<lparr>sem_lock := l\<rparr>" and rep: "sem_rep v q (f (sems S p))"
    show "sem_result p v q k S (unlock_sem c p (upd_sem p f (?S1\<lparr>kern := k\<rparr>)))"
      using sem_rep_lock [OF rep free(2)] by (simp add: sem_result_def unlock_sem_def upd_sem_def f ul free(1))
  qed
qed

lemma upd_sem_upd_sem: "upd_sem p g (upd_sem p f S) = upd_sem p (\<lambda>x. g (f x)) S"
  by (simp add: upd_sem_def)

lemma upd_sem_simps [simp]: "kern (upd_sem p f S) = kern S" "sems (upd_sem p f S) p = f (sems S p)"
  "(upd_sem p f S)\<lparr>kern := k\<rparr> = upd_sem p f (S\<lparr>kern := k\<rparr>)"
  by (simp_all add: upd_sem_def)

lemma upd_sem_id: "upd_sem p (\<lambda>x. x) S = S"
  by (simp add: upd_sem_def)

lemma kern_self: "kern S1 = k \<Longrightarrow> S1\<lparr>kern := k\<rparr> = S1"
  by (cases S1) simp

lemma trywait_ok:
  assumes "sem_rep v q (sems S p)" "p \<noteq> 0" "c < MAX_PROCESSOR_COUNT"
  shows "\<exists>S'. az_sem_trywait c p S = Some (if 0 < v then 0 else - ECANCELED, S') \<and> sem_result p (v - 1) q (kern S) S S'"
proof -
  have fr: "irqsave_free (sem_lock (sems S p))" using assms(1) by (simp add: sem_rep_def)
  obtain S1 l where S1: "lock_sem c p S = Some S1" "kern S1 = kern S" "sems S1 p = (sems S p)\<lparr>sem_lock := l\<rparr>"
    and un: "\<And>f k v q. (\<And>x l. f (x\<lparr>sem_lock := l\<rparr>) = (f x)\<lparr>sem_lock := l\<rparr>) \<Longrightarrow> sem_rep v q (f (sems S p)) \<Longrightarrow>
      sem_result p v q k S (unlock_sem c p (upd_sem p f (S1\<lparr>kern := k\<rparr>)))"
    by (rule locked_section [OF fr assms(3)]) blast
  note V = sem_rep_value [OF assms(1)] and k = kern_self [OF S1(2)]
  have "sem_result p (v - 1) q (kern S) S (unlock_sem c p (upd_sem p (\<lambda>x. x\<lparr>sem_value := sem_value x - 1\<rparr>) S1))" if "0 < v"
    using un [of "\<lambda>x. x\<lparr>sem_value := sem_value x - 1\<rparr>" "v - 1" q "kern S", OF _ V(2) [OF that]] by (simp add: k)
  moreover have "sem_result p v q (kern S) S (unlock_sem c p S1)"
    using un [of "\<lambda>x. x" v q "kern S", OF _ assms(1)] by (simp add: k upd_sem_id)
  ultimately show ?thesis using V(1) assms(2) S1 by (cases "0 < v") (auto simp: az_sem_trywait_def)
qed

lemma wait_ok:
  assumes "sem_rep v q (sems S p)" "p \<noteq> 0" "c < MAX_PROCESSOR_COUNT"
    and "running_thread (kern S) c = Some t" "tcb_id (tcbs (kern S) t) = t" "t < MAX_THREAD_ID" "length q < MAX_SEM_QUEUE_SIZE"
  shows "\<exists>S'. az_sem_wait c p 0 S = Some (if 0 < v then Wait_returned 0 else Wait_blocks, S') \<and>
    sem_result p (v - 1) (if 0 < v then q else q @ [t]) (kern S) S S'"
proof -
  have fr: "irqsave_free (sem_lock (sems S p))" using assms(1) by (simp add: sem_rep_def)
  obtain S1 l where S1: "lock_sem c p S = Some S1" "kern S1 = kern S" "sems S1 p = (sems S p)\<lparr>sem_lock := l\<rparr>"
    and un: "\<And>f k v q. (\<And>x l. f (x\<lparr>sem_lock := l\<rparr>) = (f x)\<lparr>sem_lock := l\<rparr>) \<Longrightarrow> sem_rep v q (f (sems S p)) \<Longrightarrow>
      sem_result p v q k S (unlock_sem c p (upd_sem p f (S1\<lparr>kern := k\<rparr>)))"
    by (rule locked_section [OF fr assms(3)]) blast
  note V = sem_rep_value [OF assms(1)] and k = kern_self [OF S1(2)]
  let ?f = "\<lambda>x. x\<lparr>sem_queue := (sem_queue x)(unat (wpos x) := of_nat t), wpos := (wpos x + 1) mod of_nat MAX_SEM_QUEUE_SIZE\<rparr>"
  have "sem_result p (v - 1) q (kern S) S (unlock_sem c p (upd_sem p (\<lambda>x. x\<lparr>sem_value := sem_value x - 1\<rparr>) S1))" if "0 < v"
    using un [of "\<lambda>x. x\<lparr>sem_value := sem_value x - 1\<rparr>" "v - 1" q "kern S", OF _ V(2) [OF that]] by (simp add: k)
  moreover have "sem_result p v (q @ [t]) (kern S) S (unlock_sem c p (enqueue_waiter p (of_nat t) S1))"
    using un [of ?f v "q @ [t]" "kern S", OF _ sem_rep_enqueue [OF assms(1,7,6)]] by (simp add: k enqueue_waiter_def)
  ultimately show ?thesis using V(1) assms(2,4,5) S1 by (cases "0 < v") (auto simp: az_sem_wait_def get_current_def)
qed

lemma post_ok:
  assumes "sem_rep v q (sems S p)" "p \<noteq> 0" "c < MAX_PROCESSOR_COUNT" "v + 1 < 2 ^ 32"
    and "\<And>t. q \<noteq> [] \<Longrightarrow> t = hd q \<Longrightarrow> thread_wake_up c (int t) (kern S) = Some (0, k')" "q = [] \<Longrightarrow> k' = kern S"
  shows "\<exists>S'. az_sem_post c p S = Some (0, S') \<and> sem_result p (v + 1) (tl q) k' S S'"
proof -
  have fr: "irqsave_free (sem_lock (sems S p))" using assms(1) by (simp add: sem_rep_def)
  obtain S1 l where S1: "lock_sem c p S = Some S1" "kern S1 = kern S" "sems S1 p = (sems S p)\<lparr>sem_lock := l\<rparr>"
    and un: "\<And>f k v q. (\<And>x l. f (x\<lparr>sem_lock := l\<rparr>) = (f x)\<lparr>sem_lock := l\<rparr>) \<Longrightarrow> sem_rep v q (f (sems S p)) \<Longrightarrow>
      sem_result p v q k S (unlock_sem c p (upd_sem p f (S1\<lparr>kern := k\<rparr>)))"
    by (rule locked_section [OF fr assms(3)]) blast
  note V = sem_rep_value(3) [OF assms(1,4)] and k = kern_self [OF S1(2)] and H = sem_rep_head [OF assms(1)]
  show ?thesis
  proof (cases q)
    case Nil
    have "\<not> (of_nat MAX_THREAD_ID :: dword) < of_nat MAX_THREAD_ID" by simp
    then have "az_sem_post c p S = Some (0, unlock_sem c p (upd_sem p (\<lambda>x. x\<lparr>sem_value := sem_value x + 1\<rparr>) S1))"
      using assms(2) S1 H Nil by (simp add: az_sem_post_def Let_def)
    moreover have "sem_result p (v + 1) q (kern S) S (unlock_sem c p (upd_sem p (\<lambda>x. x\<lparr>sem_value := sem_value x + 1\<rparr>) S1))"
      using un [of "\<lambda>x. x\<lparr>sem_value := sem_value x + 1\<rparr>" "v + 1" q "kern S", OF _ V] by (simp add: k)
    ultimately show ?thesis using Nil assms(6) by auto
  next
    case (Cons t r)
    let ?g = "\<lambda>x. x\<lparr>sem_queue := (sem_queue x)(unat (rpos x) := of_nat MAX_THREAD_ID), rpos := (rpos x + 1) mod of_nat MAX_SEM_QUEUE_SIZE\<rparr>"
    have t: "t < MAX_THREAD_ID" using assms(1) Cons by (simp add: sem_rep_def)
    then have u: "unat (of_nat t :: dword) = t" "unat (of_nat MAX_THREAD_ID :: dword) = MAX_THREAD_ID"
      by (simp_all add: unat_word_of_nat_small queue_size)
    then have lt: "(of_nat t :: dword) < of_nat MAX_THREAD_ID" using t by (simp only: word_less_nat_alt)
    have hd: "sem_queue (sems S p) (unat (rpos (sems S p))) = of_nat t" using H Cons by simp
    have wk: "thread_wake_up c (int t) (kern S) = Some (0, k')" by (rule assms(5)) (simp_all add: Cons)
    have "az_sem_post c p S = Some (0, unlock_sem c p (upd_sem p (\<lambda>x. ?g (x\<lparr>sem_value := sem_value x + 1\<rparr>)) (S1\<lparr>kern := k'\<rparr>)))"
      using assms(2) by (simp add: az_sem_post_def Let_def upd_sem_upd_sem S1 hd lt u(1) wk)
    moreover have "sem_result p (v + 1) r k' S (unlock_sem c p (upd_sem p (\<lambda>x. ?g (x\<lparr>sem_value := sem_value x + 1\<rparr>)) (S1\<lparr>kern := k'\<rparr>)))"
      using sem_rep_dequeue [OF V [unfolded Cons]] by (intro un) simp_all
    ultimately show ?thesis using Cons by auto
  qed
qed

lemma init_ok:
  assumes "p \<noteq> 0" "az_alloc (km (kern S)) (of_nat (MAX_SEM_QUEUE_SIZE * 4)) = Some (a, k)" "a \<noteq> 0"
  shows "\<exists>S'. az_sem_init p (of_nat v) S = Some (0, S') \<and> (v < 2 ^ 32 \<longrightarrow> sem_rep v [] (sems S' p)) \<and> sem_queue_ptr (sems S' p) = a"
  using assms by (auto simp: az_sem_init_def sem_rep_def spinlock_irqsave_init_def atomic_defs irqsave_free_def queue_size Let_def)

text \<open>C35. Semaphores count and queue. A semaphore stands for a number \<open>v\<close> of units and a queue of waiting threads.
  \<^verbatim>\<open>az_sem_init\<close> starts it with the given number and no waiters; \<^verbatim>\<open>az_sem_trywait\<close> and \<^verbatim>\<open>az_sem_wait\<close> take a
  unit when there is one; otherwise the first returns \<^verbatim>\<open>-ECANCELED\<close> and the second puts the running
  thread at the end of the queue and blocks; \<^verbatim>\<open>az_sem_post\<close> adds a unit, wakes the thread that has
  waited longest and takes it off the queue. Each leaves the lock free, the interrupt flag as it was
  and the other semaphores alone. A wait with a time limit takes nothing and reports success at once.\<close>

theorem semaphore_counts_and_queues:
  assumes "sem_rep v q (sems S p)" "p \<noteq> 0" "c < MAX_PROCESSOR_COUNT" "v + 1 < 2 ^ 32" "length q < MAX_SEM_QUEUE_SIZE"
    and "sys_ok LS (kern S)" "running_thread (kern S) c = Some t" "set q \<subseteq> allocated (kern S)"
  shows "(\<exists>S'. az_sem_trywait c p S = Some (if 0 < v then 0 else - ECANCELED, S') \<and> sem_result p (v - 1) q (kern S) S S') \<and>
    (\<exists>S'. az_sem_wait c p 0 S = Some (if 0 < v then Wait_returned 0 else Wait_blocks, S') \<and>
       sem_result p (v - 1) (if 0 < v then q else q @ [t]) (kern S) S S') \<and>
    (\<exists>S'. az_sem_post c p S = Some (0, S') \<and> sem_result p (v + 1) (tl q)
       (case q of [] \<Rightarrow> kern S
        | u # _ \<Rightarrow> upd_tcb u (\<lambda>b. b\<lparr>intention := intention b OR THREAD_INTENTION_READY\<rparr>) (kern S)) S S') \<and>
    (\<forall>ms. ms \<noteq> 0 \<longrightarrow> sys_sem_timedwait c p ms S = Some (Wait_returned 0, S)) \<and>
    (\<forall>a k w. w < 2 ^ 32 \<longrightarrow> az_alloc (km (kern S)) (of_nat (MAX_SEM_QUEUE_SIZE * 4)) = Some (a, k) \<longrightarrow> a \<noteq> 0 \<longrightarrow>
       (\<exists>S'. az_sem_init p (of_nat w) S = Some (0, S') \<and> sem_rep w [] (sems S' p)))"
proof -
  have "t < NT"
    using sys_okD(3) [OF assms(6,3,7)] lists_okD(4) [OF sys_okD(1) [OF assms(6)], of "Runnable c" t] assms(3) pool_NT(1) by auto
  then have t: "t < MAX_THREAD_ID" "tcb_id (tcbs (kern S) t) = t"
    using base_okD(1) [OF sys_okD(2) [OF assms(6)]] by (auto simp: MAX_THREAD_ID_def tcb_ok_def)
  define k' where "k' = (case q of [] \<Rightarrow> kern S | u # _ \<Rightarrow> upd_tcb u (\<lambda>b. b\<lparr>intention := intention b OR THREAD_INTENTION_READY\<rparr>) (kern S))"
  have wk: "thread_wake_up c (int u) (kern S) = Some (0, k')" if u: "q \<noteq> []" "u = hd q" for u
  proof -
    have "u \<in> allocated (kern S)" using assms(8) u by (cases q) auto
    moreover have "k' = upd_tcb u (\<lambda>b. b\<lparr>intention := intention b OR THREAD_INTENTION_READY\<rparr>) (kern S)"
      using u by (cases q) (simp_all add: k'_def)
    ultimately show ?thesis using thread_wake_up_eq [OF assms(6), of u c] by (simp add: atomic_or_def)
  qed
  have "\<exists>S'. az_sem_post c p S = Some (0, S') \<and> sem_result p (v + 1) (tl q) k' S S'"
    by (rule post_ok [OF assms(1-4) wk]) (simp_all add: k'_def)
  moreover have "sys_sem_timedwait c p ms S = Some (Wait_returned 0, S)" if "ms \<noteq> 0" for ms
    using that assms(2) by (simp add: sys_sem_timedwait_def az_sem_wait_def)
  ultimately show ?thesis
    using trywait_ok [OF assms(1-3)] wait_ok [OF assms(1-3,7) t(2,1) assms(5)] init_ok [OF assms(2)] unfolding k'_def by blast
qed

text \<open>A semaphore without units or waiters.\<close>

definition sem_empty :: sem_t where
  "sem_empty = \<lparr>sem_value = 0, sem_queue_ptr = 0x1000, sem_queue = \<lambda>_. of_nat MAX_THREAD_ID, wpos = 0, rpos = 0, sem_lock = SPINLOCK_IRQSAVE_INIT\<rparr>"

lemma sem_empty_rep: "sem_rep 0 [] sem_empty"
  by (simp add: sem_rep_def sem_empty_def irqsave_free_def SPINLOCK_IRQSAVE_INIT_def queue_size)

lemma sem_machine:
  obtains S :: sem_sys and LS t where "sys_ok LS (kern S)" "running_thread (kern S) 0 = Some t" "t \<noteq> 0" "intention (tcbs (kern S) t) = 0" "sems S = (\<lambda>_. sem_empty)"
proof -
  obtain u t s LS where s: "sys_ok LS s" "LS (Runnable 0) = [u, t]" "fresh_block (tcbs s t)" by (rule machine_two)
  have c: "0 < MAX_PROCESSOR_COUNT" and l: "Runnable 0 \<in> list_ids" by (simp_all add: MAX_PROCESSOR_COUNT_def)
  have "t \<noteq> 0" using lists_okD(4) [OF sys_okD(1) [OF s(1)] l] s(2) pool_NT(2) [of t] c by auto
  moreover have "sys_ok LS (s\<lparr>running_thread := (running_thread s)(0 := Some t)\<rparr>)" using run_on_core_0 [OF s(1), of t] s(2) by simp
  ultimately show ?thesis
    using s(3) that [of LS "\<lparr>kern = s\<lparr>running_thread := (running_thread s)(0 := Some t)\<rparr>, sems = \<lambda>_. sem_empty, eflags = \<lambda>_. 0x202\<rparr>" t]
    by (simp add: fresh_block_def)
qed

theorem semaphore_counts_and_queues_witness:
  "\<exists>S t S'. running_thread (kern S) 0 = Some t \<and> az_sem_wait 0 8 0 S = Some (Wait_blocks, S') \<and> sem_rep 0 [t] (sems S' 8)"
proof -
  obtain S :: sem_sys and LS t where S: "sys_ok LS (kern S)" "running_thread (kern S) 0 = Some t" "sems S = (\<lambda>_. sem_empty)" by (rule sem_machine)
  have "sem_rep 0 [] (sems S 8)" using S(3) sem_empty_rep by simp
  then show ?thesis
    using semaphore_counts_and_queues [of 0 "[]" S 8 0 LS t] S(1,2) by (auto simp: MAX_PROCESSOR_COUNT_def queue_size sem_result_def)
qed



end
