(* ===== verification/Spec2Isabelle.thy ===== *)
theory Spec2Isabelle
  imports ShmProps Semaphore
begin

text \<open>
  A verification development for the Azalea unikernel.
\<close>

end
